(* ===== verification/Prelude.thy ===== *)
theory Prelude
  imports Main "HOL-Library.Sublist"
begin

text \<open>
  What every component shares: the ways a Go call can end (a value, an error value, a
  panic), the operations of Go's package \<open>strings\<close> that the sources use, on byte
  strings, and generic facts on lists and maps. \<open>go_simps\<close> collects the equations
  that evaluate these operations, \<open>inv_intros\<close> the preservation lemmas of the
  component invariants.
\<close>

named_theorems go_simps
named_theorems inv_intros

section \<open>Outcomes\<close>

text \<open>
  A Go function returns or panics. An error that is returned is an ordinary value, so a
  fallible function has result \<open>go_error + 'a\<close>, and a function that may also panic
  \<open>(go_error + 'a) outcome\<close>.
\<close>

datatype 'a outcome = Return 'a | Panics string

fun bind_outcome :: "'a outcome \<Rightarrow> ('a \<Rightarrow> 'b outcome) \<Rightarrow> 'b outcome" where
  "bind_outcome (Return x) f = f x"
| "bind_outcome (Panics msg) f = Panics msg"

lemma bind_outcome_Return_iff:
  "bind_outcome m f = Return y \<longleftrightarrow> (\<exists>x. m = Return x \<and> f x = Return y)"
  by (cases m) auto

text \<open>
  Error values: a message of the program's own, the one sentinel the program compares
  with, the wrapping of package \<open>oops\<close> (which keeps its cause), and the combination of
  package \<open>multierr\<close>.
\<close>

datatype go_error =
    Err string
  | ErrUndefinedTaskName
  | Wrapped string go_error
  | Multi "go_error list"

text \<open>\<open>oops.Cause\<close> follows the wrapping; \<open>oops.Wrapf\<close> of a nil error is nil.\<close>

fun cause :: "go_error \<Rightarrow> go_error" where
  "cause (Wrapped _ e) = cause e"
| "cause e = e"

definition wrapf :: "string \<Rightarrow> go_error option \<Rightarrow> go_error option" where
  "wrapf msg e = map_option (Wrapped msg) e"

lemma wrapf_None_iff [simp]: "wrapf msg e = None \<longleftrightarrow> e = None"
  by (simp add: wrapf_def)

lemma cause_wrapf [simp]: "map_option cause (wrapf msg e) = map_option cause e"
  by (cases e) (simp_all add: wrapf_def)

text \<open>\<open>multierr.Append\<close>: nil is neutral, and nested combinations are flattened.\<close>

fun error_list :: "go_error \<Rightarrow> go_error list" where
  "error_list (Multi es) = es"
| "error_list e = [e]"

fun multi_append :: "go_error option \<Rightarrow> go_error option \<Rightarrow> go_error option" where
  "multi_append None r = r"
| "multi_append l None = l"
| "multi_append (Some l) (Some r) = Some (Multi (error_list l @ error_list r))"

lemma multi_append_None_iff [simp]:
  "multi_append l r = None \<longleftrightarrow> l = None \<and> r = None"
  by (cases l; cases r) simp_all

lemma multi_append_None2 [simp]: "multi_append l None = l"
  by (cases l) simp_all

section \<open>Strings\<close>

text \<open>
  A Go string is a sequence of bytes, a HOL \<open>string\<close> a list of 8-bit characters.
  \<open>strings.HasPrefix\<close> and \<open>strings.HasSuffix\<close> are \<open>prefix\<close> and \<open>suffix\<close> of
  the library; \<open>strings.Split\<close> is used with one-byte separators only.
\<close>

abbreviation has_prefix :: "string \<Rightarrow> string \<Rightarrow> bool" where
  "has_prefix s p \<equiv> prefix p s"

abbreviation has_suffix :: "string \<Rightarrow> string \<Rightarrow> bool" where
  "has_suffix s p \<equiv> suffix p s"

abbreviation newline :: char where
  "newline \<equiv> CHR 0x0A"

abbreviation dquote :: char where
  "dquote \<equiv> CHR 0x22"

fun split_on :: "char \<Rightarrow> string \<Rightarrow> string list" where
  "split_on c [] = [[]]"
| "split_on c (x # xs) =
     (if x = c then [] # split_on c xs
      else (case split_on c xs of [] \<Rightarrow> [[x]] | y # ys \<Rightarrow> (x # y) # ys))"

fun join_with :: "string \<Rightarrow> string list \<Rightarrow> string" where
  "join_with sep [] = []"
| "join_with sep [x] = x"
| "join_with sep (x # y # ys) = x @ sep @ join_with sep (y # ys)"

lemma split_on_ne [simp]: "split_on c s \<noteq> []"
  by (induction s) (auto split: list.splits)

lemma join_with_Cons:
  "ys \<noteq> [] \<Longrightarrow> join_with sep (x # ys) = x @ sep @ join_with sep ys"
  by (cases ys) simp_all

lemma join_split [simp]: "join_with [c] (split_on c s) = s"
proof (induction s)
  case Nil
  then show ?case by simp
next
  case (Cons x xs)
  obtain y ys where eq: "split_on c xs = y # ys"
    by (cases "split_on c xs") auto
  with Cons.IH show ?case
    by (cases ys) (auto simp: join_with_Cons)
qed

lemma split_on_no_sep: "c \<notin> set s \<Longrightarrow> split_on c s = [s]"
  by (induction s) auto

lemma split_on_append:
  "c \<notin> set s \<Longrightarrow> split_on c (s @ c # t) = s # split_on c t"
  by (induction s) auto

lemma split_on_parts: "p \<in> set (split_on c s) \<Longrightarrow> c \<notin> set p"
  by (induction s arbitrary: p) (auto split: list.splits if_splits)

lemma split_join:
  "xs \<noteq> [] \<Longrightarrow> \<forall>x \<in> set xs. c \<notin> set x \<Longrightarrow> split_on c (join_with [c] xs) = xs"
proof (induction xs)
  case Nil
  then show ?case by simp
next
  case (Cons x xs)
  then show ?case
    by (cases xs) (simp_all add: split_on_no_sep split_on_append)
qed

lemma length_split_on: "length (split_on c s) = Suc (count_list s c)"
  by (induction s) (auto split: list.splits simp: neq_Nil_conv)

text \<open>
  \<open>strings.TrimPrefix\<close>, \<open>strings.TrimSuffix\<close>, \<open>strings.Trim(s, "\n")\<close>,
  \<open>strings.TrimRight(s, "\n")\<close> and \<open>strings.TrimSpace\<close>, which trims the white space of
  Unicode in its UTF-8 encoding. A character is recognised from the right as from the left,
  since no byte but the first one of an encoding can start a character.
\<close>

definition trim_prefix :: "string \<Rightarrow> string \<Rightarrow> string" where
  "trim_prefix s p = (if prefix p s then drop (length p) s else s)"

definition trim_suffix :: "string \<Rightarrow> string \<Rightarrow> string" where
  "trim_suffix s p = (if suffix p s then take (length s - length p) s else s)"

definition trim_left_by :: "(char \<Rightarrow> bool) \<Rightarrow> string \<Rightarrow> string" where
  "trim_left_by P s = dropWhile P s"

definition trim_right_by :: "(char \<Rightarrow> bool) \<Rightarrow> string \<Rightarrow> string" where
  "trim_right_by P s = rev (dropWhile P (rev s))"

definition is_space :: "char \<Rightarrow> bool" where
  "is_space c \<longleftrightarrow> c \<in> {CHR 0x09, CHR 0x0A, CHR 0x0B, CHR 0x0C, CHR 0x0D, CHR 0x20}"

definition trim_newlines :: "string \<Rightarrow> string" where
  "trim_newlines s = trim_right_by (\<lambda>c. c = newline) (trim_left_by (\<lambda>c. c = newline) s)"

definition white_spaces :: "string list" where
  "white_spaces = map (\<lambda>c. [c]) [CHR 0x09, CHR 0x0A, CHR 0x0B, CHR 0x0C, CHR 0x0D, CHR 0x20] @
     [[CHR 0xC2, CHR 0x85], [CHR 0xC2, CHR 0xA0], [CHR 0xE1, CHR 0x9A, CHR 0x80]] @
     map (\<lambda>c. [CHR 0xE2, CHR 0x80, c])
       [CHR 0x80, CHR 0x81, CHR 0x82, CHR 0x83, CHR 0x84, CHR 0x85, CHR 0x86, CHR 0x87, CHR 0x88,
        CHR 0x89, CHR 0x8A, CHR 0xA8, CHR 0xA9, CHR 0xAF] @
     [[CHR 0xE2, CHR 0x81, CHR 0x9F], [CHR 0xE3, CHR 0x80, CHR 0x80]]"

function strip_leading :: "string list \<Rightarrow> string \<Rightarrow> string" where
  "strip_leading ps s =
     (case find (\<lambda>p. p \<noteq> [] \<and> prefix p s) ps of
        None \<Rightarrow> s
      | Some p \<Rightarrow> strip_leading ps (drop (length p) s))"
  by pat_completeness auto
termination
  by (relation "measure (\<lambda>(ps, s). length s)") (auto simp: find_Some_iff prefix_def)

declare strip_leading.simps [simp del]

definition trim_space :: "string \<Rightarrow> string" where
  "trim_space s = rev (strip_leading (map rev white_spaces) (rev (strip_leading white_spaces s)))"

lemma trim_suffix_append [simp]: "trim_suffix (s @ p) p = s"
  by (simp add: trim_suffix_def suffix_def)

lemma trim_prefix_append [simp]: "trim_prefix (p @ s) p = s"
  by (simp add: trim_prefix_def)

lemma strip_leading_keeps: "\<forall>p \<in> set ps. \<not> prefix p s \<Longrightarrow> strip_leading ps s = s"
  by (subst strip_leading.simps) (auto split: option.split simp: find_Some_iff)

lemma length_strip_leading: "length (strip_leading ps s) \<le> length s"
proof (induction ps s rule: strip_leading.induct)
  case (1 ps s)
  then show ?case
    by (subst strip_leading.simps) (auto split: option.split intro: le_trans)
qed

lemma length_trim_space: "length (trim_space s) \<le> length s"
  using length_strip_leading [of "map rev white_spaces" "rev (strip_leading white_spaces s)"]
    length_strip_leading [of white_spaces s]
  by (simp add: trim_space_def)

text \<open>An ASCII character is white space by itself or not at all.\<close>

lemma white_space_bytes:
  "\<forall>p \<in> set white_spaces. p \<noteq> [] \<and>
     (p = [hd p] \<and> is_space (hd p) \<or> 128 \<le> (of_char (hd p) :: nat) \<and> 128 \<le> (of_char (last p) :: nat))"
  by (simp add: white_spaces_def is_space_def)

lemma ascii_no_space:
  assumes "of_char c < (128 :: nat)" and "\<not> is_space c" and "p \<in> set white_spaces"
  shows "\<not> prefix p (c # s)" "\<not> prefix (rev p) (c # s)"
proof -
  have p: "p \<noteq> []" "p = [hd p] \<and> is_space (hd p) \<or>
      128 \<le> (of_char (hd p) :: nat) \<and> 128 \<le> (of_char (last p) :: nat)"
    using white_space_bytes assms(3) by blast+
  have "hd p \<noteq> c" "last p \<noteq> c"
    using p(2) assms(1,2) by (metis last.simps not_le)+
  then show "\<not> prefix p (c # s)" "\<not> prefix (rev p) (c # s)"
    using p(1) by (metis hd_append2 list.sel(1) prefixE)
      (metis \<open>last p \<noteq> c\<close> hd_append2 hd_rev list.sel(1) p(1) prefixE rev_is_Nil_conv)
qed

lemma strip_ascii_left: "of_char c < (128 :: nat) \<Longrightarrow> \<not> is_space c \<Longrightarrow> strip_leading white_spaces (c # s) = c # s"
  using ascii_no_space(1) by (intro strip_leading_keeps) blast

lemma strip_ascii_right:
  "of_char c < (128 :: nat) \<Longrightarrow> \<not> is_space c \<Longrightarrow>
     strip_leading (map rev white_spaces) (rev (s @ [c])) = rev (s @ [c])"
  using ascii_no_space(2) by (auto intro!: strip_leading_keeps)

lemma trim_space_ascii:
  assumes "of_char c < (128 :: nat)" "\<not> is_space c" "of_char d < (128 :: nat)" "\<not> is_space d"
  shows "trim_space (c # s @ [d]) = c # s @ [d]" "trim_space [c] = [c]"
  using strip_ascii_left [OF assms(1,2)] strip_ascii_right [OF assms(3,4), of "c # s"]
    strip_ascii_right [OF assms(1,2), of "[]"]
  by (simp_all add: trim_space_def)

lemma trim_space_blank:
  assumes "of_char c < (128 :: nat)" "\<not> is_space c" "of_char d < (128 :: nat)" "\<not> is_space d"
  shows "trim_space (CHR '' '' # c # s @ [d]) = c # s @ [d]"
proof -
  have "strip_leading white_spaces (CHR '' '' # c # s @ [d]) = strip_leading white_spaces (c # s @ [d])"
    by (subst strip_leading.simps) (simp add: white_spaces_def)
  with trim_space_ascii(1) [OF assms] show ?thesis by (simp add: trim_space_def)
qed

section \<open>Lists and maps\<close>

text \<open>
  A Go map is ranged over in an unspecified order. An operation that ranges over a map
  takes the order as an argument; \<open>is_order ord m\<close> says that it lists the keys once.
\<close>

definition is_order :: "'k list \<Rightarrow> ('k \<rightharpoonup> 'v) \<Rightarrow> bool" where
  "is_order ord m \<longleftrightarrow> distinct ord \<and> set ord = dom m"

lemma is_order_distinct [dest]: "is_order ord m \<Longrightarrow> distinct ord"
  by (simp add: is_order_def)

lemma is_order_mem: "is_order ord m \<Longrightarrow> x \<in> set ord \<longleftrightarrow> x \<in> dom m"
  by (simp add: is_order_def)

lemma subset_chain: "A \<subseteq> B \<union> U \<Longrightarrow> B \<subseteq> S \<union> V \<Longrightarrow> A \<subseteq> S \<union> (V \<union> U)"
  by blast

lemma separated_images:
  fixes f :: "'a \<Rightarrow> nat"
  assumes "\<And>x. x \<in> A \<Longrightarrow> f x < k" and "\<And>x. x \<in> B \<Longrightarrow> k \<le> f x"
  shows "f ` (A - B) \<inter> f ` (B - A) = {}"
  using assms by (fastforce dest: leD)

text \<open>\<open>last_n n xs\<close>: the last \<open>n\<close> elements.\<close>

definition last_n :: "nat \<Rightarrow> 'a list \<Rightarrow> 'a list" where
  "last_n n xs = drop (length xs - n) xs"

lemma length_last_n [simp]: "length (last_n n xs) = min n (length xs)"
  by (simp add: last_n_def)

lemma last_n_append_last_n [simp]: "last_n n (last_n n xs @ ys) = last_n n (xs @ ys)"
  by (cases "length xs \<le> n") (simp_all add: last_n_def add.commute)

lemma last_n_all [simp]: "length xs \<le> n \<Longrightarrow> last_n n xs = xs"
  by (simp add: last_n_def)

section \<open>Transition systems\<close>

text \<open>
  The states reachable from the initial ones, and the interface of an invariant: what has
  to be shown of a predicate for it to hold in all of them. An invariant may use one that is
  already known (\<open>known\<close>) on both sides of a step.
\<close>

inductive reachable_by :: "('s \<Rightarrow> bool) \<Rightarrow> ('s \<Rightarrow> 's \<Rightarrow> bool) \<Rightarrow> 's \<Rightarrow> bool"
  for init :: "'s \<Rightarrow> bool" and step :: "'s \<Rightarrow> 's \<Rightarrow> bool"
where
  initial: "init s \<Longrightarrow> reachable_by init step s"
| step: "reachable_by init step s \<Longrightarrow> step s s' \<Longrightarrow> reachable_by init step s'"

locale invariant =
  fixes init :: "'s \<Rightarrow> bool" and step :: "'s \<Rightarrow> 's \<Rightarrow> bool"
    and known :: "'s \<Rightarrow> bool" and inv :: "'s \<Rightarrow> bool"
  assumes known_reachable: "reachable_by init step s \<Longrightarrow> known s"
    and inv_init: "init s \<Longrightarrow> inv s"
    and inv_step: "known s \<Longrightarrow> inv s \<Longrightarrow> step s s' \<Longrightarrow> known s' \<Longrightarrow> inv s'"
begin

lemma inv_reachable: "reachable_by init step s \<Longrightarrow> inv s"
proof (induction rule: reachable_by.induct)
  case (initial s)
  then show ?case by (rule inv_init)
next
  case (step s s')
  then have "known s" "known s'"
    by (auto intro: known_reachable reachable_by.step)
  with step show ?case by (blast intro: inv_step)
qed

lemma both_reachable: "reachable_by init step s \<Longrightarrow> known s \<and> inv s"
  by (simp add: known_reachable inv_reachable)

end

text \<open>
  The interface of a refinement: an abstraction under which every step of the detailed system
  is a step of the abstract one or changes nothing. What holds in all reachable states of the
  abstract system then holds of every reachable detailed state.
\<close>

locale refinement =
  fixes init :: "'s \<Rightarrow> bool" and step :: "'s \<Rightarrow> 's \<Rightarrow> bool" and abs_of :: "'s \<Rightarrow> 'a"
    and abs_init :: "'a \<Rightarrow> bool" and abs_step :: "'a \<Rightarrow> 'a \<Rightarrow> bool"
  assumes refines_init: "init s \<Longrightarrow> abs_init (abs_of s)"
    and refines_step: "reachable_by init step s \<Longrightarrow> step s s' \<Longrightarrow>
      abs_of s' = abs_of s \<or> abs_step (abs_of s) (abs_of s')"
begin

lemma abs_reachable: "reachable_by init step s \<Longrightarrow> reachable_by abs_init abs_step (abs_of s)"
proof (induction rule: reachable_by.induct)
  case (initial s)
  then show ?case by (intro reachable_by.initial refines_init)
next
  case (step s s')
  with refines_step [OF step(1,2)] show ?case by (auto intro: reachable_by.step)
qed

lemma abs_property:
  "(\<And>a. reachable_by abs_init abs_step a \<Longrightarrow> P a) \<Longrightarrow> reachable_by init step s \<Longrightarrow> P (abs_of s)"
  using abs_reachable by blast

end

lemma reachable_by_mono:
  assumes "reachable_by init step s" and "\<And>s s'. step s s' \<Longrightarrow> step' s s'"
  shows "reachable_by init step' s"
  using assms(1) by (induction rule: reachable_by.induct) (auto intro: reachable_by.intros assms(2))

end
