(* ===== verification/Shell.thy ===== *)
theory Shell
  imports Prelude
begin

text \<open>
  \<open>shell/shell.go\<close>: the options that configure one run of the shell interpreter, and
  \<open>Run\<close>. The interpreter itself (packages \<open>interp\<close> and \<open>syntax\<close> of mvdan.cc/sh) is
  a parameter: \<open>parse\<close>, \<open>new\<close> and \<open>exec\<close> of \<open>shell_run\<close>. Writers are opaque
  handles; a \<open>runner\<close> holds the interpreter's fields that the options write.
\<close>

type_synonym writer = nat

record runner =
  rn_stdout :: "writer option"
  rn_stderr :: "writer option"
  rn_stdin :: "string option"
  rn_env :: "string \<rightharpoonup> string"
  rn_dir :: string

type_synonym run_option = "runner \<Rightarrow> runner"

definition opt_stdout :: "writer \<Rightarrow> run_option" where
  "opt_stdout w r = r\<lparr>rn_stdout := Some w\<rparr>"

definition opt_stderr :: "writer \<Rightarrow> run_option" where
  "opt_stderr w r = r\<lparr>rn_stderr := Some w\<rparr>"

definition opt_stdin :: "string \<Rightarrow> run_option" where
  "opt_stdin s r = r\<lparr>rn_stdin := Some s\<rparr>"

text \<open>\<open>Env\<close> ranges over a map and sets every variable; the keys are distinct.\<close>

definition opt_env :: "(string \<times> string) list \<Rightarrow> run_option" where
  "opt_env vars r = r\<lparr>rn_env := fold (\<lambda>(k, v) m. m(k \<mapsto> v)) vars (rn_env r)\<rparr>"

definition apply_options :: "run_option list \<Rightarrow> runner \<Rightarrow> runner" where
  "apply_options opts r = fold (\<lambda>opt r. opt r) opts r"

text \<open>
  A context carries, beside its identity, the logger under \<open>loggerKey\<close> (logger.go).
\<close>

record logger =
  lg_stdout :: writer
  lg_stderr :: writer

text \<open>
  A cancelable context is named by the path of its identities, its own first: \<open>tl\<close> is the
  parent it was derived from.
\<close>

type_synonym ctx = "nat list"

record go_ctx =
  cx_path :: ctx
  cx_logger :: "logger option"

text \<open>
  The type \<open>ShellRun\<close>: a function of a context, a command and options, with its effect
  on the world \<open>'w\<close>.
\<close>

type_synonym 'w shell_fn =
  "go_ctx \<Rightarrow> string \<Rightarrow> run_option list \<Rightarrow> 'w \<Rightarrow> (go_error option \<times> 'w) outcome"

definition shell_run ::
  "(string \<Rightarrow> go_error + 'p) \<Rightarrow> go_error + runner
    \<Rightarrow> (go_ctx \<Rightarrow> runner \<Rightarrow> 'p \<Rightarrow> 'w \<Rightarrow> go_error option \<times> 'w) \<Rightarrow> 'w shell_fn" where
  "shell_run parse new exec ctx command opts w =
     (case parse command of
        Inl e \<Rightarrow> Return (wrapf ''failed to parse shell command'' (Some e), w)
      | Inr p \<Rightarrow>
          (case new of
             Inl e \<Rightarrow> Panics ''failed to set up interpreter''
           | Inr r \<Rightarrow> Return (exec ctx (apply_options opts r) p w)))"

text \<open>Later options override earlier ones; options on different fields do not interfere.\<close>

lemma apply_options_append [simp]:
  "apply_options (xs @ ys) r = apply_options ys (apply_options xs r)"
  by (simp add: apply_options_def)

lemma apply_options_Nil [simp]: "apply_options [] r = r"
  by (simp add: apply_options_def)

lemma apply_options_Cons [simp]: "apply_options (x # xs) r = apply_options xs (x r)"
  by (simp add: apply_options_def)

lemma opt_env_lookup:
  "distinct (map fst vars) \<Longrightarrow> rn_env (opt_env vars r) = rn_env r ++ map_of vars"
proof (induction vars arbitrary: r)
  case Nil
  then show ?case by (simp add: opt_env_def)
next
  case (Cons kv vars)
  obtain k v where kv: "kv = (k, v)" by (cases kv)
  have "rn_env (opt_env (kv # vars) r) =
      rn_env (opt_env vars (r\<lparr>rn_env := (rn_env r)(k \<mapsto> v)\<rparr>))"
    by (simp add: opt_env_def kv)
  also have "\<dots> = (rn_env r)(k \<mapsto> v) ++ map_of vars"
    using Cons by (simp add: kv)
  also have "\<dots> = rn_env r ++ map_of (kv # vars)"
    using Cons.prems by (simp add: kv dom_map_of_conv_image_fst map_add_upd_left)
  finally show ?case .
qed

text \<open>
  An option leaves the standard output alone when it writes the same value to it whatever
  the runner is; \<open>stdout_free\<close> is the class of options that do not touch it.
\<close>

definition stdout_free :: "run_option \<Rightarrow> bool" where
  "stdout_free opt \<longleftrightarrow> (\<forall>r. rn_stdout (opt r) = rn_stdout r)"

lemma stdout_free_opts [simp]:
  "stdout_free (opt_stderr w)" "stdout_free (opt_stdin s)" "stdout_free (opt_env vars)"
  by (simp_all add: stdout_free_def opt_stderr_def opt_stdin_def opt_env_def)

lemma apply_stdout_free:
  "\<forall>opt \<in> set opts. stdout_free opt \<Longrightarrow> rn_stdout (apply_options opts r) = rn_stdout r"
  by (induction opts arbitrary: r) (auto simp: stdout_free_def)

lemma apply_last_stdout:
  assumes "\<forall>opt \<in> set post. stdout_free opt"
  shows "rn_stdout (apply_options (pre @ opt_stdout w # post) r) = Some w"
  using assms by (simp add: apply_stdout_free) (simp add: opt_stdout_def)

end
