(* ===== verification/Task.thy ===== *)
theory Task
  imports Shell "HOL-Library.Word"
begin

text \<open>
  \<open>task.go\<close> and \<open>invalidation.go\<close>: the task definition, its flags, the arguments a task
  receives for them, and the events that invalidate a task. A \<open>*Task\<close> is a pointer and
  the program compares tasks by pointer, so a task is named by a \<open>tid\<close> and defined by a
  store \<open>tid \<Rightarrow> 'w task\<close>. Function fields that may be nil are options; a function's
  effects act on the world \<open>'w\<close>.
\<close>

type_synonym tid = nat

section \<open>Flags\<close>

text \<open>A rune is an int32; \<open>string(r)\<close> is its UTF-8 encoding.\<close>

type_synonym rune = "32 word"

definition utf8_bytes :: "nat \<Rightarrow> nat list" where
  "utf8_bytes n =
     (if n < 0x80 then [n]
      else if n < 0x800 then [0xC0 + n div 64, 0x80 + n mod 64]
      else if (0xD800 \<le> n \<and> n < 0xE000) \<or> 0x10FFFF < n then [0xEF, 0xBF, 0xBD]
      else if n < 0x10000 then [0xE0 + n div 4096, 0x80 + (n div 64) mod 64, 0x80 + n mod 64]
      else [0xF0 + n div 262144, 0x80 + (n div 4096) mod 64, 0x80 + (n div 64) mod 64,
            0x80 + n mod 64])"

definition rune_string :: "rune \<Rightarrow> string" where
  "rune_string r = map char_of (utf8_bytes (unat r))"

lemma rune_string_ne [simp]: "rune_string r \<noteq> []"
  by (simp add: rune_string_def utf8_bytes_def)

lemma length_rune_string_ascii:
  "length (rune_string r) = Suc 0 \<longleftrightarrow> unat r < 128"
  by (simp add: rune_string_def utf8_bytes_def)

lemma rune_string_ascii: "unat r < 128 \<Longrightarrow> rune_string r = [char_of (unat r)]"
  by (simp add: rune_string_def utf8_bytes_def)

lemma rune_string_ascii_inj:
  assumes "unat r < 128" and "rune_string r = rune_string q"
  shows "r = q"
proof -
  from assms have "length (rune_string q) = Suc 0"
    by (metis length_rune_string_ascii)
  then have q: "unat q < 128" by (simp add: length_rune_string_ascii)
  with assms have "char_of (unat r) = (char_of (unat q) :: char)"
    by (simp add: rune_string_ascii)
  then have "unat r mod 256 = unat q mod 256"
    by (metis of_char_of)
  with assms(1) q have "unat r = unat q" by simp
  then show ?thesis by (simp only: word_unat_eq_iff)
qed

record task_flag =
  f_description :: string
  f_short_name :: rune
  f_long_name :: string
  f_default :: string
  f_value_type :: string

definition StringTypeFlag :: string where "StringTypeFlag = ''string''"

definition BoolTypeFlag :: string where "BoolTypeFlag = ''bool''"

definition IntTypeFlag :: string where "IntTypeFlag = ''int''"

definition Float64TypeFlag :: string where "Float64TypeFlag = ''float64''"

definition DurationTypeFlag :: string where "DurationTypeFlag = ''duration''"

lemmas flag_type_defs =
  StringTypeFlag_def BoolTypeFlag_def IntTypeFlag_def Float64TypeFlag_def DurationTypeFlag_def

definition flag_types :: "string list" where
  "flag_types = [StringTypeFlag, BoolTypeFlag, IntTypeFlag, Float64TypeFlag, DurationTypeFlag]"

lemma flag_types_distinct [simp]: "distinct flag_types"
  by (simp add: flag_types_def flag_type_defs)

text \<open>
  \<open>FlagArg\<close>: the raw value (nil or a string) and one getter per type. A getter has no
  effect; it returns nil or a pointer to a value, or panics. A float64 and a duration are
  their 64-bit representations.
\<close>

record flag_arg =
  fa_value :: "string option"
  fa_string_val :: "string option outcome"
  fa_bool_val :: "bool option outcome"
  fa_int_val :: "int option outcome"
  fa_float64_val :: "64 word option outcome"
  fa_duration_val :: "64 word option outcome"

section \<open>Invalidation events\<close>

datatype invalidation_reason =
  Reason_Invalid | Reason_FileChange | Reason_DependencyChange | Reason_KeepAliveStopped
| Reason_UserRestart

text \<open>
  \<open>InvalidationEvent\<close> is an interface. The program's four implementations are
  constructors; \<open>CustomEvent\<close> is an implementation outside the package, given by its
  type's name and the values of its two methods.
\<close>

datatype invalidation_event =
    FileChange string
  | DependencyChange tid
  | KeepAliveStopped
  | UserRestart
  | CustomEvent string invalidation_reason string

fun event_reason :: "invalidation_event \<Rightarrow> invalidation_reason" where
  "event_reason (FileChange f) = Reason_FileChange"
| "event_reason (DependencyChange src) = Reason_DependencyChange"
| "event_reason KeepAliveStopped = Reason_KeepAliveStopped"
| "event_reason UserRestart = Reason_UserRestart"
| "event_reason (CustomEvent ty r d) = r"

section \<open>Tasks\<close>

type_synonym 'w run_fn =
  "go_ctx \<Rightarrow> 'w shell_fn \<Rightarrow> 'w \<Rightarrow> (go_error option \<times> 'w) outcome"

type_synonym 'w run_flags_fn =
  "go_ctx \<Rightarrow> 'w shell_fn \<Rightarrow> (string \<rightharpoonup> flag_arg) \<Rightarrow> 'w \<Rightarrow> (go_error option \<times> 'w) outcome"

record 'w task =
  t_name :: string
  t_description :: string
  t_owner :: string
  t_run :: "'w run_fn option"
  t_run_with_flags :: "'w run_flags_fn option"
  t_flags :: "task_flag list"
  t_should_invalidate :: "(invalidation_event \<Rightarrow> bool) option"
  t_dependencies :: "tid list"
  t_keep_alive :: bool
  t_hidden :: bool
  t_sources :: "string list"
  t_ignore :: "string list"
  t_is_group :: bool

text \<open>The zero value of the struct, from which Go's composite literals start.\<close>

definition zero_task :: "'w task" where
  "zero_task = \<lparr>t_name = [], t_description = [], t_owner = [], t_run = None,
     t_run_with_flags = None, t_flags = [], t_should_invalidate = None, t_dependencies = [],
     t_keep_alive = False, t_hidden = False, t_sources = [], t_ignore = [],
     t_is_group = False\<rparr>"

fun event_description :: "(tid \<Rightarrow> 'w task) \<Rightarrow> invalidation_event \<Rightarrow> string" where
  "event_description g (FileChange f) = ''file '' @ f @ '' changed''"
| "event_description g (DependencyChange src) =
     ''dependency '' @ t_name (g src) @ '' was also invalidated''"
| "event_description g KeepAliveStopped = ''task exited, but is marked as keep alive''"
| "event_description g UserRestart = ''user requested task restart''"
| "event_description g (CustomEvent ty r d) = d"

end
