(* ===== verification/TaskSet.thy ===== *)
theory TaskSet
  imports Task
begin

text \<open>
  The graph of task executions: the states of \<open>task_execution.go\<close>, its \<open>taskExecution\<close>
  (a node), its \<open>taskSet\<close> (the map from tasks to nodes) and \<open>taskSet.add\<close>, which builds
  the graph. A node's pointer is the \<open>tid\<close> of its task, since a set holds one node per
  task. The cancelable contexts the nodes own are part of the state: \<open>ts_next\<close> names the
  next one, \<open>ts_cancelled\<close> holds those whose cancel function was called.
\<close>

datatype task_state = St_invalid | St_running | St_error | St_done | St_canceled

record execution =
  ex_ctx :: ctx
  ex_state :: task_state
  ex_terminal :: nat \<comment> \<open>the messages in \<open>terminalCh\<close>, a channel of capacity 1\<close>
  ex_dependencies :: "tid list"
  ex_dependents :: "tid list"
  ex_pending :: "invalidation_event set"

record task_set =
  ts_next :: nat
  ts_cancelled :: "nat set"
  ts_exec :: "tid \<rightharpoonup> execution"

section \<open>Contexts\<close>

definition with_cancel :: "ctx \<Rightarrow> ('a task_set_scheme) \<Rightarrow> ctx \<times> ('a task_set_scheme)" where
  "with_cancel parent s = (ts_next s # parent, s\<lparr>ts_next := Suc (ts_next s)\<rparr>)"

text \<open>\<open>ctx.Err() != nil\<close>: the context or one it was derived from is cancelled.\<close>

definition ctx_err :: "nat set \<Rightarrow> ctx \<Rightarrow> bool" where
  "ctx_err cancelled c \<longleftrightarrow> (\<exists>i \<in> set c. i \<in> cancelled)"

lemma ctx_err_Cons [simp]: "ctx_err C (i # c) \<longleftrightarrow> i \<in> C \<or> ctx_err C c"
  by (auto simp: ctx_err_def)

lemma ctx_err_Nil [simp]: "\<not> ctx_err C []"
  by (simp add: ctx_err_def)

lemma ctx_err_append [simp]: "ctx_err C (c @ d) \<longleftrightarrow> ctx_err C c \<or> ctx_err C d"
  by (auto simp: ctx_err_def)

lemma ctx_err_mono: "ctx_err C c \<Longrightarrow> C \<subseteq> D \<Longrightarrow> ctx_err D c"
  by (auto simp: ctx_err_def)

section \<open>Nodes\<close>

definition new_execution :: "ctx \<Rightarrow> tid list \<Rightarrow> execution" where
  "new_execution c deps = \<lparr>ex_ctx = c, ex_state = St_invalid, ex_terminal = 0,
     ex_dependencies = deps, ex_dependents = [], ex_pending = {}\<rparr>"

text \<open>
  \<open>exec_of\<close> follows a node pointer; \<open>upd_exec\<close> updates the node it points to.
\<close>

definition exec_of :: "(tid \<rightharpoonup> execution) \<Rightarrow> tid \<Rightarrow> execution" where
  "exec_of m t = (case m t of Some e \<Rightarrow> e | None \<Rightarrow> new_execution [] [])"

definition upd_exec ::
  "tid \<Rightarrow> (execution \<Rightarrow> execution) \<Rightarrow> (tid \<rightharpoonup> execution) \<Rightarrow> (tid \<rightharpoonup> execution)" where
  "upd_exec t f m = m(t \<mapsto> f (exec_of m t))"

lemma exec_of_upd [simp]:
  "exec_of (upd_exec t f m) x = (if x = t then f (exec_of m t) else exec_of m x)"
  by (simp add: exec_of_def upd_exec_def)

lemma exec_of_map_upd [simp]: "exec_of (m(t \<mapsto> e)) x = (if x = t then e else exec_of m x)"
  by (simp add: exec_of_def)

lemma dom_upd_exec [simp]: "t \<in> dom m \<Longrightarrow> dom (upd_exec t f m) = dom m"
  by (auto simp: upd_exec_def)

lemma exec_of_Some [simp]: "m t = Some e \<Longrightarrow> exec_of m t = e"
  by (simp add: exec_of_def)

section \<open>Building the graph\<close>

text \<open>
  \<open>taskSet.add\<close> returns the node already in the set, or makes a node, adds every direct
  dependency under the new node's context, and stores the node last. The loop over
  \<open>task.Dependencies\<close> is \<open>add_deps\<close>. The recursion follows the dependencies and does
  not return on a cyclic graph, so it has fuel: \<open>None\<close> is a recursion deeper than that.
\<close>

definition add_dependent :: "tid \<Rightarrow> tid \<Rightarrow> task_set \<Rightarrow> task_set" where
  "add_dependent d self s =
     s\<lparr>ts_exec := upd_exec d (\<lambda>e. e\<lparr>ex_dependents := ex_dependents e @ [self]\<rparr>) (ts_exec s)\<rparr>"

fun add_deps ::
  "(ctx \<Rightarrow> tid \<Rightarrow> task_set \<Rightarrow> (task_set \<times> tid list) option)
    \<Rightarrow> ctx \<Rightarrow> tid \<Rightarrow> tid list \<Rightarrow> tid list \<Rightarrow> task_set \<Rightarrow> (task_set \<times> tid list) option" where
  "add_deps add c self [] acc s = Some (s, acc)"
| "add_deps add c self (d # ds) acc s =
     (case add c d s of
        None \<Rightarrow> None
      | Some (s1, ddeps) \<Rightarrow>
          add_deps add c self ds (acc @ ddeps @ [d]) (add_dependent d self s1))"

primrec add_task ::
  "nat \<Rightarrow> (tid \<Rightarrow> 'w task) \<Rightarrow> ctx \<Rightarrow> tid \<Rightarrow> task_set \<Rightarrow> (task_set \<times> tid list) option" where
  "add_task 0 g = (\<lambda>c t s. None)"
| "add_task (Suc n) g = (\<lambda>c t s.
     (case ts_exec s t of
        Some e \<Rightarrow> Some (s, ex_dependencies e)
      | None \<Rightarrow>
          (let (ctx, s1) = with_cancel c s in
           (case add_deps (add_task n g) ctx t (t_dependencies (g t)) [] s1 of
              None \<Rightarrow> None
            | Some (s2, deps) \<Rightarrow>
                Some (s2\<lparr>ts_exec := (ts_exec s2)(t \<mapsto> new_execution ctx deps)\<rparr>, deps)))))"

text \<open>
  The loop of \<open>Executor.Run\<close> over the desired task names (executor.go), on a registry of
  names: an unknown name ends it with the sentinel error.
\<close>

definition empty_task_set :: "nat \<Rightarrow> task_set" where
  "empty_task_set n = \<lparr>ts_next = n, ts_cancelled = {}, ts_exec = Map.empty\<rparr>"

fun build_task_set ::
  "nat \<Rightarrow> (tid \<Rightarrow> 'w task) \<Rightarrow> (string \<rightharpoonup> tid) \<Rightarrow> ctx \<Rightarrow> string list \<Rightarrow> task_set
    \<Rightarrow> (go_error + task_set) option" where
  "build_task_set n g reg c [] s = Some (Inr s)"
| "build_task_set n g reg c (name # names) s =
     (case reg name of
        None \<Rightarrow> Some (Inl (Wrapped (''task '' @ name @ '' is not defined'') ErrUndefinedTaskName))
      | Some t \<Rightarrow>
          (case add_task n g c t s of
             None \<Rightarrow> None
           | Some (s', _) \<Rightarrow> build_task_set n g reg c names s'))"

section \<open>The dependency relation\<close>

definition dep_rel :: "(tid \<Rightarrow> 'w task) \<Rightarrow> (tid \<times> tid) set" where
  "dep_rel g = {(d, t). d \<in> set (t_dependencies (g t))}"

lemma dep_rel_iff [simp]: "(d, t) \<in> dep_rel g \<longleftrightarrow> d \<in> set (t_dependencies (g t))"
  by (simp add: dep_rel_def)

text \<open>All tasks a task depends on, directly or not.\<close>

definition deps_of :: "(tid \<Rightarrow> 'w task) \<Rightarrow> tid \<Rightarrow> tid set" where
  "deps_of g t = {d. (d, t) \<in> (dep_rel g)\<^sup>+}"

lemma deps_of_unfold:
  "deps_of g t = (\<Union>d \<in> set (t_dependencies (g t)). insert d (deps_of g d))"
proof -
  have "(x, t) \<in> (dep_rel g)\<^sup>+ \<longleftrightarrow>
      (\<exists>d \<in> set (t_dependencies (g t)). x = d \<or> (x, d) \<in> (dep_rel g)\<^sup>+)" for x
    by (subst trancl_unfold) (auto simp: relcomp_unfold)
  then show ?thesis by (auto simp: deps_of_def)
qed

lemma deps_of_trans: "d \<in> deps_of g t \<Longrightarrow> deps_of g d \<subseteq> deps_of g t"
  by (auto simp: deps_of_def)

lemma deps_of_direct: "d \<in> set (t_dependencies (g t)) \<Longrightarrow> d \<in> deps_of g t"
  by (auto simp: deps_of_def)

lemma not_self_dep: "wf (dep_rel g) \<Longrightarrow> t \<notin> deps_of g t"
  by (auto simp: deps_of_def dest: wf_trancl)

end
