(* ===== verification/TaskSetBuild.thy ===== *)
theory TaskSetBuild
  imports TaskSet "HOL-Library.Multiset"
begin

text \<open>
  What \<open>taskSet.add\<close> builds. The fuel recursion is first turned into a big-step relation
  without fuel, on which the facts are proved by rule induction: the nodes a call adds, the
  transitive dependencies each stores, the reverse edges, the tree of contexts, and exactly
  when the recursion returns.
\<close>

section \<open>A big-step view of the recursion\<close>

inductive adds :: "(tid \<Rightarrow> 'w task) \<Rightarrow> ctx \<Rightarrow> tid \<Rightarrow> task_set \<Rightarrow> task_set \<Rightarrow> tid list \<Rightarrow> bool"
  and adds_list ::
    "(tid \<Rightarrow> 'w task) \<Rightarrow> ctx \<Rightarrow> tid \<Rightarrow> tid list \<Rightarrow> tid list \<Rightarrow> task_set \<Rightarrow> task_set \<Rightarrow> tid list
      \<Rightarrow> bool"
  for g :: "tid \<Rightarrow> 'w task"
where
  present: "ts_exec s t = Some e \<Longrightarrow> adds g c t s s (ex_dependencies e)"
| fresh: "ts_exec s t = None \<Longrightarrow>
    adds_list g (ts_next s # c) t (t_dependencies (g t)) [] (s\<lparr>ts_next := Suc (ts_next s)\<rparr>) s2 deps
    \<Longrightarrow> adds g c t s (s2\<lparr>ts_exec := (ts_exec s2)(t \<mapsto> new_execution (ts_next s # c) deps)\<rparr>) deps"
| nil: "adds_list g c self [] acc s s acc"
| cons: "adds g c d s s1 ddeps \<Longrightarrow>
    adds_list g c self ds (acc @ ddeps @ [d]) (add_dependent d self s1) s2 deps
    \<Longrightarrow> adds_list g c self (d # ds) acc s s2 deps"

lemma add_deps_adds:
  assumes "\<And>c t s s' ds. add c t s = Some (s', ds) \<Longrightarrow> adds g c t s s' ds"
    and "add_deps add c self ds acc s = Some (s', deps)"
  shows "adds_list g c self ds acc s s' deps"
  using assms(2)
proof (induction ds arbitrary: acc s)
  case Nil
  then show ?case by (simp add: adds_adds_list.nil)
next
  case (Cons d ds)
  then show ?case
    by (auto split: option.splits intro: adds_adds_list.cons assms(1))
qed

lemma add_task_adds: "add_task n g c t s = Some (s', ds) \<Longrightarrow> adds g c t s s' ds"
proof (induction n arbitrary: c t s s' ds)
  case 0
  then show ?case by simp
next
  case (Suc n)
  show ?case
  proof (cases "ts_exec s t")
    case None
    with Suc.prems obtain s2 where
      s2: "add_deps (add_task n g) (ts_next s # c) t (t_dependencies (g t)) []
             (s\<lparr>ts_next := Suc (ts_next s)\<rparr>) = Some (s2, ds)"
      and s': "s' = s2\<lparr>ts_exec := (ts_exec s2)(t \<mapsto> new_execution (ts_next s # c) ds)\<rparr>"
      by (auto simp: with_cancel_def split: option.splits)
    from add_deps_adds [OF Suc.IH s2] None show ?thesis
      unfolding s' by (intro adds_adds_list.fresh)
  next
    case (Some e)
    with Suc.prems show ?thesis by (auto intro: adds_adds_list.present)
  qed
qed

section \<open>Growth\<close>

text \<open>A call adds nodes and appends reverse edges; everything else stays.\<close>

definition grows :: "task_set \<Rightarrow> task_set \<Rightarrow> bool" where
  "grows s s' \<longleftrightarrow> ts_cancelled s' = ts_cancelled s \<and> ts_next s \<le> ts_next s' \<and>
     (\<forall>x e. ts_exec s x = Some e \<longrightarrow>
        (\<exists>xs. ts_exec s' x = Some (e\<lparr>ex_dependents := ex_dependents e @ xs\<rparr>)))"

lemma grows_refl [simp]: "grows s s"
  unfolding grows_def by (auto intro: exI [of _ "[]"])

lemma grows_trans [trans]: "grows s s' \<Longrightarrow> grows s' s'' \<Longrightarrow> grows s s''"
  unfolding grows_def by (fastforce simp: append.assoc)

lemma grows_dom: "grows s s' \<Longrightarrow> dom (ts_exec s) \<subseteq> dom (ts_exec s')"
  unfolding grows_def by blast

lemma grows_ctx: "grows s s' \<Longrightarrow> x \<in> dom (ts_exec s) \<Longrightarrow>
    ex_ctx (exec_of (ts_exec s') x) = ex_ctx (exec_of (ts_exec s) x)"
  unfolding grows_def by (fastforce simp: exec_of_def)

lemma grows_add_dependent: "d \<in> dom (ts_exec s) \<Longrightarrow> grows s (add_dependent d self s)"
  unfolding grows_def add_dependent_def upd_exec_def
  by (auto simp: exec_of_def intro: exI [of _ "[]"])

lemma grows_next: "grows s (s\<lparr>ts_next := Suc (ts_next s)\<rparr>)"
  unfolding grows_def by (auto intro: exI [of _ "[]"])

lemma grows_store:
  "ts_exec s t = None \<Longrightarrow> grows s (s\<lparr>ts_exec := (ts_exec s)(t \<mapsto> e)\<rparr>)"
  unfolding grows_def by (auto intro: exI [of _ "[]"])

lemma dom_add_dependent [simp]:
  "d \<in> dom (ts_exec s) \<Longrightarrow> dom (ts_exec (add_dependent d self s)) = dom (ts_exec s)"
  by (simp add: add_dependent_def)

lemma adds_member:
  "adds g c t s s' ds \<Longrightarrow> t \<in> dom (ts_exec s')"
  by (cases rule: adds.cases) auto

text \<open>
  The nodes a call reaches: the task and its dependencies. On an acyclic graph the node
  being built is therefore not stored by the calls it makes.
\<close>

lemma adds_dom:
  "adds g c t s s' ds \<Longrightarrow> dom (ts_exec s') \<subseteq> dom (ts_exec s) \<union> insert t (deps_of g t)"
  "adds_list g c self ds acc s s' deps \<Longrightarrow>
     dom (ts_exec s') \<subseteq> dom (ts_exec s) \<union> (\<Union>d \<in> set ds. insert d (deps_of g d))"
proof (induction rule: adds_adds_list.inducts)
  case (fresh s t c s2 deps)
  then show ?case by (subst deps_of_unfold) auto
next
  case (cons c d s s1 ddeps self ds acc s2 deps)
  from cons(1) have "d \<in> dom (ts_exec s1)" by (rule adds_member)
  then have "dom (ts_exec s2) \<subseteq> dom (ts_exec s1) \<union> (\<Union>d \<in> set ds. insert d (deps_of g d))"
    using cons(4) by simp
  from subset_chain [OF this cons(2)] show ?case by (simp only: list.set UN_insert)
qed auto

lemma adds_fresh_stays:
  assumes "wf (dep_rel g)" and "ts_exec s t = None"
    and "adds_list g c t (t_dependencies (g t)) acc s1 s2 deps"
    and "ts_exec s1 = ts_exec s"
  shows "ts_exec s2 t = None"
proof -
  have "t \<notin> (\<Union>d \<in> set (t_dependencies (g t)). insert d (deps_of g d))"
    using not_self_dep [OF assms(1), of t] by (subst (asm) deps_of_unfold)
  with adds_dom(2) [OF assms(3)] assms(2,4) show ?thesis by auto
qed

lemma adds_grows:
  assumes wf: "wf (dep_rel g)"
  shows "adds g c t s s' ds \<Longrightarrow> grows s s'"
    and "adds_list g c self ds' acc s s' deps \<Longrightarrow> grows s s'"
proof (induction rule: adds_adds_list.inducts)
  case (fresh s t c s2 deps)
  from wf fresh(1,2) have "ts_exec s2 t = None"
    by (rule adds_fresh_stays) simp
  with fresh(3) show ?case
    by (blast intro: grows_trans grows_next grows_store)
next
  case (cons c d s s1 ddeps self ds acc s2 deps)
  from cons(1) have "d \<in> dom (ts_exec s1)" by (rule adds_member)
  then have "grows s1 (add_dependent d self s1)" by (rule grows_add_dependent)
  with cons(2,4) show ?case by (blast intro: grows_trans)
qed auto

section \<open>The stored dependencies are the transitive ones\<close>

definition closed_set :: "(tid \<Rightarrow> 'w task) \<Rightarrow> task_set \<Rightarrow> bool" where
  "closed_set g s \<longleftrightarrow> (\<forall>t e. ts_exec s t = Some e \<longrightarrow>
     set (ex_dependencies e) = deps_of g t \<and> deps_of g t \<subseteq> dom (ts_exec s))"

lemma closed_set_empty [simp]: "closed_set g (empty_task_set n)"
  by (simp add: closed_set_def empty_task_set_def)

lemma closed_set_next [simp]: "closed_set g (s\<lparr>ts_next := k\<rparr>) = closed_set g s"
  by (simp add: closed_set_def)

lemma closed_set_add_dependent:
  assumes d: "d \<in> dom (ts_exec s)" and cl: "closed_set g s"
  shows "closed_set g (add_dependent d self s)"
  unfolding closed_set_def
proof (intro allI impI)
  fix t e assume "ts_exec (add_dependent d self s) t = Some e"
  then obtain e' where "ts_exec s t = Some e'" and "ex_dependencies e = ex_dependencies e'"
    using d by (auto simp: add_dependent_def upd_exec_def split: if_splits)
  with cl d show "set (ex_dependencies e) = deps_of g t \<and>
      deps_of g t \<subseteq> dom (ts_exec (add_dependent d self s))"
    by (simp add: closed_set_def)
qed

lemma closed_set_store:
  assumes cl: "closed_set g s" and deps: "set deps = deps_of g t"
    and sub: "deps_of g t \<subseteq> dom (ts_exec s)"
  shows "closed_set g (s\<lparr>ts_exec := (ts_exec s)(t \<mapsto> new_execution c deps)\<rparr>)"
  unfolding closed_set_def
proof (intro allI impI)
  fix x e assume "ts_exec (s\<lparr>ts_exec := (ts_exec s)(t \<mapsto> new_execution c deps)\<rparr>) x = Some e"
  then have "if x = t then ex_dependencies e = deps else ts_exec s x = Some e"
    by (auto simp: new_execution_def split: if_splits)
  then have "set (ex_dependencies e) = deps_of g x \<and> deps_of g x \<subseteq> dom (ts_exec s)"
    using cl deps sub by (simp add: closed_set_def split: if_splits)
  then show "set (ex_dependencies e) = deps_of g x \<and>
      deps_of g x \<subseteq> dom (ts_exec (s\<lparr>ts_exec := (ts_exec s)(t \<mapsto> new_execution c deps)\<rparr>))"
    by (simp add: subset_insertI2)
qed

lemma adds_dom_mono:
  "adds g c t s s' ds \<Longrightarrow> dom (ts_exec s) \<subseteq> dom (ts_exec s')"
  "adds_list g c self ds' acc s s' deps \<Longrightarrow>
     dom (ts_exec s) \<union> set ds' \<subseteq> dom (ts_exec s')"
proof (induction rule: adds_adds_list.inducts)
  case (cons c d s s1 ddeps self ds acc s2 deps)
  from cons(1) have "d \<in> dom (ts_exec s1)" by (rule adds_member)
  with cons(2,4) show ?case by auto
qed auto

lemma adds_closed:
  "adds g c t s s' ds \<Longrightarrow> closed_set g s \<longrightarrow> closed_set g s' \<and> set ds = deps_of g t"
  "adds_list g c self ds' acc s s' deps \<Longrightarrow> closed_set g s \<longrightarrow> closed_set g s' \<and>
     set deps = set acc \<union> (\<Union>d \<in> set ds'. insert d (deps_of g d))"
proof (induction rule: adds_adds_list.inducts)
  case (present s t e c)
  then show ?case by (auto simp: closed_set_def)
next
  case (fresh s t c s2 deps)
  show ?case
  proof
    assume "closed_set g s"
    with fresh(3) have cl: "closed_set g s2" and deps: "set deps = deps_of g t"
      by (auto simp: deps_of_unfold [of g t])
    from adds_dom_mono(2) [OF fresh(2)]
    have "deps_of g d \<subseteq> dom (ts_exec s2) \<and> d \<in> dom (ts_exec s2)"
      if "d \<in> set (t_dependencies (g t))" for d
      using cl that unfolding closed_set_def by blast
    then have "deps_of g t \<subseteq> dom (ts_exec s2)"
      by (subst deps_of_unfold) auto
    with cl deps show "closed_set g (s2\<lparr>ts_exec := (ts_exec s2)
        (t \<mapsto> new_execution (ts_next s # c) deps)\<rparr>) \<and> set deps = deps_of g t"
      by (simp add: closed_set_store)
  qed
next
  case (cons c d s s1 ddeps self ds acc s2 deps)
  from cons(1) have "d \<in> dom (ts_exec s1)" by (rule adds_member)
  with cons(2,4) show ?case by (auto simp: closed_set_add_dependent)
qed auto

section \<open>The nodes a call creates\<close>

text \<open>The nodes between two states, and what holds of them before any task runs.\<close>

definition new_nodes :: "task_set \<Rightarrow> task_set \<Rightarrow> tid set" where
  "new_nodes s s' = dom (ts_exec s') - dom (ts_exec s)"

definition node_ctx :: "task_set \<Rightarrow> tid \<Rightarrow> ctx" where
  "node_ctx s t = ex_ctx (exec_of (ts_exec s) t)"

definition idle_node :: "execution \<Rightarrow> bool" where
  "idle_node e \<longleftrightarrow> ex_state e = St_invalid \<and> ex_terminal e = 0 \<and> ex_pending e = {}"

text \<open>
  A node's context extends the context the call was given, by identities taken from the
  range the call uses up, each of which is the own identity of a node that is the node
  itself or depends on it. No two nodes own the same identity.
\<close>

definition owned :: "(tid \<Rightarrow> 'w task) \<Rightarrow> task_set \<Rightarrow> tid set \<Rightarrow> tid \<Rightarrow> nat \<Rightarrow> bool" where
  "owned g s N x i \<longleftrightarrow> (\<exists>y \<in> N. (x = y \<or> x \<in> deps_of g y) \<and> hd (node_ctx s y) = i)"

definition ctx_node ::
  "(tid \<Rightarrow> 'w task) \<Rightarrow> ctx \<Rightarrow> nat \<Rightarrow> task_set \<Rightarrow> tid set \<Rightarrow> tid \<Rightarrow> bool" where
  "ctx_node g c lo s N x \<longleftrightarrow> (\<exists>pre. pre \<noteq> [] \<and> node_ctx s x = pre @ c \<and>
     (\<forall>i \<in> set pre. lo \<le> i \<and> i < ts_next s \<and> owned g s N x i))"

definition ctx_tree :: "(tid \<Rightarrow> 'w task) \<Rightarrow> ctx \<Rightarrow> task_set \<Rightarrow> task_set \<Rightarrow> bool" where
  "ctx_tree g c s s' \<longleftrightarrow>
     (\<forall>x \<in> new_nodes s s'. ctx_node g c (ts_next s) s' (new_nodes s s') x) \<and>
     inj_on (\<lambda>x. hd (node_ctx s' x)) (new_nodes s s')"

lemma ctx_tree_refl [simp]: "ctx_tree g c s s"
  by (simp add: ctx_tree_def new_nodes_def)

lemma ctx_treeD: "ctx_tree g c s s' \<Longrightarrow> x \<in> new_nodes s s' \<Longrightarrow>
    ctx_node g c (ts_next s) s' (new_nodes s s') x"
  by (simp add: ctx_tree_def)

lemma ctx_tree_range:
  assumes "ctx_tree g c s s'" and "x \<in> new_nodes s s'"
  shows "ts_next s \<le> hd (node_ctx s' x) \<and> hd (node_ctx s' x) < ts_next s'"
proof -
  from ctx_treeD [OF assms] obtain pre where "pre \<noteq> []" "node_ctx s' x = pre @ c"
    "\<forall>i \<in> set pre. ts_next s \<le> i \<and> i < ts_next s'"
    unfolding ctx_node_def by blast
  then show ?thesis by simp
qed

lemma owned_mono:
  assumes "owned g s N x i" and "N \<subseteq> M" and "\<And>y. y \<in> N \<Longrightarrow> node_ctx s' y = node_ctx s y"
  shows "owned g s' M x i"
proof -
  from assms(1) obtain y where "y \<in> N" "x = y \<or> x \<in> deps_of g y" "hd (node_ctx s y) = i"
    unfolding owned_def by blast
  with assms(2,3) show ?thesis unfolding owned_def by (intro bexI [of _ y]) auto
qed

lemma ctx_node_mono:
  assumes "ctx_node g c lo s N x" and "x \<in> N" and "N \<subseteq> M" and "lo' \<le> lo"
    and "ts_next s \<le> ts_next s'" and "\<And>y. y \<in> N \<Longrightarrow> node_ctx s' y = node_ctx s y"
  shows "ctx_node g c lo' s' M x"
proof -
  from assms(1) obtain pre where pre: "pre \<noteq> []" "node_ctx s x = pre @ c"
    and ids: "\<forall>i \<in> set pre. lo \<le> i \<and> i < ts_next s \<and> owned g s N x i"
    unfolding ctx_node_def by blast
  have "lo' \<le> i \<and> i < ts_next s' \<and> owned g s' M x i" if "i \<in> set pre" for i
    using ids that owned_mono [OF _ assms(3,6)] assms(4,5) by (meson order_less_le_trans order_trans)
  with pre assms(2,6) show ?thesis unfolding ctx_node_def by auto
qed

lemma node_ctx_add_dependent [simp]: "node_ctx (add_dependent d self s) x = node_ctx s x"
  by (simp add: node_ctx_def add_dependent_def)

lemma node_ctx_next [simp]: "node_ctx (s\<lparr>ts_next := k\<rparr>) x = node_ctx s x"
  by (simp add: node_ctx_def)

lemma new_nodes_next [simp]: "new_nodes (s\<lparr>ts_next := k\<rparr>) s' = new_nodes s s'"
  by (simp add: new_nodes_def)

lemma grows_node_ctx: "grows s s' \<Longrightarrow> x \<in> new_nodes r s \<Longrightarrow> node_ctx s' x = node_ctx s x"
  by (simp add: node_ctx_def new_nodes_def grows_ctx)

lemma new_nodes_trans:
  "grows s s1 \<Longrightarrow> grows s1 s2 \<Longrightarrow> new_nodes s s2 = new_nodes s s1 \<union> new_nodes s1 s2"
  unfolding new_nodes_def using grows_dom [of s s1] grows_dom [of s1 s2] by blast

lemma ctx_tree_trans:
  assumes t1: "ctx_tree g c s s1" and t2: "ctx_tree g c s1 s2"
    and g1: "grows s s1" and g2: "grows s1 s2"
  shows "ctx_tree g c s s2"
proof -
  note split = new_nodes_trans [OF g1 g2]
  note old = grows_node_ctx [OF g2]
  have next1: "ts_next s \<le> ts_next s1" and next2: "ts_next s1 \<le> ts_next s2"
    using g1 g2 by (simp_all add: grows_def)
  have "ctx_node g c (ts_next s) s2 (new_nodes s s2) x" if "x \<in> new_nodes s s1" for x
    using ctx_node_mono [OF ctx_treeD [OF t1 that] that, of "new_nodes s s2"] split next2 old
    by blast
  moreover have "ctx_node g c (ts_next s) s2 (new_nodes s s2) x" if "x \<in> new_nodes s1 s2" for x
    using ctx_node_mono [OF ctx_treeD [OF t2 that] that, of "new_nodes s s2"] split next1 by blast
  moreover have "inj_on (\<lambda>x. hd (node_ctx s2 x)) (new_nodes s s1 \<union> new_nodes s1 s2)"
    unfolding inj_on_Un
  proof (intro conjI)
    show "inj_on (\<lambda>x. hd (node_ctx s2 x)) (new_nodes s s1)"
      using t1 old unfolding ctx_tree_def by (simp add: inj_on_def)
    show "inj_on (\<lambda>x. hd (node_ctx s2 x)) (new_nodes s1 s2)"
      using t2 unfolding ctx_tree_def by blast
    have "hd (node_ctx s2 x) < ts_next s1" if "x \<in> new_nodes s s1" for x
      using ctx_tree_range [OF t1 that] old that by simp
    moreover have "ts_next s1 \<le> hd (node_ctx s2 x)" if "x \<in> new_nodes s1 s2" for x
      using ctx_tree_range [OF t2 that] by simp
    ultimately show "(\<lambda>x. hd (node_ctx s2 x)) ` (new_nodes s s1 - new_nodes s1 s2) \<inter>
        (\<lambda>x. hd (node_ctx s2 x)) ` (new_nodes s1 s2 - new_nodes s s1) = {}"
      by (rule separated_images)
  qed
  ultimately show ?thesis unfolding ctx_tree_def split by blast
qed

text \<open>The call that creates the node \<open>t\<close>: the calls for its dependencies, then the store.\<close>

lemma ctx_tree_store:
  assumes tree: "ctx_tree g (ts_next s # c) (s\<lparr>ts_next := Suc (ts_next s)\<rparr>) s2"
    and t: "ts_exec s2 t = None"
    and below: "new_nodes s s2 \<subseteq> deps_of g t"
    and grow: "grows (s\<lparr>ts_next := Suc (ts_next s)\<rparr>) s2"
  shows "ctx_tree g c s (s2\<lparr>ts_exec := (ts_exec s2)(t \<mapsto> new_execution (ts_next s # c) deps)\<rparr>)"
    (is "ctx_tree g c s ?s'")
proof -
  let ?N = "new_nodes s s2"
  have t_s: "t \<notin> dom (ts_exec s)" and t_N: "t \<notin> ?N"
    using grows_dom [OF grow] t by (auto simp: new_nodes_def)
  have new: "new_nodes s ?s' = insert t ?N"
    using t_s by (auto simp: new_nodes_def)
  have ctx_t: "node_ctx ?s' t = ts_next s # c"
    by (simp add: node_ctx_def new_execution_def)
  have ctx_x: "node_ctx ?s' x = node_ctx s2 x" if "x \<in> ?N" for x
    using that t_N by (auto simp: node_ctx_def)
  have nxt: "Suc (ts_next s) \<le> ts_next s2"
    using grow by (simp add: grows_def)
  have own_t: "owned g ?s' (insert t ?N) x (ts_next s)" if "x = t \<or> x \<in> deps_of g t" for x
    using that ctx_t unfolding owned_def by (intro bexI [of _ t]) auto
  have "ctx_node g c (ts_next s) ?s' (insert t ?N) t"
    unfolding ctx_node_def using ctx_t own_t [of t] nxt by (intro exI [of _ "[ts_next s]"]) simp
  moreover have "ctx_node g c (ts_next s) ?s' (insert t ?N) x" if x: "x \<in> ?N" for x
  proof -
    from x tree have "ctx_node g (ts_next s # c) (Suc (ts_next s)) s2 ?N x"
      by (auto dest: ctx_treeD)
    then obtain pre where pre: "node_ctx s2 x = pre @ ts_next s # c"
      and ids: "\<forall>i \<in> set pre. Suc (ts_next s) \<le> i \<and> i < ts_next s2 \<and> owned g s2 ?N x i"
      unfolding ctx_node_def by blast
    have "owned g ?s' (insert t ?N) x i" if "i \<in> set pre" for i
      using owned_mono [of g s2 ?N x i "insert t ?N" ?s'] ids that ctx_x by blast
    moreover have "owned g ?s' (insert t ?N) x (ts_next s)"
      using x below by (intro own_t) blast
    ultimately show ?thesis
      unfolding ctx_node_def using pre ids nxt ctx_x [OF x]
      by (intro exI [of _ "pre @ [ts_next s]"]) (auto dest: Suc_leD)
  qed
  moreover have "inj_on (\<lambda>x. hd (node_ctx ?s' x)) (insert t ?N)"
    unfolding inj_on_insert
  proof
    show "inj_on (\<lambda>x. hd (node_ctx ?s' x)) ?N"
      using tree ctx_x unfolding ctx_tree_def by (simp add: inj_on_def)
    have "ts_next s < hd (node_ctx ?s' x)" if "x \<in> ?N" for x
      using ctx_tree_range [OF tree, of x] that ctx_x by simp
    then show "hd (node_ctx ?s' t) \<notin> (\<lambda>x. hd (node_ctx ?s' x)) ` (?N - {t})"
      using ctx_t by fastforce
  qed
  ultimately show ?thesis unfolding ctx_tree_def new by simp
qed

lemma new_nodes_add_dependent [simp]:
  "d \<in> dom (ts_exec s1) \<Longrightarrow> new_nodes s (add_dependent d self s1) = new_nodes s s1"
  "d \<in> dom (ts_exec s1) \<Longrightarrow> new_nodes (add_dependent d self s1) s2 = new_nodes s1 s2"
  by (simp_all add: new_nodes_def)

lemma ts_next_add_dependent [simp]: "ts_next (add_dependent d self s) = ts_next s"
  by (simp add: add_dependent_def)

lemma adds_ctx_tree:
  assumes wf: "wf (dep_rel g)"
  shows "adds g c t s s' ds \<Longrightarrow> ctx_tree g c s s'"
    and "adds_list g c self ds' acc s s' deps \<Longrightarrow> ctx_tree g c s s'"
proof (induction rule: adds_adds_list.inducts)
  case (fresh s t c s2 deps)
  from wf fresh(1,2) have none: "ts_exec s2 t = None"
    by (rule adds_fresh_stays) simp
  have "new_nodes s s2 \<subseteq> deps_of g t"
    using adds_dom(2) [OF fresh(2)] by (subst deps_of_unfold) (auto simp: new_nodes_def)
  from ctx_tree_store [OF fresh(3) none this adds_grows(2) [OF wf fresh(2)]]
  show ?case .
next
  case (cons c d s s1 ddeps self ds acc s2 deps)
  from cons(1) have d: "d \<in> dom (ts_exec s1)" by (rule adds_member)
  have "ctx_tree g c s1 s2"
    using cons(4) d by (simp add: ctx_tree_def)
  with cons(2) adds_grows(1) [OF wf cons(1)]
    grows_trans [OF grows_add_dependent [OF d] adds_grows(2) [OF wf cons(3)]]
  show ?case by (blast intro: ctx_tree_trans)
qed auto

text \<open>Every node a call creates is in its initial state.\<close>

definition all_idle :: "task_set \<Rightarrow> bool" where
  "all_idle s \<longleftrightarrow> (\<forall>x e. ts_exec s x = Some e \<longrightarrow> idle_node e)"

lemma all_idle_next [simp]: "all_idle (s\<lparr>ts_next := k\<rparr>) = all_idle s"
  by (simp add: all_idle_def)

lemma all_idle_store:
  "all_idle s \<Longrightarrow> all_idle (s\<lparr>ts_exec := (ts_exec s)(t \<mapsto> new_execution c deps)\<rparr>)"
  by (simp add: all_idle_def idle_node_def new_execution_def)

lemma all_idle_add_dependent:
  assumes "d \<in> dom (ts_exec s)" and "all_idle s"
  shows "all_idle (add_dependent d self s)"
  using assms by (auto simp: all_idle_def idle_node_def add_dependent_def upd_exec_def)

lemma adds_all_idle:
  "adds g c t s s' ds \<Longrightarrow> all_idle s \<longrightarrow> all_idle s'"
  "adds_list g c self ds' acc s s' deps \<Longrightarrow> all_idle s \<longrightarrow> all_idle s'"
proof (induction rule: adds_adds_list.inducts)
  case (cons c d s s1 ddeps self ds acc s2 deps)
  from cons(1) have "d \<in> dom (ts_exec s1)" by (rule adds_member)
  with cons(2,4) show ?case by (simp add: all_idle_add_dependent)
qed (simp_all add: all_idle_store)

section \<open>The reverse edges\<close>

text \<open>How often \<open>y\<close> is listed as a dependent of \<open>x\<close>.\<close>

definition dcount :: "task_set \<Rightarrow> tid \<Rightarrow> tid \<Rightarrow> nat" where
  "dcount s x y =
     (case ts_exec s x of None \<Rightarrow> 0 | Some e \<Rightarrow> count_list (ex_dependents e) y)"

lemma dcount_next [simp]: "dcount (s\<lparr>ts_next := k\<rparr>) = dcount s"
  by (simp add: dcount_def fun_eq_iff)

lemma dcount_absent: "x \<notin> dom (ts_exec s) \<Longrightarrow> dcount s x y = 0"
  by (simp add: dcount_def domIff)

lemma dcount_add_dependent:
  "d \<in> dom (ts_exec s) \<Longrightarrow>
     dcount (add_dependent d self s) x y = dcount s x y + (if x = d \<and> y = self then 1 else 0)"
  by (auto simp: dcount_def add_dependent_def upd_exec_def)

lemma dcount_store:
  "dcount (s\<lparr>ts_exec := (ts_exec s)(t \<mapsto> new_execution c deps)\<rparr>) x y =
     (if x = t then 0 else dcount s x y)"
  by (simp add: dcount_def new_execution_def)

definition edge_count :: "(tid \<Rightarrow> 'w task) \<Rightarrow> tid set \<Rightarrow> tid \<Rightarrow> tid \<Rightarrow> nat" where
  "edge_count g N x y = (if y \<in> N then count_list (t_dependencies (g y)) x else 0)"

lemma edge_count_Un:
  "N \<inter> M = {} \<Longrightarrow> edge_count g (N \<union> M) x y = edge_count g N x y + edge_count g M x y"
  by (auto simp: edge_count_def)

lemma edge_count_absent:
  assumes "closed_set g s" and "N \<subseteq> dom (ts_exec s)" and "x \<notin> dom (ts_exec s)"
  shows "edge_count g N x y = 0"
proof -
  have "x \<notin> set (t_dependencies (g y))" if "y \<in> N"
    using assms that deps_of_direct [of x g y] unfolding closed_set_def by blast
  then show ?thesis by (simp add: edge_count_def)
qed

lemma adds_dcount:
  assumes wf: "wf (dep_rel g)"
  shows "adds g c t s s' ds \<Longrightarrow> closed_set g s \<longrightarrow> (\<forall>x \<in> dom (ts_exec s'). \<forall>y.
      dcount s' x y = dcount s x y + edge_count g (new_nodes s s') x y)"
    and "adds_list g c self ds' acc s s' deps \<Longrightarrow> closed_set g s \<longrightarrow> (\<forall>x \<in> dom (ts_exec s'). \<forall>y.
      dcount s' x y = dcount s x y + edge_count g (new_nodes s s') x y +
        (if y = self then count_list ds' x else 0))"
proof (induction rule: adds_adds_list.inducts)
  case (fresh s t c s2 deps)
  let ?s' = "s2\<lparr>ts_exec := (ts_exec s2)(t \<mapsto> new_execution (ts_next s # c) deps)\<rparr>"
  show ?case
  proof (intro impI ballI allI)
    fix x y assume cl: "closed_set g s" and x: "x \<in> dom (ts_exec ?s')"
    from wf fresh(1,2) have none: "ts_exec s2 t = None"
      by (rule adds_fresh_stays) simp
    have new: "new_nodes s ?s' = insert t (new_nodes s s2)" and t: "t \<notin> new_nodes s s2"
      using fresh(1) none by (auto simp: new_nodes_def)
    have below: "new_nodes s s2 \<subseteq> deps_of g t"
      using adds_dom(2) [OF fresh(2)] by (subst deps_of_unfold) (auto simp: new_nodes_def)
    show "dcount ?s' x y = dcount s x y + edge_count g (new_nodes s ?s') x y"
    proof (cases "x = t")
      case True
      have "t \<notin> set (t_dependencies (g y))" if "y \<in> insert t (new_nodes s s2)"
        using that below deps_of_direct [of t g y] deps_of_trans [of y g t] not_self_dep [OF wf]
        by blast
      then show ?thesis
        using True new fresh(1) by (simp add: dcount_store edge_count_def dcount_absent domIff)
    next
      case False
      with x have "x \<in> dom (ts_exec s2)" by simp
      with fresh(3) cl have "dcount s2 x y = dcount s x y + edge_count g (new_nodes s s2) x y +
          (if y = t then count_list (t_dependencies (g t)) x else 0)"
        by simp
      with False new t show ?thesis by (simp add: dcount_store edge_count_def)
    qed
  qed
next
  case (cons c d s s1 ddeps self ds acc s2 deps)
  from cons(1) have d: "d \<in> dom (ts_exec s1)" by (rule adds_member)
  note g1 = adds_grows(1) [OF wf cons(1)]
  note g2 = grows_trans [OF grows_add_dependent [OF d] adds_grows(2) [OF wf cons(3)]]
  show ?case
  proof (intro impI ballI allI)
    fix x y assume cl: "closed_set g s" and x: "x \<in> dom (ts_exec s2)"
    with adds_closed(1) [OF cons(1)] have cl1: "closed_set g s1" by blast
    have "dcount s2 x y = dcount s1 x y + (if x = d \<and> y = self then 1 else 0)
        + edge_count g (new_nodes s1 s2) x y + (if y = self then count_list ds x else 0)"
      using cons(4) x d cl1 by (simp add: closed_set_add_dependent dcount_add_dependent)
    moreover have "dcount s1 x y = dcount s x y + edge_count g (new_nodes s s1) x y"
    proof (cases "x \<in> dom (ts_exec s1)")
      case True
      with cons(2) cl show ?thesis by blast
    next
      case False
      then have "x \<notin> dom (ts_exec s)" using grows_dom [OF g1] by blast
      moreover have "edge_count g (new_nodes s s1) x y = 0"
        using False by (intro edge_count_absent [OF cl1]) (auto simp: new_nodes_def)
      ultimately show ?thesis using False by (simp add: dcount_absent)
    qed
    moreover have "edge_count g (new_nodes s s2) x y =
        edge_count g (new_nodes s s1) x y + edge_count g (new_nodes s1 s2) x y"
      unfolding new_nodes_trans [OF g1 g2] by (rule edge_count_Un) (auto simp: new_nodes_def)
    ultimately show "dcount s2 x y = dcount s x y + edge_count g (new_nodes s s2) x y +
        (if y = self then count_list (d # ds) x else 0)"
      by simp
  qed
qed (simp_all add: new_nodes_def edge_count_def)

section \<open>When the recursion returns\<close>

lemma dom_store:
  "dom (ts_exec (s\<lparr>ts_exec := (ts_exec s)(t \<mapsto> e)\<rparr>)) = insert t (dom (ts_exec s))"
  by simp

lemma adds_acc:
  "adds g c t s s' ds \<Longrightarrow> dom (ts_exec s) \<subseteq> Wellfounded.acc (dep_rel g) \<longrightarrow>
     dom (ts_exec s') \<subseteq> Wellfounded.acc (dep_rel g)"
  "adds_list g c self ds' acc s s' deps \<Longrightarrow> dom (ts_exec s) \<subseteq> Wellfounded.acc (dep_rel g) \<longrightarrow>
     dom (ts_exec s') \<subseteq> Wellfounded.acc (dep_rel g)"
proof (induction rule: adds_adds_list.inducts)
  case (fresh s t c s2 deps)
  have sub: "set (t_dependencies (g t)) \<subseteq> dom (ts_exec s2)"
    using adds_dom_mono(2) [OF fresh(2)] by simp
  have "t \<in> Wellfounded.acc (dep_rel g)" if "dom (ts_exec s2) \<subseteq> Wellfounded.acc (dep_rel g)"
  proof (rule accI)
    fix d assume "(d, t) \<in> dep_rel g"
    then have "d \<in> set (t_dependencies (g t))" by simp
    with sub that show "d \<in> Wellfounded.acc (dep_rel g)" by blast
  qed
  moreover have "dom (ts_exec s) \<subseteq> Wellfounded.acc (dep_rel g) \<longrightarrow>
      dom (ts_exec s2) \<subseteq> Wellfounded.acc (dep_rel g)"
    using fresh(3) by simp
  ultimately show ?case unfolding dom_store by blast
next
  case (cons c d s s1 ddeps self ds acc s2 deps)
  from cons(1) have "d \<in> dom (ts_exec s1)" by (rule adds_member)
  with cons(2,4) show ?case by simp
qed auto

lemma add_deps_mono:
  assumes "\<And>c t s r. add c t s = Some r \<Longrightarrow> add' c t s = Some r"
  shows "add_deps add c self ds acc s = Some r \<Longrightarrow> add_deps add' c self ds acc s = Some r"
proof (induction ds arbitrary: acc s)
  case Nil
  then show ?case by simp
next
  case (Cons d ds)
  then obtain s1 dd where first: "add c d s = Some (s1, dd)"
    and rest: "add_deps add c self ds (acc @ dd @ [d]) (add_dependent d self s1) = Some r"
    by (auto split: option.splits)
  from assms [OF first] Cons.IH [OF rest] show ?case by simp
qed

lemma add_task_mono: "add_task n g c t s = Some r \<Longrightarrow> n \<le> m \<Longrightarrow> add_task m g c t s = Some r"
proof (induction n arbitrary: c t s r m)
  case 0
  then show ?case by simp
next
  case (Suc n)
  then obtain k where m: "m = Suc k" "n \<le> k" by (cases m) auto
  have "add_deps (add_task k g) c' t' ds acc s' = Some r'"
    if "add_deps (add_task n g) c' t' ds acc s' = Some r'" for c' t' ds acc s' r'
    using Suc.IH [OF _ m(2)] that by (rule add_deps_mono)
  with Suc.prems(1) show ?case
    unfolding m by (fastforce simp: with_cancel_def split: option.splits)
qed

lemma add_deps_total:
  assumes "\<forall>d \<in> set ds. \<forall>c s. add c d s \<noteq> None"
  shows "add_deps add c self ds acc s \<noteq> None"
  using assms
proof (induction ds arbitrary: acc s)
  case Nil
  then show ?case by simp
next
  case (Cons d ds)
  from Cons.prems obtain s1 dd where "add c d s = Some (s1, dd)" by fastforce
  with Cons show ?case by simp
qed

lemma add_task_total:
  assumes "t \<in> Wellfounded.acc (dep_rel g)"
  shows "\<exists>n. \<forall>c s. add_task n g c t s \<noteq> None"
  using assms
proof (induction rule: acc.induct)
  case (accI t)
  then obtain f where f: "\<forall>d \<in> set (t_dependencies (g t)). \<forall>c s. add_task (f d) g c d s \<noteq> None"
    by (metis dep_rel_iff)
  define n where "n = Max (insert 0 (f ` set (t_dependencies (g t))))"
  have "add_task n g c d s \<noteq> None" if "d \<in> set (t_dependencies (g t))" for c d s
  proof -
    have "f d \<le> n" using that by (simp add: n_def)
    moreover from f that have "add_task (f d) g c d s \<noteq> None" by blast
    then obtain r where "add_task (f d) g c d s = Some r" by blast
    ultimately show ?thesis by (auto dest: add_task_mono)
  qed
  then have "add_deps (add_task n g) c t (t_dependencies (g t)) [] s \<noteq> None" for c s
    by (intro add_deps_total) blast
  then have "add_task (Suc n) g c t s \<noteq> None" for c s
    by (auto simp del: not_None_eq simp: with_cancel_def split: option.splits)
  then show ?case by blast
qed

lemma add_task_returns:
  "(\<exists>n r. add_task n g c t s = Some r) \<longleftrightarrow> t \<in> Wellfounded.acc (dep_rel g)"
  if "dom (ts_exec s) \<subseteq> Wellfounded.acc (dep_rel g)"
proof
  assume "\<exists>n r. add_task n g c t s = Some r"
  then obtain s' ds where "adds g c t s s' ds"
    by (auto dest: add_task_adds)
  then show "t \<in> Wellfounded.acc (dep_rel g)"
    using adds_member adds_acc(1) that by blast
next
  assume "t \<in> Wellfounded.acc (dep_rel g)"
  then obtain n where "add_task n g c t s \<noteq> None" using add_task_total by blast
  then show "\<exists>n r. add_task n g c t s = Some r" by blast
qed

section \<open>The set of one run\<close>

lemma empty_task_set_simps [simp]:
  "ts_exec (empty_task_set n) = Map.empty" "ts_next (empty_task_set n) = n"
  "ts_cancelled (empty_task_set n) = {}"
  by (simp_all add: empty_task_set_def)

definition names_closure :: "(tid \<Rightarrow> 'w task) \<Rightarrow> (string \<rightharpoonup> tid) \<Rightarrow> string list \<Rightarrow> tid set" where
  "names_closure g reg names =
     (\<Union>name \<in> set names. insert (the (reg name)) (deps_of g (the (reg name))))"

lemma names_closure_Cons:
  "reg name = Some t \<Longrightarrow>
     names_closure g reg (name # names) = insert t (deps_of g t) \<union> names_closure g reg names"
  by (simp add: names_closure_def)

text \<open>Everything the loop over the names keeps, in one induction.\<close>

definition built :: "(tid \<Rightarrow> 'w task) \<Rightarrow> ctx \<Rightarrow> task_set \<Rightarrow> task_set \<Rightarrow> bool" where
  "built g c s s' \<longleftrightarrow> closed_set g s' \<and> all_idle s' \<and> grows s s' \<and> ctx_tree g c s s' \<and>
     (\<forall>x \<in> dom (ts_exec s'). \<forall>y. dcount s' x y = dcount s x y + edge_count g (new_nodes s s') x y)"

lemma builtD:
  assumes "built g c s s'"
  shows "closed_set g s'" "all_idle s'" "grows s s'" "ctx_tree g c s s'"
    "x \<in> dom (ts_exec s') \<Longrightarrow> dcount s' x y = dcount s x y + edge_count g (new_nodes s s') x y"
  using assms unfolding built_def by blast+

lemma built_refl: "closed_set g s \<Longrightarrow> all_idle s \<Longrightarrow> built g c s s"
  by (simp add: built_def edge_count_def new_nodes_def)

lemma built_add:
  assumes "wf (dep_rel g)" and "add_task n g c t s = Some (s', ds)"
    and "closed_set g s" and "all_idle s"
  shows "built g c s s'"
proof -
  from assms(2) have a: "adds g c t s s' ds" by (rule add_task_adds)
  show ?thesis
    unfolding built_def
    using adds_closed(1) [OF a] adds_all_idle(1) [OF a] adds_grows(1) [OF assms(1) a]
      adds_ctx_tree(1) [OF assms(1) a] adds_dcount(1) [OF assms(1) a] assms(3,4)
    by blast
qed

lemma built_trans:
  assumes b1: "built g c s s1" and b2: "built g c s1 s2"
  shows "built g c s s2"
proof -
  note g1 = builtD(3) [OF b1] and g2 = builtD(3) [OF b2]
  have "dcount s2 x y = dcount s x y + edge_count g (new_nodes s s2) x y"
    if x: "x \<in> dom (ts_exec s2)" for x y
  proof -
    have "dcount s1 x y = dcount s x y + edge_count g (new_nodes s s1) x y"
    proof (cases "x \<in> dom (ts_exec s1)")
      case True
      then show ?thesis by (rule builtD(5) [OF b1])
    next
      case False
      moreover from this have "x \<notin> dom (ts_exec s)" using grows_dom [OF g1] by blast
      moreover have "edge_count g (new_nodes s s1) x y = 0"
        using False by (intro edge_count_absent [OF builtD(1) [OF b1]]) (auto simp: new_nodes_def)
      ultimately show ?thesis by (simp add: dcount_absent)
    qed
    moreover have "edge_count g (new_nodes s s2) x y =
        edge_count g (new_nodes s s1) x y + edge_count g (new_nodes s1 s2) x y"
      unfolding new_nodes_trans [OF g1 g2] by (rule edge_count_Un) (auto simp: new_nodes_def)
    ultimately show ?thesis using builtD(5) [OF b2 x] by simp
  qed
  then show ?thesis
    unfolding built_def
    using builtD(1,2) [OF b2] grows_trans [OF g1 g2]
      ctx_tree_trans [OF builtD(4) [OF b1] builtD(4) [OF b2] g1 g2]
    by blast
qed

lemma add_task_dom:
  assumes "add_task n g c t s = Some (s', ds)" and "closed_set g s"
  shows "dom (ts_exec s') = dom (ts_exec s) \<union> insert t (deps_of g t)"
proof -
  from assms(1) have a: "adds g c t s s' ds" by (rule add_task_adds)
  from adds_member [OF a] adds_closed(1) [OF a] assms(2)
  have "insert t (deps_of g t) \<subseteq> dom (ts_exec s')"
    unfolding closed_set_def by blast
  with adds_dom(1) [OF a] adds_dom_mono(1) [OF a] show ?thesis by blast
qed

lemma build_task_set_built:
  assumes "wf (dep_rel g)"
  shows "build_task_set n g reg c names s = Some (Inr s') \<Longrightarrow> closed_set g s \<Longrightarrow> all_idle s \<Longrightarrow>
    built g c s s' \<and> dom (ts_exec s') = dom (ts_exec s) \<union> names_closure g reg names"
proof (induction names arbitrary: s)
  case Nil
  then show ?case by (simp add: built_refl names_closure_def)
next
  case (Cons name names)
  from Cons.prems(1) obtain t s1 ds where t: "reg name = Some t"
    and s1: "add_task n g c t s = Some (s1, ds)"
    and rest: "build_task_set n g reg c names s1 = Some (Inr s')"
    by (auto split: option.splits)
  have b1: "built g c s s1" by (rule built_add [OF assms s1 Cons.prems(2,3)])
  from Cons.IH [OF rest builtD(1) [OF b1] builtD(2) [OF b1]]
  have b2: "built g c s1 s'"
    and dom: "dom (ts_exec s') = dom (ts_exec s1) \<union> names_closure g reg names"
    by simp_all
  from built_trans [OF b1 b2] dom add_task_dom [OF s1 Cons.prems(2)]
    names_closure_Cons [of reg name t g names] t
  show ?case by (simp add: Un_assoc)
qed

lemma all_idle_empty [simp]: "all_idle (empty_task_set n)"
  by (simp add: all_idle_def)

lemma rank_wf: "(\<And>t d. d \<in> set (t_dependencies (g t)) \<Longrightarrow> d < t) \<Longrightarrow> wf (dep_rel g)"
  by (rule wf_subset [of less_than]) (auto simp: dep_rel_def)

section \<open>Properties\<close>

text \<open>
  A diamond of tasks for the witnesses: 3 depends on 1 and 2, and both depend on 0.
\<close>

definition diamond :: "tid \<Rightarrow> unit task" where
  "diamond t = zero_task\<lparr>t_name := [char_of (65 + t)],
     t_dependencies := (if t = 3 then [1, 2] else if t = 1 \<or> t = 2 then [0] else [])\<rparr>"

definition diamond_reg :: "string \<rightharpoonup> tid" where
  "diamond_reg = [''A'' \<mapsto> 0, ''B'' \<mapsto> 1, ''C'' \<mapsto> 2, ''D'' \<mapsto> 3]"

lemma diamond_wf: "wf (dep_rel diamond)"
  by (rule rank_wf) (auto simp: diamond_def split: if_splits)

text \<open>
  C9. \<open>Executor.Run\<close> builds the graph it means to: on acyclic dependencies the set holds
  exactly the desired tasks and everything they depend on; a node stores the transitive
  dependencies of its task; every direct edge is stored reversed, with its multiplicity,
  in the node it points to; and every node is invalid, with no pending invalidation and
  nothing in its terminal channel.
\<close>

theorem build_task_set_correct:
  assumes "wf (dep_rel g)"
    and "build_task_set n g reg c names (empty_task_set k) = Some (Inr s)"
  shows "dom (ts_exec s) = names_closure g reg names \<and>
    (\<forall>t e. ts_exec s t = Some e \<longrightarrow>
       set (ex_dependencies e) = deps_of g t \<and> deps_of g t \<subseteq> dom (ts_exec s) \<and>
       (\<forall>y. count_list (ex_dependents e) y =
          (if y \<in> dom (ts_exec s) then count_list (t_dependencies (g y)) t else 0)) \<and>
       ex_state e = St_invalid \<and> ex_terminal e = 0 \<and> ex_pending e = {})"
proof -
  from build_task_set_built [OF assms] have b: "built g c (empty_task_set k) s"
    and dom: "dom (ts_exec s) = names_closure g reg names"
    by simp_all
  have "count_list (ex_dependents e) y =
      (if y \<in> dom (ts_exec s) then count_list (t_dependencies (g y)) t else 0)"
    if t: "ts_exec s t = Some e" for t e y
  proof -
    from t have "t \<in> dom (ts_exec s)" by blast
    from builtD(5) [OF b this, of y] t show ?thesis
      by (simp add: dcount_def edge_count_def new_nodes_def)
  qed
  with dom builtD(1,2) [OF b] show ?thesis
    by (simp add: closed_set_def all_idle_def idle_node_def)
qed

theorem build_task_set_correct_witness:
  "\<exists>s. build_task_set 4 diamond diamond_reg [0] [''D''] (empty_task_set 1) = Some (Inr s) \<and>
     dom (ts_exec s) = names_closure diamond diamond_reg [''D''] \<and> ts_exec s 0 \<noteq> None"
proof -
  have "\<exists>s. build_task_set 4 diamond diamond_reg [0] [''D''] (empty_task_set 1) = Some (Inr s) \<and>
      ts_exec s 0 \<noteq> None"
    by (simp add: eval_nat_numeral diamond_def diamond_reg_def with_cancel_def zero_task_def
        add_dependent_def upd_exec_def exec_of_def new_execution_def)
  then obtain s where s: "build_task_set 4 diamond diamond_reg [0] [''D''] (empty_task_set 1)
      = Some (Inr s)" "ts_exec s 0 \<noteq> None"
    by blast
  from build_task_set_correct [OF diamond_wf s(1)] s show ?thesis by blast
qed

text \<open>
  C10. \<open>taskSet.add\<close> returns exactly on the tasks without an infinite chain of
  dependencies: a cycle among the dependencies overflows the stack, and nothing else does.
\<close>

theorem add_task_returns_iff:
  "(\<exists>n r. add_task n g c t (empty_task_set k) = Some r) \<longleftrightarrow> t \<in> Wellfounded.acc (dep_rel g)"
  by (rule add_task_returns) simp

text \<open>
  The tree of contexts: the context of a node extends the context of the run by
  identities each of which is owned by exactly one node of the set, and that node is the
  node itself or one that depends on it. Hence cancelling the context of a task reaches
  only tasks it depends on.
\<close>

lemma build_contexts:
  assumes "wf (dep_rel g)"
    and "build_task_set n g reg c names (empty_task_set k) = Some (Inr s)"
    and "ts_exec s x = Some e"
  shows "\<exists>pre. pre \<noteq> [] \<and> ex_ctx e = pre @ c \<and>
    (\<forall>i \<in> set pre. k \<le> i \<and> i < ts_next s \<and>
       (\<exists>!y. y \<in> dom (ts_exec s) \<and> hd (node_ctx s y) = i) \<and>
       (\<exists>y \<in> dom (ts_exec s). (x = y \<or> x \<in> deps_of g y) \<and> hd (node_ctx s y) = i))"
proof -
  from build_task_set_built [OF assms(1,2)] have tree: "ctx_tree g c (empty_task_set k) s"
    by (simp add: built_def)
  have new: "new_nodes (empty_task_set k) s = dom (ts_exec s)"
    by (simp add: new_nodes_def)
  from assms(3) have x: "x \<in> dom (ts_exec s)" by blast
  with ctx_treeD [OF tree, of x] have "ctx_node g c k s (dom (ts_exec s)) x"
    unfolding new by simp
  then obtain pre where pre: "pre \<noteq> []" "node_ctx s x = pre @ c"
    and ids: "\<forall>i \<in> set pre. k \<le> i \<and> i < ts_next s \<and> owned g s (dom (ts_exec s)) x i"
    unfolding ctx_node_def by blast
  moreover have "\<exists>!y. y \<in> dom (ts_exec s) \<and> hd (node_ctx s y) = i" if "i \<in> set pre" for i
  proof -
    from ids that obtain y where y: "y \<in> dom (ts_exec s)" "hd (node_ctx s y) = i"
      unfolding owned_def by blast
    have "inj_on (\<lambda>x. hd (node_ctx s x)) (dom (ts_exec s))"
      using tree unfolding ctx_tree_def new by blast
    with y show ?thesis by (intro ex1I [of _ y]) (auto dest: inj_onD)
  qed
  moreover have "node_ctx s x = ex_ctx e" using assms(3) by (simp add: node_ctx_def)
  ultimately show ?thesis using ids pre unfolding owned_def by (intro exI [of _ pre]) simp
qed

lemma build_contexts_example:
  "\<exists>s e. build_task_set 4 diamond diamond_reg [0] [''D''] (empty_task_set 1) = Some (Inr s) \<and>
     ts_exec s 0 = Some e \<and> ex_ctx e = [3, 2, 1, 0] \<and>
     (\<exists>pre. pre \<noteq> [] \<and> ex_ctx e = pre @ [0])"
proof -
  have "\<exists>s e. build_task_set 4 diamond diamond_reg [0] [''D''] (empty_task_set 1) = Some (Inr s) \<and>
      ts_exec s 0 = Some e \<and> ex_ctx e = [3, 2, 1, 0]"
    by (simp add: eval_nat_numeral diamond_def diamond_reg_def with_cancel_def zero_task_def
        add_dependent_def upd_exec_def exec_of_def new_execution_def)
  then obtain s e where s: "build_task_set 4 diamond diamond_reg [0] [''D''] (empty_task_set 1)
      = Some (Inr s)" "ts_exec s 0 = Some e" "ex_ctx e = [3, 2, 1, 0]"
    by blast
  from build_contexts [OF diamond_wf s(1,2)] s show ?thesis by blast
qed

end
