(* ===== verification/TaskExecution.thy ===== *)
theory TaskExecution
  imports TaskSetBuild
begin

text \<open>
  The operations of a node (\<open>task_execution.go\<close>): \<open>ShouldExecute\<close>, \<open>Invalidate\<close>, which
  marks a node and its dependents, and \<open>invalidate\<close>, which stops a run and resets the
  node; and the handler that exposes a node (\<open>task_handler.go\<close>).
\<close>

abbreviation state_of :: "(tid \<rightharpoonup> execution) \<Rightarrow> tid \<Rightarrow> task_state" where
  "state_of m t \<equiv> ex_state (exec_of m t)"

section \<open>ShouldExecute\<close>

definition should_execute :: "(tid \<rightharpoonup> execution) \<Rightarrow> tid \<Rightarrow> bool" where
  "should_execute m t =
     (if state_of m t \<noteq> St_invalid then False
      else fold (\<lambda>d ready. if state_of m d \<noteq> St_done then False else ready)
             (ex_dependencies (exec_of m t)) True)"

lemma fold_ready:
  "fold (\<lambda>d ready. if P d then False else ready) ds b \<longleftrightarrow> b \<and> (\<forall>d \<in> set ds. \<not> P d)"
  by (induction ds arbitrary: b) auto

lemma should_execute_iff:
  "should_execute m t \<longleftrightarrow> state_of m t = St_invalid \<and>
     (\<forall>d \<in> set (ex_dependencies (exec_of m t)). state_of m d = St_done)"
  by (auto simp: should_execute_def fold_ready)

section \<open>Invalidate: marking a node and its dependents\<close>

text \<open>
  A node in state invalid, or whose task rejects the event, is left alone; otherwise the
  event becomes pending and every dependent is told that this task changed. The recursion
  follows the reverse edges; it has fuel as the construction has.
\<close>

fun mark_dependents ::
  "(tid \<Rightarrow> invalidation_event \<Rightarrow> (tid \<rightharpoonup> execution) \<Rightarrow> (bool \<times> (tid \<rightharpoonup> execution)) option)
    \<Rightarrow> tid \<Rightarrow> tid list \<Rightarrow> (tid \<rightharpoonup> execution) \<Rightarrow> (tid \<rightharpoonup> execution) option" where
  "mark_dependents inval self [] m = Some m"
| "mark_dependents inval self (d # ds) m =
     (case inval d (DependencyChange self) m of
        None \<Rightarrow> None
      | Some (_, m') \<Rightarrow> mark_dependents inval self ds m')"

definition rejects :: "(tid \<Rightarrow> 'w task) \<Rightarrow> tid \<Rightarrow> invalidation_event \<Rightarrow> bool" where
  "rejects g t ev = (case t_should_invalidate (g t) of None \<Rightarrow> False | Some f \<Rightarrow> \<not> f ev)"

primrec mark_invalid ::
  "nat \<Rightarrow> (tid \<Rightarrow> 'w task) \<Rightarrow> tid \<Rightarrow> invalidation_event \<Rightarrow> (tid \<rightharpoonup> execution)
    \<Rightarrow> (bool \<times> (tid \<rightharpoonup> execution)) option" where
  "mark_invalid 0 g = (\<lambda>t ev m. None)"
| "mark_invalid (Suc n) g = (\<lambda>t ev m.
     (if state_of m t = St_invalid then Some (False, m)
      else if rejects g t ev then Some (False, m)
      else
        (let m1 = upd_exec t (\<lambda>e. e\<lparr>ex_pending := insert ev (ex_pending e)\<rparr>) m in
         (case mark_dependents (mark_invalid n g) t (ex_dependents (exec_of m t)) m1 of
            None \<Rightarrow> None
          | Some m2 \<Rightarrow> Some (True, m2)))))"

text \<open>The specification: the marks that spread from an accepted event.\<close>

definition accepts :: "(tid \<Rightarrow> 'w task) \<Rightarrow> (tid \<rightharpoonup> execution) \<Rightarrow> tid \<Rightarrow> invalidation_event \<Rightarrow> bool" where
  "accepts g m t ev \<longleftrightarrow> state_of m t \<noteq> St_invalid \<and> \<not> rejects g t ev"

inductive_set marks ::
  "(tid \<Rightarrow> 'w task) \<Rightarrow> (tid \<rightharpoonup> execution) \<Rightarrow> tid \<Rightarrow> invalidation_event
    \<Rightarrow> (tid \<times> invalidation_event) set"
  for g m t ev
where
  start: "accepts g m t ev \<Longrightarrow> (t, ev) \<in> marks g m t ev"
| spread: "(x, ev') \<in> marks g m t ev \<Longrightarrow> y \<in> set (ex_dependents (exec_of m x)) \<Longrightarrow>
    accepts g m y (DependencyChange x) \<Longrightarrow> (y, DependencyChange x) \<in> marks g m t ev"

text \<open>Two maps that differ in pending invalidations only, by the marks in \<open>M\<close>.\<close>

definition marked :: "(tid \<times> invalidation_event) set \<Rightarrow> (tid \<rightharpoonup> execution) \<Rightarrow> (tid \<rightharpoonup> execution) \<Rightarrow> bool"
  where "marked M m m' \<longleftrightarrow>
    (\<forall>x. exec_of m' x = (exec_of m x)\<lparr>ex_pending := ex_pending (exec_of m x) \<union> {ev. (x, ev) \<in> M}\<rparr>)"

lemma marked_refl [simp]: "marked {} m m"
  by (simp add: marked_def)

lemma marked_trans: "marked M m m1 \<Longrightarrow> marked N m1 m2 \<Longrightarrow> marked (M \<union> N) m m2"
  by (simp add: marked_def Un_assoc Collect_disj_eq)

lemma marked_fields:
  assumes "marked M m m'"
  shows "state_of m' x = state_of m x"
    "ex_ctx (exec_of m' x) = ex_ctx (exec_of m x)"
    "ex_terminal (exec_of m' x) = ex_terminal (exec_of m x)"
    "ex_dependencies (exec_of m' x) = ex_dependencies (exec_of m x)"
    "ex_dependents (exec_of m' x) = ex_dependents (exec_of m x)"
    "ex_pending (exec_of m' x) = ex_pending (exec_of m x) \<union> {ev. (x, ev) \<in> M}"
  using assms by (simp_all add: marked_def)

lemma marked_accepts: "marked M m m' \<Longrightarrow> accepts g m' = accepts g m"
  by (simp add: accepts_def fun_eq_iff marked_fields)

lemma marked_should_execute: "marked M m m' \<Longrightarrow> should_execute m' = should_execute m"
  by (simp add: should_execute_iff fun_eq_iff marked_fields)

lemma marks_cong:
  assumes "marked M m m'"
  shows "marks g m' t ev = marks g m t ev"
proof -
  have "(x, e) \<in> marks g m2 t ev" if "(x, e) \<in> marks g m1 t ev"
    and a: "accepts g m1 = accepts g m2"
    and d: "\<And>x. ex_dependents (exec_of m1 x) = ex_dependents (exec_of m2 x)" for m1 m2 x e
    using that(1)
    by (induction rule: marks.induct) (auto intro: marks.intros simp: a [symmetric] d [symmetric])
  with marked_accepts [OF assms, of g] marked_fields(5) [OF assms] show ?thesis
    by (intro set_eqI) (metis surj_pair)
qed

lemma mark_dependents_marked:
  assumes rec: "\<And>t ev m r. inval t ev m = Some r \<Longrightarrow> marked (marks g m t ev) m (snd r)"
  shows "mark_dependents inval self ds m = Some m' \<Longrightarrow>
    marked (\<Union>d \<in> set ds. marks g m d (DependencyChange self)) m m'"
proof (induction ds arbitrary: m)
  case Nil
  then show ?case by simp
next
  case (Cons d ds)
  then obtain b m1 where m1: "inval d (DependencyChange self) m = Some (b, m1)"
    and rest: "mark_dependents inval self ds m1 = Some m'"
    by (auto split: option.splits)
  from rec [OF m1] have first: "marked (marks g m d (DependencyChange self)) m m1"
    by simp
  from marked_trans [OF first Cons.IH [OF rest]] show ?case
    by (simp add: marks_cong [OF first])
qed

lemma marks_unfold:
  "marks g m t ev = (if accepts g m t ev
     then insert (t, ev) (\<Union>d \<in> set (ex_dependents (exec_of m t)). marks g m d (DependencyChange t))
     else {})"
  (is "?L = ?R")
proof
  have "(x, e) \<in> ?R" if "(x, e) \<in> ?L" for x e
    using that
  proof (induction rule: marks.induct)
    case (spread x ev' y)
    have acc: "accepts g m t ev" using spread.IH by (auto split: if_splits)
    show ?case
    proof (cases "(x, ev') = (t, ev)")
      case True
      then have "(y, DependencyChange x) \<in> marks g m y (DependencyChange t)"
        using spread.hyps by (auto intro: marks.start)
      with True acc spread.hyps show ?thesis by auto
    next
      case False
      with spread.IH acc obtain d where "d \<in> set (ex_dependents (exec_of m t))"
        "(x, ev') \<in> marks g m d (DependencyChange t)" by auto
      with acc spread.hyps show ?thesis by (auto intro: marks.spread)
    qed
  qed simp
  then show "?L \<subseteq> ?R" by (simp add: subset_iff split_paired_all)
next
  have "(x, e) \<in> ?L" if acc: "accepts g m t ev" and d: "d \<in> set (ex_dependents (exec_of m t))"
    and "(x, e) \<in> marks g m d (DependencyChange t)" for x e d
    using that(3)
  proof (induction rule: marks.induct)
    case start
    with marks.start [of g m t ev] acc d show ?case by (blast intro: marks.spread)
  qed (rule marks.spread)
  then show "?R \<subseteq> ?L" by (auto intro: marks.start)
qed

lemma mark_invalid_marked:
  "mark_invalid n g t ev m = Some (b, m') \<Longrightarrow>
     b = accepts g m t ev \<and> marked (marks g m t ev) m m'"
proof (induction n arbitrary: t ev m b m')
  case 0
  then show ?case by simp
next
  case (Suc n)
  show ?case
  proof (cases "accepts g m t ev")
    case False
    with Suc.prems show ?thesis
      by (subst marks_unfold) (auto simp: accepts_def split: if_splits)
  next
    case True
    let ?m1 = "upd_exec t (\<lambda>e. e\<lparr>ex_pending := insert ev (ex_pending e)\<rparr>) m"
    let ?ds = "ex_dependents (exec_of m t)"
    from True Suc.prems obtain m2 where b: "b = True" "m' = m2"
      and m2: "mark_dependents (mark_invalid n g) t ?ds ?m1 = Some m2"
      by (auto simp: accepts_def Let_def split: option.splits)
    have first: "marked {(t, ev)} m ?m1"
      by (auto simp: marked_def)
    have "marked (\<Union>d \<in> set ?ds. marks g ?m1 d (DependencyChange t)) ?m1 m2"
      using m2 by (rule mark_dependents_marked [rotated]) (use Suc.IH in force)
    from marked_trans [OF first this] have "marked (marks g m t ev) m m2"
      by (subst marks_unfold) (simp add: True marks_cong [OF first])
    with b True show ?thesis by simp
  qed
qed

text \<open>It returns when the reverse edges have no infinite chain.\<close>

definition dependents_rel :: "(tid \<rightharpoonup> execution) \<Rightarrow> (tid \<times> tid) set" where
  "dependents_rel m = {(y, x). y \<in> set (ex_dependents (exec_of m x))}"

lemma mark_dependents_total:
  assumes "\<And>d m. d \<in> set ds \<Longrightarrow> dependents_rel m = R \<Longrightarrow> inval d (DependencyChange self) m \<noteq> None"
    and "\<And>d m r. inval d (DependencyChange self) m = Some r \<Longrightarrow>
      dependents_rel (snd r) = dependents_rel m"
  shows "dependents_rel m = R \<Longrightarrow> mark_dependents inval self ds m \<noteq> None"
  using assms(1)
proof (induction ds arbitrary: m)
  case Nil
  then show ?case by simp
next
  case (Cons d ds)
  then obtain b m1 where m1: "inval d (DependencyChange self) m = Some (b, m1)"
    by (metis list.set_intros(1) not_None_eq surj_pair)
  with assms(2) [OF m1] Cons show ?case by simp
qed

lemma marked_dependents_rel: "marked M m m' \<Longrightarrow> dependents_rel m' = dependents_rel m"
  by (simp add: dependents_rel_def marked_fields)

lemma mark_invalid_total:
  assumes "wf R"
  shows "\<exists>n. \<forall>m ev k. dependents_rel m = R \<longrightarrow> n \<le> k \<longrightarrow> mark_invalid k g t ev m \<noteq> None"
  using assms
proof (induction t rule: wf_induct_rule)
  case (less t)
  have "\<forall>d. \<exists>n. (d, t) \<in> R \<longrightarrow>
      (\<forall>m ev k. dependents_rel m = R \<longrightarrow> n \<le> k \<longrightarrow> mark_invalid k g d ev m \<noteq> None)"
    using less.IH by blast
  then obtain f where f: "\<And>d m ev k. (d, t) \<in> R \<Longrightarrow> dependents_rel m = R \<Longrightarrow> f d \<le> k \<Longrightarrow>
      mark_invalid k g d ev m \<noteq> None"
    by metis
  show ?case
  proof (cases "\<exists>m. dependents_rel m = R")
    case False
    then show ?thesis by blast
  next
    case True
    then obtain m0 where m0: "dependents_rel m0 = R" by blast
    define ds0 where "ds0 = ex_dependents (exec_of m0 t)"
    define n where "n = Max (insert 0 (f ` set ds0))"
    have ds: "set (ex_dependents (exec_of m t)) = set ds0" if "dependents_rel m = R" for m
      using that m0 unfolding dependents_rel_def ds0_def by blast
    have step: "mark_invalid k g d ev m \<noteq> None"
      if "d \<in> set ds0" "n \<le> k" "dependents_rel m = R" for d k ev m
    proof (rule f)
      show "(d, t) \<in> R" using m0 that(1) by (auto simp: dependents_rel_def ds0_def)
      have "f d \<le> n" using that(1) by (simp add: n_def)
      with that(2) show "f d \<le> k" by simp
    qed (rule that(3))
    have "mark_invalid (Suc k) g t ev m \<noteq> None" if "n \<le> k" "dependents_rel m = R" for k ev m
    proof -
      let ?m1 = "upd_exec t (\<lambda>e. e\<lparr>ex_pending := insert ev (ex_pending e)\<rparr>) m"
      have "marked {(t, ev)} m ?m1" by (auto simp: marked_def)
      then have r: "dependents_rel ?m1 = R"
        using that(2) by (simp add: marked_dependents_rel)
      have pres: "dependents_rel (snd r) = dependents_rel m'"
        if "mark_invalid k g d e m' = Some r" for d e m' r
        using that mark_invalid_marked [of k g d e m' "fst r" "snd r"]
        by (auto dest: marked_dependents_rel)
      have "mark_dependents (mark_invalid k g) t (ex_dependents (exec_of m t)) ?m1 \<noteq> None"
        using r by (rule mark_dependents_total [rotated 2]) (use step ds that pres in auto)
      then show ?thesis by (auto simp: Let_def split: option.splits)
    qed
    then have "\<forall>m ev k. dependents_rel m = R \<longrightarrow> Suc n \<le> k \<longrightarrow> mark_invalid k g t ev m \<noteq> None"
      by (metis Suc_le_D Suc_le_mono)
    then show ?thesis by blast
  qed
qed

section \<open>invalidate: stopping a run and resetting the node\<close>

text \<open>
  \<open>invalidate\<close> returns at once on an invalid or canceled node. Otherwise it cancels the
  node's context, marks it invalid and gives it a fresh context (\<open>invalidate_begin\<close>), waits
  for a message in the terminal channel, and then replaces the channel and clears the
  pending invalidations (\<open>invalidate_end\<close>, which does not proceed while the channel is
  empty). The two parts are separate because the wait lets other goroutines run.
\<close>

definition invalidate_skips :: "(tid \<rightharpoonup> execution) \<Rightarrow> tid \<Rightarrow> bool" where
  "invalidate_skips m t \<longleftrightarrow> state_of m t = St_invalid \<or> state_of m t = St_canceled"

definition cancel_exec :: "tid \<Rightarrow> ('a task_set_scheme) \<Rightarrow> ('a task_set_scheme)" where
  "cancel_exec t s = s\<lparr>ts_cancelled := insert (hd (ex_ctx (exec_of (ts_exec s) t))) (ts_cancelled s)\<rparr>"

definition invalidate_begin :: "ctx \<Rightarrow> tid \<Rightarrow> ('a task_set_scheme) \<Rightarrow> ('a task_set_scheme)" where
  "invalidate_begin root t s =
     (let (c, s1) = with_cancel root (cancel_exec t s) in
      s1\<lparr>ts_exec := upd_exec t (\<lambda>e. e\<lparr>ex_state := St_invalid, ex_ctx := c\<rparr>) (ts_exec s1)\<rparr>)"

definition invalidate_end :: "tid \<Rightarrow> ('a task_set_scheme) \<Rightarrow> ('a task_set_scheme) option" where
  "invalidate_end t s =
     (if ex_terminal (exec_of (ts_exec s) t) = 0 then None
      else Some (s\<lparr>ts_exec :=
             upd_exec t (\<lambda>e. e\<lparr>ex_terminal := 0, ex_pending := {}\<rparr>) (ts_exec s)\<rparr>))"

text \<open>The whole of \<open>invalidate\<close>, when nothing else runs meanwhile.\<close>

definition invalidate :: "ctx \<Rightarrow> tid \<Rightarrow> ('a task_set_scheme) \<Rightarrow> ('a task_set_scheme) option" where
  "invalidate root t s =
     (if invalidate_skips (ts_exec s) t then Some s
      else invalidate_end t (invalidate_begin root t s))"

lemma invalidate_begin_simps [simp]:
  "ts_next (invalidate_begin root t s) = Suc (ts_next s)"
  "ts_cancelled (invalidate_begin root t s) =
     insert (hd (ex_ctx (exec_of (ts_exec s) t))) (ts_cancelled s)"
  "ts_exec (invalidate_begin root t s) =
     upd_exec t (\<lambda>e. e\<lparr>ex_state := St_invalid, ex_ctx := ts_next s # root\<rparr>) (ts_exec s)"
  by (simp_all add: invalidate_begin_def with_cancel_def cancel_exec_def)

section \<open>Handlers\<close>

text \<open>\<open>TaskHandler.State\<close> and its table, and \<open>TaskHandler.Invalidate\<close> (task_handler.go).\<close>

fun handler_state :: "task_state \<Rightarrow> string" where
  "handler_state St_invalid = ''invalid''"
| "handler_state St_running = ''running''"
| "handler_state St_error = ''error''"
| "handler_state St_done = ''done''"
| "handler_state St_canceled = ''canceled''"

lemma handler_state_inj: "handler_state a = handler_state b \<longleftrightarrow> a = b"
  by (cases a; cases b) simp_all

definition handler_invalidate ::
  "nat \<Rightarrow> (tid \<Rightarrow> 'w task) \<Rightarrow> tid \<Rightarrow> invalidation_event \<Rightarrow> (tid \<rightharpoonup> execution)
    \<Rightarrow> (tid \<rightharpoonup> execution) option" where
  "handler_invalidate n g t reason m = map_option snd (mark_invalid n g t reason m)"

end
