(* ===== verification/Executor.thy ===== *)
theory Executor
  imports TaskExecution
begin

text \<open>
  The executor at work (\<open>executor.go\<close>): the goroutines that run tasks, the invalidation
  loop, the calls of \<open>Invalidate\<close>, and the shutdown, as a machine whose steps are the
  accesses to shared state. A step is an operation that returns the next state, or \<open>None\<close>
  where the code would block or is not there.

  Granularity. A goroutine's program counter \<open>gr_pc\<close> names the statement it is about to
  execute in \<open>runPass\<close>'s closure. Reading the context's error, writing the node's state
  and publishing the event are three steps; holding \<open>e.mu\<close> is \<open>e_mu\<close>, and a pass or a plan
  holds it over many steps. One call of \<open>taskExecution.Invalidate\<close> with its recursion, and
  the reads of one \<open>ShouldExecute\<close>, are one step each. A task's body may return at any time
  with any error. An event is recorded in \<open>e_events\<close> by the step that publishes it; the sends
  of \<open>publishEvent\<close> to the subscribers, which wait for room in each channel and panic on a
  closed one, are the further steps of \<open>Delivery\<close>, during which the goroutine does nothing else.
\<close>

section \<open>State\<close>

datatype run_pc =
    G_start    \<comment> \<open>the goroutine has been created\<close>
  | G_body     \<comment> \<open>in the task's \<open>Run\<close> or \<open>RunWithFlags\<close>\<close>
  | G_check    \<comment> \<open>about to read \<open>ctx.Err()\<close>\<close>
  | G_write    \<comment> \<open>about to write \<open>execution.state\<close>\<close>
  | G_publish  \<comment> \<open>about to publish the event of the exit\<close>
  | G_send     \<comment> \<open>about to send to \<open>execution.terminalCh\<close>\<close>
  | G_keep     \<comment> \<open>about to test \<open>KeepAlive\<close>\<close>
  | G_notify   \<comment> \<open>about to send to \<open>invalidationCh\<close>\<close>
  | G_plan     \<comment> \<open>in \<open>evaluateInvalidationPlan\<close>\<close>
  | G_pass     \<comment> \<open>about to call \<open>runPass\<close>\<close>
  | G_lock     \<comment> \<open>in \<open>runPass\<close>, after the test of \<open>e.ctx\<close>\<close>
  | G_return   \<comment> \<open>about to return to the errgroup\<close>

datatype verdict = V_canceled | V_failed | V_done

record run =
  gr_task :: tid
  gr_ctx :: ctx
  gr_err :: "go_error option"
  gr_verdict :: verdict
  gr_pc :: run_pc

text \<open>
  The holder of \<open>e.mu\<close>: a plan with the nodes it has still to invalidate, the first of
  which it may be waiting for, or a pass with the tasks it has still to visit. The thread
  is a run's goroutine, the invalidation loop, or a goroutine that only calls \<open>runPass\<close>.
\<close>

datatype thread = Th_run nat | Th_loop | Th_pass

datatype holder = Planning thread "tid list" bool | Passing thread "tid list"

datatype loop_pc = L_idle | L_plan | L_exited

datatype event_kind = Ev_started | Ev_completed | Ev_failed | Ev_stopped | Ev_invalidated

record executor = task_set +
  e_root :: ctx                        \<comment> \<open>\<open>e.ctx\<close>\<close>
  e_mu :: "holder option"
  e_runs :: "nat \<rightharpoonup> run"
  e_next_run :: nat
  e_passes :: nat                      \<comment> \<open>calls of \<open>runPass\<close> about to test \<open>e.ctx\<close>\<close>
  e_locks :: nat                       \<comment> \<open>calls of \<open>runPass\<close> about to lock\<close>
  e_senders :: nat                     \<comment> \<open>calls of \<open>Invalidate\<close> about to send\<close>
  e_inv_ch :: bool                     \<comment> \<open>\<open>invalidationCh\<close>, of capacity 1, is full\<close>
  e_timer :: bool
  e_loop :: loop_pc
  e_events :: "(event_kind \<times> tid) list"
  e_history :: "(tid \<times> task_state) list" \<comment> \<open>every write of a node's state, in order\<close>
  e_wg_err :: "go_error option"

definition root_done :: "('a executor_scheme) \<Rightarrow> bool" where
  "root_done s \<longleftrightarrow> ctx_err (ts_cancelled s) (e_root s)"

text \<open>\<open>Run\<close> after the graph is built: its own call of \<open>runPass\<close> is pending.\<close>

definition start_executor :: "ctx \<Rightarrow> task_set \<Rightarrow> executor" where
  "start_executor root s =
     \<lparr>ts_next = ts_next s, ts_cancelled = ts_cancelled s, ts_exec = ts_exec s,
      e_root = root, e_mu = None, e_runs = Map.empty, e_next_run = 0, e_passes = 1,
      e_locks = 0, e_senders = 0, e_inv_ch = False, e_timer = False, e_loop = L_idle,
      e_events = [], e_history = [], e_wg_err = None\<rparr>"

section \<open>Writing the state\<close>

definition set_state :: "tid \<Rightarrow> task_state \<Rightarrow> executor \<Rightarrow> executor" where
  "set_state t st s = s\<lparr>ts_exec := upd_exec t (\<lambda>e. e\<lparr>ex_state := st\<rparr>) (ts_exec s),
     e_history := e_history s @ [(t, st)]\<rparr>"

text \<open>The record of a publication; \<open>Delivery\<close> makes the sends of it.\<close>

definition publish :: "event_kind \<Rightarrow> tid \<Rightarrow> executor \<Rightarrow> executor" where
  "publish k t s = s\<lparr>e_events := e_events s @ [(k, t)]\<rparr>"

definition set_run :: "nat \<Rightarrow> run \<Rightarrow> executor \<Rightarrow> executor" where
  "set_run i r s = s\<lparr>e_runs := (e_runs s)(i \<mapsto> r)\<rparr>"

text \<open>A step of the goroutine \<open>i\<close>, when it is at \<open>pc\<close>.\<close>

definition at_pc :: "nat \<Rightarrow> run_pc \<Rightarrow> (run \<Rightarrow> executor option) \<Rightarrow> executor \<Rightarrow> executor option" where
  "at_pc i pc f s =
     (case e_runs s i of None \<Rightarrow> None | Some r \<Rightarrow> if gr_pc r = pc then f r else None)"

lemma at_pc_Some:
  "at_pc i pc f s = Some s' \<longleftrightarrow> (\<exists>r. e_runs s i = Some r \<and> gr_pc r = pc \<and> f r = Some s')"
  by (auto simp: at_pc_def split: option.splits if_splits)

section \<open>The goroutine of a run\<close>

definition op_start :: "nat \<Rightarrow> executor \<Rightarrow> executor option" where
  "op_start i s = at_pc i G_start (\<lambda>r.
     Some (publish Ev_started (gr_task r)
       (set_run i (r\<lparr>gr_ctx := ex_ctx (exec_of (ts_exec s) (gr_task r)), gr_pc := G_body\<rparr>) s))) s"

definition has_body :: "'w task \<Rightarrow> bool" where
  "has_body t \<longleftrightarrow> t_run_with_flags t \<noteq> None \<or> t_run t \<noteq> None"

definition op_body :: "(tid \<Rightarrow> 'w task) \<Rightarrow> nat \<Rightarrow> go_error option \<Rightarrow> executor \<Rightarrow> executor option" where
  "op_body g i err s = at_pc i G_body (\<lambda>r.
     if err \<noteq> None \<and> \<not> has_body (g (gr_task r)) then None
     else Some (set_run i (r\<lparr>gr_err := err, gr_pc := G_check\<rparr>) s)) s"

definition op_check :: "nat \<Rightarrow> executor \<Rightarrow> executor option" where
  "op_check i s = at_pc i G_check (\<lambda>r.
     Some (set_run i (r\<lparr>gr_verdict :=
         (if ctx_err (ts_cancelled s) (gr_ctx r) then V_canceled
          else if gr_err r \<noteq> None then V_failed else V_done),
       gr_pc := G_write\<rparr>) s)) s"

definition op_write :: "nat \<Rightarrow> executor \<Rightarrow> executor option" where
  "op_write i s = at_pc i G_write (\<lambda>r.
     Some (set_run i (r\<lparr>gr_pc := G_publish\<rparr>)
       (case gr_verdict r of
          V_canceled \<Rightarrow> if root_done s then set_state (gr_task r) St_canceled s else s
        | V_failed \<Rightarrow> set_state (gr_task r) St_error s
        | V_done \<Rightarrow> set_state (gr_task r) St_done s))) s"

definition op_publish :: "nat \<Rightarrow> executor \<Rightarrow> executor option" where
  "op_publish i s = at_pc i G_publish (\<lambda>r.
     Some (publish (case gr_verdict r of V_canceled \<Rightarrow> Ev_stopped | V_failed \<Rightarrow> Ev_failed
                    | V_done \<Rightarrow> Ev_completed) (gr_task r)
       (set_run i (r\<lparr>gr_pc := G_send\<rparr>) s))) s"

definition op_send :: "nat \<Rightarrow> executor \<Rightarrow> executor option" where
  "op_send i s = at_pc i G_send (\<lambda>r.
     if ex_terminal (exec_of (ts_exec s) (gr_task r)) \<ge> 1 then None
     else Some (set_run i (r\<lparr>gr_pc := G_keep\<rparr>)
       (s\<lparr>ts_exec := upd_exec (gr_task r) (\<lambda>e. e\<lparr>ex_terminal := Suc (ex_terminal e)\<rparr>)
            (ts_exec s)\<rparr>))) s"

text \<open>After the exit: only a run without an error evaluates the invalidation plan.\<close>

definition after_keep :: "run \<Rightarrow> run" where
  "after_keep r = r\<lparr>gr_pc := (if gr_err r = None then G_plan else G_pass)\<rparr>"

definition op_keep :: "(tid \<Rightarrow> 'w task) \<Rightarrow> nat \<Rightarrow> nat \<Rightarrow> executor \<Rightarrow> executor option" where
  "op_keep g n i s = at_pc i G_keep (\<lambda>r.
     if t_keep_alive (g (gr_task r)) \<and> state_of (ts_exec s) (gr_task r) \<noteq> St_canceled
     then (case mark_invalid n g (gr_task r) KeepAliveStopped (ts_exec s) of
             None \<Rightarrow> None
           | Some (True, m) \<Rightarrow> Some (set_run i (r\<lparr>gr_pc := G_notify\<rparr>) (s\<lparr>ts_exec := m\<rparr>))
           | Some (False, m) \<Rightarrow> Some (set_run i (after_keep r) (s\<lparr>ts_exec := m\<rparr>)))
     else Some (set_run i (after_keep r) s)) s"

definition op_notify :: "nat \<Rightarrow> executor \<Rightarrow> executor option" where
  "op_notify i s = at_pc i G_notify (\<lambda>r.
     if e_inv_ch s then None
     else Some (set_run i (after_keep r) (s\<lparr>e_inv_ch := True\<rparr>))) s"

definition op_pass_test :: "nat \<Rightarrow> executor \<Rightarrow> executor option" where
  "op_pass_test i s = at_pc i G_pass (\<lambda>r.
     Some (set_run i (r\<lparr>gr_pc := (if root_done s then G_return else G_lock)\<rparr>) s)) s"

text \<open>
  The return to the errgroup, which keeps the first error. The error of a run whose
  context is cancelled is dropped.
\<close>

definition op_return :: "nat \<Rightarrow> executor \<Rightarrow> executor option" where
  "op_return i s = at_pc i G_return (\<lambda>r.
     Some (s\<lparr>e_runs := (e_runs s)(i := None),
       e_wg_err := (case e_wg_err s of
           Some e \<Rightarrow> Some e
         | None \<Rightarrow>
             if gr_err r \<noteq> None \<and> \<not> ctx_err (ts_cancelled s) (gr_ctx r)
             then wrapf ''Executor failed to run task'' (gr_err r) else None)\<rparr>)) s"

section \<open>evaluateInvalidationPlan\<close>

text \<open>
  The first loop collects, in the order \<open>ord\<close> in which it ranges over the tasks, the
  nodes with pending invalidations that are not invalid, and publishes an event for each. The
  collection is one step, so a call of \<open>Invalidate\<close> comes before or after all of it; the sends
  of the events follow, in the order in which they are made, before the plan goes on.
\<close>

definition plan_selects :: "(tid \<rightharpoonup> execution) \<Rightarrow> tid \<Rightarrow> bool" where
  "plan_selects m t \<longleftrightarrow> ex_pending (exec_of m t) \<noteq> {} \<and> state_of m t \<noteq> St_invalid"

definition begin_plan :: "thread \<Rightarrow> tid list \<Rightarrow> executor \<Rightarrow> executor option" where
  "begin_plan th ord s =
     (if e_mu s \<noteq> None then None
      else
        (let todo = filter (plan_selects (ts_exec s)) ord in
         Some (s\<lparr>e_mu := Some (Planning th todo False),
                e_events := e_events s @ map (\<lambda>t. (Ev_invalidated, t)) todo\<rparr>)))"

definition op_plan_run :: "nat \<Rightarrow> tid list \<Rightarrow> executor \<Rightarrow> executor option" where
  "op_plan_run i ord s = at_pc i G_plan (\<lambda>r. begin_plan (Th_run i) ord s) s"

definition op_plan_loop :: "tid list \<Rightarrow> executor \<Rightarrow> executor option" where
  "op_plan_loop ord s =
     (if e_loop s = L_plan then begin_plan Th_loop ord s else None)"

text \<open>
  The second loop invalidates the collected nodes one after the other, and holds \<open>e.mu\<close>
  while it waits for a run to exit. After the last one the plan's caller goes on: a run's
  goroutine to its own \<open>runPass\<close>, the loop to \<open>go e.runPass()\<close>.
\<close>

definition op_plan_next :: "executor \<Rightarrow> executor option" where
  "op_plan_next s =
     (case e_mu s of
        Some (Planning th (t # ts) False) \<Rightarrow>
          if invalidate_skips (ts_exec s) t
          then Some (s\<lparr>e_mu := Some (Planning th ts False)\<rparr>)
          else Some ((invalidate_begin (e_root s) t s)
                 \<lparr>e_mu := Some (Planning th (t # ts) True),
                  e_history := e_history s @ [(t, St_invalid)]\<rparr>)
      | Some (Planning th [] False) \<Rightarrow>
          (case th of
             Th_run i \<Rightarrow>
               (case e_runs s i of
                  None \<Rightarrow> None
                | Some r \<Rightarrow> Some (set_run i (r\<lparr>gr_pc := G_pass\<rparr>) (s\<lparr>e_mu := None\<rparr>)))
           | Th_loop \<Rightarrow> Some (s\<lparr>e_mu := None, e_loop := L_idle, e_passes := Suc (e_passes s)\<rparr>)
           | Th_pass \<Rightarrow> None)
      | _ \<Rightarrow> None)"

definition op_plan_wait :: "executor \<Rightarrow> executor option" where
  "op_plan_wait s =
     (case e_mu s of
        Some (Planning th (t # ts) True) \<Rightarrow>
          map_option (\<lambda>s'. s'\<lparr>e_mu := Some (Planning th ts False)\<rparr>) (invalidate_end t s)
      | _ \<Rightarrow> None)"

section \<open>runPass\<close>

definition op_test_pass :: "executor \<Rightarrow> executor option" where
  "op_test_pass s =
     (case e_passes s of
        0 \<Rightarrow> None
      | Suc n \<Rightarrow>
          if root_done s then Some (s\<lparr>e_passes := n\<rparr>)
          else Some (s\<lparr>e_passes := n, e_locks := Suc (e_locks s)\<rparr>))"

definition op_lock_pass :: "tid list \<Rightarrow> executor \<Rightarrow> executor option" where
  "op_lock_pass ord s =
     (case e_locks s of
        0 \<Rightarrow> None
      | Suc n \<Rightarrow>
          if e_mu s \<noteq> None then None
          else Some (s\<lparr>e_locks := n, e_mu := Some (Passing Th_pass ord)\<rparr>))"

definition op_lock_run :: "nat \<Rightarrow> tid list \<Rightarrow> executor \<Rightarrow> executor option" where
  "op_lock_run i ord s = at_pc i G_lock (\<lambda>r.
     if e_mu s \<noteq> None then None
     else Some (s\<lparr>e_mu := Some (Passing (Th_run i) ord)\<rparr>)) s"

text \<open>
  One round of the pass's loop: a task that should execute becomes running and gets a
  goroutine. After the last round the lock is released.
\<close>

definition new_run :: "tid \<Rightarrow> run" where
  "new_run t = \<lparr>gr_task = t, gr_ctx = [], gr_err = None, gr_verdict = V_done, gr_pc = G_start\<rparr>"

definition spawn :: "tid \<Rightarrow> executor \<Rightarrow> executor" where
  "spawn t s = (set_run (e_next_run s) (new_run t) (set_state t St_running s))
     \<lparr>e_next_run := Suc (e_next_run s)\<rparr>"

definition op_visit :: "executor \<Rightarrow> executor option" where
  "op_visit s =
     (case e_mu s of
        Some (Passing th (t # ts)) \<Rightarrow>
          Some ((if should_execute (ts_exec s) t then spawn t s else s)
            \<lparr>e_mu := Some (Passing th ts)\<rparr>)
      | Some (Passing th []) \<Rightarrow>
          (case th of
             Th_run i \<Rightarrow>
               (case e_runs s i of
                  None \<Rightarrow> None
                | Some r \<Rightarrow> Some (set_run i (r\<lparr>gr_pc := G_return\<rparr>) (s\<lparr>e_mu := None\<rparr>)))
           | Th_pass \<Rightarrow> Some (s\<lparr>e_mu := None\<rparr>)
           | Th_loop \<Rightarrow> None)
      | _ \<Rightarrow> None)"

section \<open>Invalidate and the invalidation loop\<close>

text \<open>
  \<open>Invalidate\<close> of a task that is not in the set finds no execution and panics, as \<open>e.tasks[task]\<close>
  is nil then; the machine has no step for it.
\<close>

definition invalidate_panics :: "tid \<Rightarrow> executor \<Rightarrow> bool" where
  "invalidate_panics t s \<longleftrightarrow> t \<notin> dom (ts_exec s)"

definition op_invalidate ::
  "(tid \<Rightarrow> 'w task) \<Rightarrow> nat \<Rightarrow> tid \<Rightarrow> invalidation_event \<Rightarrow> executor \<Rightarrow> executor option" where
  "op_invalidate g n t ev s =
     (if invalidate_panics t s then None
      else (case mark_invalid n g t ev (ts_exec s) of
              None \<Rightarrow> None
            | Some (True, m) \<Rightarrow> Some (s\<lparr>ts_exec := m, e_senders := Suc (e_senders s)\<rparr>)
            | Some (False, m) \<Rightarrow> Some (s\<lparr>ts_exec := m\<rparr>)))"

definition op_notify_ch :: "executor \<Rightarrow> executor option" where
  "op_notify_ch s =
     (case e_senders s of
        0 \<Rightarrow> None
      | Suc n \<Rightarrow> if e_inv_ch s then None else Some (s\<lparr>e_senders := n, e_inv_ch := True\<rparr>))"

definition op_loop_recv :: "executor \<Rightarrow> executor option" where
  "op_loop_recv s =
     (if e_loop s = L_idle \<and> e_inv_ch s then Some (s\<lparr>e_inv_ch := False, e_timer := True\<rparr>)
      else None)"

definition op_loop_timer :: "executor \<Rightarrow> executor option" where
  "op_loop_timer s =
     (if e_loop s = L_idle \<and> e_timer s then Some (s\<lparr>e_timer := False, e_loop := L_plan\<rparr>)
      else None)"

definition op_loop_exit :: "executor \<Rightarrow> executor option" where
  "op_loop_exit s =
     (if e_loop s = L_idle \<and> root_done s then Some (s\<lparr>e_loop := L_exited\<rparr>) else None)"

definition op_shutdown :: "executor \<Rightarrow> executor option" where
  "op_shutdown s = Some (s\<lparr>ts_cancelled := insert (hd (e_root s)) (ts_cancelled s)\<rparr>)"

section \<open>Runs of the machine\<close>

datatype action =
    A_start nat | A_body nat "go_error option" | A_check nat | A_write nat | A_publish nat
  | A_send nat | A_keep nat nat | A_notify nat | A_pass_test nat | A_return nat
  | A_plan_run nat "tid list" | A_plan_loop "tid list" | A_plan_next | A_plan_wait
  | A_test_pass | A_lock_pass "tid list" | A_lock_run nat "tid list" | A_visit
  | A_invalidate nat tid invalidation_event | A_notify_ch
  | A_loop_recv | A_loop_timer | A_loop_exit | A_shutdown

definition ordered :: "tid list \<Rightarrow> (tid list \<Rightarrow> executor \<Rightarrow> executor option) \<Rightarrow> executor \<Rightarrow> executor option" where
  "ordered ord f s = (if is_order ord (ts_exec s) then f ord s else None)"

lemma ordered_Some:
  "ordered ord f s = Some s' \<longleftrightarrow> is_order ord (ts_exec s) \<and> f ord s = Some s'"
  by (simp add: ordered_def)

fun do_action :: "(tid \<Rightarrow> 'w task) \<Rightarrow> action \<Rightarrow> executor \<Rightarrow> executor option" where
  "do_action g (A_start i) s = op_start i s"
| "do_action g (A_body i err) s = op_body g i err s"
| "do_action g (A_check i) s = op_check i s"
| "do_action g (A_write i) s = op_write i s"
| "do_action g (A_publish i) s = op_publish i s"
| "do_action g (A_send i) s = op_send i s"
| "do_action g (A_keep n i) s = op_keep g n i s"
| "do_action g (A_notify i) s = op_notify i s"
| "do_action g (A_pass_test i) s = op_pass_test i s"
| "do_action g (A_return i) s = op_return i s"
| "do_action g (A_plan_run i ord) s = ordered ord (op_plan_run i) s"
| "do_action g (A_plan_loop ord) s = ordered ord op_plan_loop s"
| "do_action g A_plan_next s = op_plan_next s"
| "do_action g A_plan_wait s = op_plan_wait s"
| "do_action g A_test_pass s = op_test_pass s"
| "do_action g (A_lock_pass ord) s = ordered ord op_lock_pass s"
| "do_action g (A_lock_run i ord) s = ordered ord (op_lock_run i) s"
| "do_action g A_visit s = op_visit s"
| "do_action g (A_invalidate n t ev) s = op_invalidate g n t ev s"
| "do_action g A_notify_ch s = op_notify_ch s"
| "do_action g A_loop_recv s = op_loop_recv s"
| "do_action g A_loop_timer s = op_loop_timer s"
| "do_action g A_loop_exit s = op_loop_exit s"
| "do_action g A_shutdown s = op_shutdown s"

fun do_actions :: "(tid \<Rightarrow> 'w task) \<Rightarrow> action list \<Rightarrow> executor \<Rightarrow> executor option" where
  "do_actions g [] s = Some s"
| "do_actions g (a # as) s =
     (case do_action g a s of None \<Rightarrow> None | Some s' \<Rightarrow> do_actions g as s')"

inductive exec_step :: "(tid \<Rightarrow> 'w task) \<Rightarrow> executor \<Rightarrow> executor \<Rightarrow> bool" for g where
  act: "do_action g a s = Some s' \<Longrightarrow> exec_step g s s'"

inductive_cases exec_stepE: "exec_step g s s'"

text \<open>
  The start of the machine: the graph of a run on acyclic dependencies, built in the
  context \<open>root\<close> of the run, whose identities are all older than those of the graph.
\<close>

definition starts :: "(tid \<Rightarrow> 'w task) \<Rightarrow> executor \<Rightarrow> bool" where
  "starts g s \<longleftrightarrow> wf (dep_rel g) \<and>
     (\<exists>n reg root names k ts.
        build_task_set n g reg root names (empty_task_set k) = Some (Inr ts) \<and>
        root \<noteq> [] \<and> (\<forall>i \<in> set root. i < k) \<and> s = start_executor root ts)"

abbreviation reachable :: "(tid \<Rightarrow> 'w task) \<Rightarrow> executor \<Rightarrow> bool" where
  "reachable g \<equiv> reachable_by (starts g) (exec_step g)"

lemma do_actions_reachable:
  "do_actions g as s = Some s' \<Longrightarrow> reachable g s \<Longrightarrow> reachable g s'"
proof (induction as arbitrary: s)
  case Nil
  then show ?case by simp
next
  case (Cons a as)
  then obtain s1 where "do_action g a s = Some s1" "do_actions g as s1 = Some s'"
    by (auto split: option.splits)
  with Cons show ?case by (blast intro: reachable_by.step exec_step.act)
qed

end
