(* ===== verification/ExecutorInv.thy ===== *)
theory ExecutorInv
  imports Executor
begin

text \<open>
  The invariants of the executor's machine that hold in every reachable state, whatever the
  interleaving: who holds the lock, how many runs of a task have not yet reported their
  exit, and what the terminal channels hold.
\<close>

lemmas op_defs =
  op_start_def op_body_def op_check_def op_write_def op_publish_def op_send_def op_keep_def
  op_notify_def op_pass_test_def op_return_def op_plan_run_def op_plan_loop_def op_plan_next_def
  op_plan_wait_def op_test_pass_def op_lock_pass_def op_lock_run_def op_visit_def
  op_invalidate_def invalidate_panics_def op_notify_ch_def op_loop_recv_def op_loop_timer_def op_loop_exit_def
  op_shutdown_def

lemmas effect_defs =
  set_run_def publish_def set_state_def after_keep_def spawn_def new_run_def invalidate_end_def

definition unsent :: "run \<Rightarrow> bool" where
  "unsent r \<longleftrightarrow> gr_pc r \<in> {G_start, G_body, G_check, G_write, G_publish, G_send}"

definition waiting :: "executor \<Rightarrow> tid \<Rightarrow> bool" where
  "waiting s t \<longleftrightarrow> (\<exists>th ts. e_mu s = Some (Planning th (t # ts) True))"

abbreviation node :: "executor \<Rightarrow> tid \<Rightarrow> execution" where
  "node s t \<equiv> exec_of (ts_exec s) t"

text \<open>The tasks of a set.\<close>

definition tasks_of :: "(tid \<rightharpoonup> execution) \<Rightarrow> tid set" where
  "tasks_of m = dom m"

lemma tasks_of_upd [simp]: "t \<in> tasks_of m \<Longrightarrow> tasks_of (upd_exec t f m) = tasks_of m"
  by (simp add: tasks_of_def)

lemma is_order_tasks: "is_order ord m \<Longrightarrow> set ord = tasks_of m"
  by (simp add: is_order_def tasks_of_def)

section \<open>The runs and the lock\<close>

definition thread_plans :: "executor \<Rightarrow> thread \<Rightarrow> bool" where
  "thread_plans s th \<longleftrightarrow> (case th of
     Th_run i \<Rightarrow> (\<exists>r. e_runs s i = Some r \<and> gr_pc r = G_plan)
   | Th_loop \<Rightarrow> e_loop s = L_plan
   | Th_pass \<Rightarrow> False)"

definition thread_passes :: "executor \<Rightarrow> thread \<Rightarrow> bool" where
  "thread_passes s th \<longleftrightarrow> (case th of
     Th_run i \<Rightarrow> (\<exists>r. e_runs s i = Some r \<and> gr_pc r = G_lock)
   | Th_loop \<Rightarrow> False
   | Th_pass \<Rightarrow> True)"

fun holder_ok :: "executor \<Rightarrow> holder option \<Rightarrow> bool" where
  "holder_ok s None = True"
| "holder_ok s (Some (Planning th ts w)) \<longleftrightarrow>
     thread_plans s th \<and> set ts \<subseteq> tasks_of (ts_exec s) \<and> (w \<longrightarrow> ts \<noteq> [])"
| "holder_ok s (Some (Passing th ts)) \<longleftrightarrow> thread_passes s th \<and> set ts \<subseteq> tasks_of (ts_exec s)"

definition runs_ok :: "executor \<Rightarrow> bool" where
  "runs_ok s \<longleftrightarrow> (\<forall>i r. e_runs s i = Some r \<longrightarrow> gr_task r \<in> tasks_of (ts_exec s) \<and> i < e_next_run s)"

lemma runs_okD: "runs_ok s \<Longrightarrow> e_runs s i = Some r \<Longrightarrow> gr_task r \<in> tasks_of (ts_exec s) \<and> i < e_next_run s"
  by (simp add: runs_ok_def)

lemma runs_ok_next: "runs_ok s \<Longrightarrow> e_runs s (e_next_run s) = None"
  by (metis less_irrefl not_None_eq runs_okD)

definition base_inv :: "executor \<Rightarrow> bool" where
  "base_inv s \<longleftrightarrow> runs_ok s \<and> holder_ok s (e_mu s) \<and> e_root s \<noteq> []"

section \<open>Preservation, operation by operation\<close>

text \<open>
  The operations in terms of the fields they leave alone. \<open>same_nodes\<close>: the nodes are
  as before except for pending invalidations.
\<close>

lemma op_invalidate_cases:
  assumes "op_invalidate g n t ev s = Some s'"
  obtains b m where "t \<in> tasks_of (ts_exec s)" "mark_invalid n g t ev (ts_exec s) = Some (b, m)"
    "s' = s\<lparr>ts_exec := m, e_senders := (if b then Suc (e_senders s) else e_senders s)\<rparr>"
  using assms
  by (auto simp: op_invalidate_def invalidate_panics_def tasks_of_def split: if_splits option.splits bool.splits)

lemma op_keep_cases:
  assumes "op_keep g n i s = Some s'"
  obtains r where "e_runs s i = Some r" "gr_pc r = G_keep" "s' = set_run i (after_keep r) s"
  | r b m where "e_runs s i = Some r" "gr_pc r = G_keep"
    "mark_invalid n g (gr_task r) KeepAliveStopped (ts_exec s) = Some (b, m)"
    "s' = set_run i (if b then r\<lparr>gr_pc := G_notify\<rparr> else after_keep r) (s\<lparr>ts_exec := m\<rparr>)"
  using assms
  by (auto simp: op_keep_def at_pc_Some split: if_splits option.splits bool.splits)

lemma gr_pc_after_keep: "gr_pc (after_keep r) = G_plan \<or> gr_pc (after_keep r) = G_pass"
  by (simp add: after_keep_def)

lemma gr_task_after_keep [simp]: "gr_task (after_keep r) = gr_task r"
  by (simp add: after_keep_def)

lemma set_run_simps [simp]:
  "ts_exec (set_run i r s) = ts_exec s" "e_mu (set_run i r s) = e_mu s"
  "e_root (set_run i r s) = e_root s" "e_next_run (set_run i r s) = e_next_run s"
  "e_runs (set_run i r s) = (e_runs s)(i \<mapsto> r)" "e_loop (set_run i r s) = e_loop s"
  "ts_cancelled (set_run i r s) = ts_cancelled s" "ts_next (set_run i r s) = ts_next s"
  "e_passes (set_run i r s) = e_passes s" "e_locks (set_run i r s) = e_locks s"
  "e_senders (set_run i r s) = e_senders s" "e_inv_ch (set_run i r s) = e_inv_ch s"
  "e_timer (set_run i r s) = e_timer s" "e_history (set_run i r s) = e_history s"
  by (simp_all add: set_run_def)

lemma publish_simps [simp]:
  "ts_exec (publish k t s) = ts_exec s" "e_mu (publish k t s) = e_mu s"
  "e_root (publish k t s) = e_root s" "e_next_run (publish k t s) = e_next_run s"
  "e_runs (publish k t s) = e_runs s" "e_loop (publish k t s) = e_loop s"
  "ts_cancelled (publish k t s) = ts_cancelled s" "ts_next (publish k t s) = ts_next s"
  "e_passes (publish k t s) = e_passes s" "e_locks (publish k t s) = e_locks s"
  "e_senders (publish k t s) = e_senders s" "e_inv_ch (publish k t s) = e_inv_ch s"
  "e_timer (publish k t s) = e_timer s" "e_history (publish k t s) = e_history s"
  by (simp_all add: publish_def)

lemma set_state_simps [simp]:
  "ts_exec (set_state t st s) = upd_exec t (\<lambda>e. e\<lparr>ex_state := st\<rparr>) (ts_exec s)"
  "e_mu (set_state t st s) = e_mu s"
  "e_root (set_state t st s) = e_root s" "e_next_run (set_state t st s) = e_next_run s"
  "e_runs (set_state t st s) = e_runs s" "e_loop (set_state t st s) = e_loop s"
  "ts_cancelled (set_state t st s) = ts_cancelled s" "ts_next (set_state t st s) = ts_next s"
  "e_passes (set_state t st s) = e_passes s" "e_locks (set_state t st s) = e_locks s"
  "e_senders (set_state t st s) = e_senders s" "e_inv_ch (set_state t st s) = e_inv_ch s"
  "e_timer (set_state t st s) = e_timer s"
  "e_history (set_state t st s) = e_history s @ [(t, st)]"
  by (simp_all add: set_state_def)

lemma spawn_simps [simp]:
  "ts_exec (spawn t s) = upd_exec t (\<lambda>e. e\<lparr>ex_state := St_running\<rparr>) (ts_exec s)"
  "e_mu (spawn t s) = e_mu s"
  "e_root (spawn t s) = e_root s" "e_next_run (spawn t s) = Suc (e_next_run s)"
  "e_runs (spawn t s) = (e_runs s)(e_next_run s \<mapsto> new_run t)" "e_loop (spawn t s) = e_loop s"
  "ts_cancelled (spawn t s) = ts_cancelled s" "ts_next (spawn t s) = ts_next s"
  "e_passes (spawn t s) = e_passes s" "e_locks (spawn t s) = e_locks s"
  "e_senders (spawn t s) = e_senders s" "e_inv_ch (spawn t s) = e_inv_ch s"
  "e_timer (spawn t s) = e_timer s"
  "e_history (spawn t s) = e_history s @ [(t, St_running)]"
  by (simp_all add: spawn_def)

lemma new_run_simps [simp]:
  "gr_task (new_run t) = t" "gr_pc (new_run t) = G_start" "gr_err (new_run t) = None"
  by (simp_all add: new_run_def)

lemma invalidate_begin_more [simp]:
  "e_mu (invalidate_begin root t s) = e_mu s" "e_root (invalidate_begin root t s) = e_root s"
  "e_next_run (invalidate_begin root t s) = e_next_run s"
  "e_runs (invalidate_begin root t s) = e_runs s" "e_loop (invalidate_begin root t s) = e_loop s"
  "e_passes (invalidate_begin root t s) = e_passes s"
  "e_locks (invalidate_begin root t s) = e_locks s"
  "e_senders (invalidate_begin root t s) = e_senders s"
  "e_inv_ch (invalidate_begin root t s) = e_inv_ch s"
  "e_timer (invalidate_begin root t s) = e_timer s"
  "e_history (invalidate_begin root t s) = e_history s"
  by (simp_all add: invalidate_begin_def with_cancel_def cancel_exec_def)

text \<open>Marking touches no node outside the map: such a node counts as invalid.\<close>

lemma mark_invalid_dom:
  "mark_invalid n g t ev m = Some (b, m') \<Longrightarrow> dom m' = dom m"
proof (induction n arbitrary: t ev m b m')
  case 0
  then show ?case by simp
next
  case (Suc n)
  have deps: "dom m2 = dom m1" if "mark_dependents (mark_invalid n g) t ds m1 = Some m2" for ds m1 m2
    using that
  proof (induction ds arbitrary: m1)
    case Nil
    then show ?case by simp
  next
    case (Cons d ds)
    then obtain b m3 where "mark_invalid n g d (DependencyChange t) m1 = Some (b, m3)"
      and "mark_dependents (mark_invalid n g) t ds m3 = Some m2"
      by (auto split: option.splits)
    with Cons.IH Suc.IH show ?case by metis
  qed
  show ?case
  proof (cases "accepts g m t ev")
    case False
    with Suc.prems show ?thesis by (auto simp: accepts_def split: if_splits)
  next
    case True
    then have "t \<in> dom m" by (auto simp: accepts_def exec_of_def new_execution_def split: option.splits)
    then have "dom (upd_exec t f m) = dom m" for f by simp
    moreover from True Suc.prems obtain f where
      "mark_dependents (mark_invalid n g) t (ex_dependents (exec_of m t)) (upd_exec t f m) = Some m'"
      by (auto simp: accepts_def Let_def split: option.splits)
    ultimately show ?thesis using deps by metis
  qed
qed

lemma mark_invalid_tasks:
  "mark_invalid n g t ev m = Some (b, m') \<Longrightarrow> tasks_of m' = tasks_of m"
  by (simp add: tasks_of_def mark_invalid_dom)

lemma op_plan_next_cases:
  assumes "op_plan_next s = Some s'"
  obtains
    (skip) th t ts where "e_mu s = Some (Planning th (t # ts) False)"
      "invalidate_skips (ts_exec s) t" "s' = s\<lparr>e_mu := Some (Planning th ts False)\<rparr>"
  | (stop) th t ts where "e_mu s = Some (Planning th (t # ts) False)"
      "\<not> invalidate_skips (ts_exec s) t"
      "s' = (invalidate_begin (e_root s) t s)\<lparr>e_mu := Some (Planning th (t # ts) True),
         e_history := e_history s @ [(t, St_invalid)]\<rparr>"
  | (done_run) i r where "e_mu s = Some (Planning (Th_run i) [] False)" "e_runs s i = Some r"
      "s' = set_run i (r\<lparr>gr_pc := G_pass\<rparr>) (s\<lparr>e_mu := None\<rparr>)"
  | (done_loop) "e_mu s = Some (Planning Th_loop [] False)"
      "s' = s\<lparr>e_mu := None, e_loop := L_idle, e_passes := Suc (e_passes s)\<rparr>"
  using assms unfolding op_plan_next_def
  by (auto split: option.splits holder.splits list.splits bool.splits thread.splits if_splits)

lemma op_plan_wait_cases:
  assumes "op_plan_wait s = Some s'"
  obtains th t ts where "e_mu s = Some (Planning th (t # ts) True)" "ex_terminal (node s t) > 0"
    "s' = s\<lparr>ts_exec := upd_exec t (\<lambda>e. e\<lparr>ex_terminal := 0, ex_pending := {}\<rparr>) (ts_exec s),
       e_mu := Some (Planning th ts False)\<rparr>"
  using assms unfolding op_plan_wait_def
  by (auto simp: invalidate_end_def split: option.splits holder.splits list.splits bool.splits
      if_splits)

lemma op_visit_cases:
  assumes "op_visit s = Some s'"
  obtains
    (run) th t ts where "e_mu s = Some (Passing th (t # ts))" "should_execute (ts_exec s) t"
      "s' = (spawn t s)\<lparr>e_mu := Some (Passing th ts)\<rparr>"
  | (pass) th t ts where "e_mu s = Some (Passing th (t # ts))" "\<not> should_execute (ts_exec s) t"
      "s' = s\<lparr>e_mu := Some (Passing th ts)\<rparr>"
  | (done_run) i r where "e_mu s = Some (Passing (Th_run i) [])" "e_runs s i = Some r"
      "s' = set_run i (r\<lparr>gr_pc := G_return\<rparr>) (s\<lparr>e_mu := None\<rparr>)"
  | (done_pass) "e_mu s = Some (Passing Th_pass [])" "s' = s\<lparr>e_mu := None\<rparr>"
  using assms unfolding op_visit_def
  by (auto split: option.splits holder.splits list.splits thread.splits if_splits)

lemma begin_plan_Some:
  "begin_plan th ord s = Some s' \<longleftrightarrow> e_mu s = None \<and>
     s' = s\<lparr>e_mu := Some (Planning th (filter (plan_selects (ts_exec s)) ord) False),
       e_events := e_events s @
         map (\<lambda>t. (Ev_invalidated, t)) (filter (plan_selects (ts_exec s)) ord)\<rparr>"
  by (auto simp: begin_plan_def Let_def)

section \<open>The base invariant\<close>

lemma holder_ok_mono:
  assumes "holder_ok s h"
    and "\<And>i r. e_runs s i = Some r \<Longrightarrow> gr_pc r \<in> {G_plan, G_lock} \<Longrightarrow>
      \<exists>r'. e_runs s' i = Some r' \<and> gr_pc r' = gr_pc r"
    and "e_loop s = L_plan \<Longrightarrow> e_loop s' = L_plan" and "tasks_of (ts_exec s) \<subseteq> tasks_of (ts_exec s')"
  shows "holder_ok s' h"
proof -
  have "thread_plans s' th" if "thread_plans s th" for th
    using that assms(2,3) by (fastforce simp: thread_plans_def split: thread.splits)
  moreover have "thread_passes s' th" if "thread_passes s th" for th
    using that assms(2) by (fastforce simp: thread_passes_def split: thread.splits)
  ultimately show ?thesis
    using assms(1,4) by (cases "(s, h)" rule: holder_ok.cases) auto
qed

text \<open>
  A step of a run that is neither in its plan nor at the lock keeps the holder, whatever it
  does to the rest.
\<close>

lemma base_inv_run:
  assumes "base_inv s" and "e_runs s i = Some r" and "gr_pc r \<notin> {G_plan, G_lock}"
    and "e_runs s' = (e_runs s)(i \<mapsto> r')" and "gr_task r' = gr_task r"
    and "e_loop s' = e_loop s" and "tasks_of (ts_exec s') = tasks_of (ts_exec s)"
    and "e_mu s' = e_mu s" and "e_root s' = e_root s" and "e_next_run s' = e_next_run s"
  shows "base_inv s'"
proof -
  have "holder_ok s' (e_mu s)"
    using assms(1) unfolding base_inv_def
    by (intro holder_ok_mono [of s "e_mu s" s']) (use assms in auto)
  moreover have "runs_ok s'"
    using assms unfolding base_inv_def runs_ok_def by (auto split: if_splits)
  ultimately show ?thesis using assms by (simp add: base_inv_def)
qed

text \<open>A step that leaves runs, loop, lock and the set of nodes alone.\<close>

lemma base_inv_frame:
  assumes "base_inv s" and "e_runs s' = e_runs s" and "e_loop s' = e_loop s"
    and "tasks_of (ts_exec s') = tasks_of (ts_exec s)" and "e_mu s' = e_mu s"
    and "e_root s' = e_root s" and "e_next_run s' = e_next_run s"
  shows "base_inv s'"
proof -
  have "holder_ok s' (e_mu s)"
    using assms(1) unfolding base_inv_def
    by (intro holder_ok_mono [of s "e_mu s" s']) (use assms in auto)
  then show ?thesis using assms by (simp add: base_inv_def runs_ok_def)
qed

lemma base_inv_plan:
  assumes "base_inv s" and "thread_plans s th" and "is_order ord (ts_exec s)"
    and "begin_plan th ord s = Some s'"
  shows "base_inv s'"
proof -
  from assms(4) have s': "e_mu s' = Some (Planning th (filter (plan_selects (ts_exec s)) ord) False)"
    "e_runs s' = e_runs s" "e_loop s' = e_loop s" "ts_exec s' = ts_exec s" "e_root s' = e_root s"
    "e_next_run s' = e_next_run s"
    by (simp_all add: begin_plan_Some)
  then have "thread_plans s' th"
    using assms(2) by (simp add: thread_plans_def cong: thread.case_cong)
  with s' assms(1,3) show ?thesis
    by (auto simp: base_inv_def is_order_tasks runs_ok_def)
qed

lemma base_inv_visit:
  assumes "base_inv s" and "op_visit s = Some s'"
  shows "base_inv s'"
  using assms(2)
proof (cases rule: op_visit_cases)
  case (run th t ts)
  with assms(1) have t: "t \<in> tasks_of (ts_exec s)" and fresh: "e_runs s (e_next_run s) = None"
    by (auto simp: base_inv_def runs_ok_next)
  have "thread_passes s' th"
    using assms(1) run fresh
    by (auto simp: base_inv_def thread_passes_def split: thread.splits)
  moreover have "runs_ok s'"
    using assms(1) run t
    by (auto simp: base_inv_def runs_ok_def less_Suc_eq split: if_splits)
  ultimately show ?thesis using assms(1) run t by (simp add: base_inv_def)
next
  case (pass th t ts)
  with assms(1) show ?thesis
    by (auto simp: base_inv_def runs_ok_def thread_passes_def split: thread.splits)
next
  case (done_run i r)
  with assms(1) show ?thesis by (auto simp: base_inv_def runs_ok_def)
next
  case done_pass
  with assms(1) show ?thesis by (auto simp: base_inv_def runs_ok_def)
qed

lemma base_inv_plan_next:
  assumes "base_inv s" and "op_plan_next s = Some s'"
  shows "base_inv s'"
  using assms(2)
proof (cases rule: op_plan_next_cases)
  case (skip th t ts)
  with assms(1) show ?thesis
    by (auto simp: base_inv_def runs_ok_def thread_plans_def split: thread.splits)
next
  case (stop th t ts)
  with assms(1) have "t \<in> tasks_of (ts_exec s)" by (simp add: base_inv_def)
  with stop assms(1) show ?thesis
    by (auto simp: base_inv_def runs_ok_def thread_plans_def split: thread.splits)
next
  case (done_run i r)
  with assms(1) show ?thesis by (auto simp: base_inv_def runs_ok_def)
next
  case done_loop
  with assms(1) show ?thesis by (auto simp: base_inv_def runs_ok_def)
qed

lemma base_inv_plan_wait:
  assumes "base_inv s" and "op_plan_wait s = Some s'"
  shows "base_inv s'"
  using assms(2)
proof (cases rule: op_plan_wait_cases)
  case (1 th t ts)
  with assms(1) have "t \<in> tasks_of (ts_exec s)" by (simp add: base_inv_def)
  with 1 assms(1) show ?thesis
    by (auto simp: base_inv_def runs_ok_def thread_plans_def split: thread.splits)
qed

lemma base_inv_action:
  assumes inv: "base_inv s" and act: "do_action g a s = Some s'"
  shows "base_inv s'"
proof (cases a)
  case (A_write i)
  with act obtain r where r: "e_runs s i = Some r" "gr_pc r = G_write"
    "s' = set_run i (r\<lparr>gr_pc := G_publish\<rparr>) (case gr_verdict r of
          V_canceled \<Rightarrow> if root_done s then set_state (gr_task r) St_canceled s else s
        | V_failed \<Rightarrow> set_state (gr_task r) St_error s
        | V_done \<Rightarrow> set_state (gr_task r) St_done s)"
    by (auto simp: op_write_def at_pc_Some)
  moreover have "gr_task r \<in> tasks_of (ts_exec s)"
    using inv r by (simp add: base_inv_def runs_okD)
  ultimately show ?thesis
    by (intro base_inv_run [OF inv, of i r s' "r\<lparr>gr_pc := G_publish\<rparr>"])
      (auto split: verdict.splits)
next
  case (A_send i)
  with act obtain r where r: "e_runs s i = Some r" "gr_pc r = G_send"
    "s' = set_run i (r\<lparr>gr_pc := G_keep\<rparr>) (s\<lparr>ts_exec := upd_exec (gr_task r)
       (\<lambda>e. e\<lparr>ex_terminal := Suc (ex_terminal e)\<rparr>) (ts_exec s)\<rparr>)"
    by (auto simp: op_send_def at_pc_Some split: if_splits)
  moreover have "gr_task r \<in> tasks_of (ts_exec s)"
    using inv r by (simp add: base_inv_def runs_okD)
  ultimately show ?thesis
    by (intro base_inv_run [OF inv, of i r s' "r\<lparr>gr_pc := G_keep\<rparr>"]) auto
next
  case (A_keep n i)
  with act have "op_keep g n i s = Some s'" by simp
  then show ?thesis
    by (cases rule: op_keep_cases)
      (auto intro!: base_inv_run [OF inv] simp: mark_invalid_tasks)
next
  case (A_plan_run i ord)
  with act have "is_order ord (ts_exec s)" "begin_plan (Th_run i) ord s = Some s'"
    "thread_plans s (Th_run i)"
    by (auto simp: ordered_Some op_plan_run_def at_pc_Some thread_plans_def)
  with inv show ?thesis by (blast intro: base_inv_plan)
next
  case (A_plan_loop ord)
  with act have "is_order ord (ts_exec s)" "begin_plan Th_loop ord s = Some s'"
    "thread_plans s Th_loop"
    by (auto simp: ordered_Some op_plan_loop_def thread_plans_def split: if_splits)
  with inv show ?thesis by (blast intro: base_inv_plan)
next
  case A_plan_next
  with act inv show ?thesis by (auto intro: base_inv_plan_next)
next
  case A_plan_wait
  with act inv show ?thesis by (auto intro: base_inv_plan_wait)
next
  case A_visit
  with act inv show ?thesis by (auto intro: base_inv_visit)
next
  case (A_lock_pass ord)
  with act inv show ?thesis
    by (auto simp: ordered_Some op_lock_pass_def base_inv_def runs_ok_def thread_passes_def
        is_order_tasks split: nat.splits if_splits)
next
  case (A_lock_run i ord)
  with act inv show ?thesis
    by (auto simp: ordered_Some op_lock_run_def at_pc_Some base_inv_def runs_ok_def
        thread_passes_def is_order_tasks split: if_splits)
next
  case (A_invalidate n t ev)
  with act have "op_invalidate g n t ev s = Some s'" by simp
  then show ?thesis
    by (cases rule: op_invalidate_cases) (auto intro!: base_inv_frame [OF inv] simp: mark_invalid_tasks)
next
  case (A_return i)
  with act obtain r where r: "e_runs s i = Some r" "gr_pc r = G_return"
    and s': "e_runs s' = (e_runs s)(i := None)" "e_loop s' = e_loop s" "ts_exec s' = ts_exec s"
      "e_mu s' = e_mu s" "e_root s' = e_root s" "e_next_run s' = e_next_run s"
    by (auto simp: op_return_def at_pc_Some)
  have "holder_ok s' (e_mu s)"
    using inv unfolding base_inv_def
    by (intro holder_ok_mono [of s "e_mu s" s']) (use r s' in auto)
  with inv s' show ?thesis by (auto simp: base_inv_def runs_ok_def split: if_splits)
next
  case A_loop_timer
  with act inv show ?thesis
    by (auto simp: op_loop_timer_def base_inv_def runs_ok_def split: if_splits
        intro: holder_ok_mono [of s])
next
  case A_loop_exit
  with act inv show ?thesis
    by (auto simp: op_loop_exit_def base_inv_def runs_ok_def split: if_splits
        intro: holder_ok_mono [of s])
next
  case (A_start i)
  with act show ?thesis
    by (auto simp: op_start_def at_pc_Some intro!: base_inv_run [OF inv])
next
  case (A_body i e)
  with act show ?thesis by (auto simp: op_body_def at_pc_Some split: if_splits intro!: base_inv_run [OF inv])
next
  case (A_check i)
  with act show ?thesis by (auto simp: op_check_def at_pc_Some intro!: base_inv_run [OF inv])
next
  case (A_publish i)
  with act show ?thesis by (auto simp: op_publish_def at_pc_Some intro!: base_inv_run [OF inv])
next
  case (A_notify i)
  with act show ?thesis by (auto simp: op_notify_def at_pc_Some split: if_splits intro!: base_inv_run [OF inv])
next
  case (A_pass_test i)
  with act show ?thesis by (auto simp: op_pass_test_def at_pc_Some intro!: base_inv_run [OF inv])
next
  case A_test_pass
  with act show ?thesis
    by (auto simp: op_test_pass_def split: nat.splits if_splits intro!: base_inv_frame [OF inv])
next
  case A_notify_ch
  with act show ?thesis
    by (auto simp: op_notify_ch_def split: nat.splits if_splits intro!: base_inv_frame [OF inv])
next
  case A_loop_recv
  with act show ?thesis
    by (auto simp: op_loop_recv_def split: if_splits intro!: base_inv_frame [OF inv])
next
  case A_shutdown
  with act show ?thesis
    by (auto simp: op_shutdown_def intro!: base_inv_frame [OF inv])
qed

section \<open>What the terminal channels hold\<close>

text \<open>
  \<open>live s x\<close>: the runs of \<open>x\<close> that have yet to send to its terminal channel. There is at most
  one, and while there is one the channel is empty; the channel never holds more than one
  message. A node in state invalid that no plan is waiting for is idle: no such run, no
  message, nothing pending.
\<close>

definition live :: "executor \<Rightarrow> tid \<Rightarrow> nat set" where
  "live s x = {i. \<exists>r. e_runs s i = Some r \<and> unsent r \<and> gr_task r = x}"

definition load_at :: "nat set \<Rightarrow> bool \<Rightarrow> execution \<Rightarrow> bool" where
  "load_at L w e \<longleftrightarrow>
     (L = {} \<or> (\<exists>i. L = {i}) \<and> ex_terminal e = 0) \<and> ex_terminal e \<le> 1 \<and>
     (ex_state e = St_invalid \<and> \<not> w \<longrightarrow> ex_terminal e = 0 \<and> ex_pending e = {} \<and> L = {})"

definition load_inv :: "executor \<Rightarrow> bool" where
  "load_inv s \<longleftrightarrow> (\<forall>x. load_at (live s x) (waiting s x) (node s x))"

lemma load_invD: "load_inv s \<Longrightarrow> load_at (live s x) (waiting s x) (node s x)"
  by (simp add: load_inv_def)

lemma liveI: "e_runs s i = Some r \<Longrightarrow> unsent r \<Longrightarrow> i \<in> live s (gr_task r)"
  by (auto simp: live_def)

text \<open>How the live runs change: not at all, by one exit, or by one start.\<close>

lemma live_same: "e_runs s' = e_runs s \<Longrightarrow> live s' = live s"
  by (simp add: live_def fun_eq_iff)

lemma live_run:
  assumes "e_runs s i = Some r" "e_runs s' = (e_runs s)(i \<mapsto> r')" "gr_task r' = gr_task r"
    and "unsent r' = unsent r"
  shows "live s' = live s"
  using assms by (auto simp: live_def fun_eq_iff split: if_splits)

lemma live_exit:
  assumes "e_runs s i = Some r" "e_runs s' = (e_runs s)(i \<mapsto> r')" "\<not> unsent r'" "unsent r"
  shows "live s' x = (if x = gr_task r then live s x - {i} else live s x)"
  using assms by (auto simp: live_def split: if_splits)

lemma live_gone:
  assumes "e_runs s i = Some r" "e_runs s' = (e_runs s)(i := None)" "\<not> unsent r"
  shows "live s' = live s"
  using assms by (auto simp: live_def fun_eq_iff split: if_splits)

lemma live_spawn:
  assumes "e_runs s n = None" "e_runs s' = (e_runs s)(n \<mapsto> r)" "unsent r"
  shows "live s' x = (if x = gr_task r then insert n (live s x) else live s x)"
  using assms by (auto simp: live_def split: if_splits)

lemma waiting_frame: "e_mu s' = e_mu s \<Longrightarrow> waiting s' = waiting s"
  by (simp add: waiting_def fun_eq_iff)

lemma waiting_holder:
  "e_mu s = None \<Longrightarrow> waiting s x = False" "e_mu s = Some (Passing th ts) \<Longrightarrow> waiting s x = False"
  "e_mu s = Some (Planning th ts False) \<Longrightarrow> waiting s x = False"
  "e_mu s = Some (Planning th (t # ts) True) \<Longrightarrow> waiting s x \<longleftrightarrow> x = t"
  by (auto simp: waiting_def)

text \<open>
  What a step may do to a node without more ado: leave it, or leave it non-invalid with the
  same number of messages, or stop waiting for nobody.
\<close>

lemma load_inv_frame:
  assumes "load_inv s" and "live s' = live s" and "\<And>x. waiting s x = waiting s' x"
    and "\<And>x. ex_terminal (node s' x) = ex_terminal (node s x)"
    and "\<And>x. ex_state (node s' x) = St_invalid \<Longrightarrow>
      ex_state (node s x) = St_invalid \<and> ex_pending (node s' x) = ex_pending (node s x)"
  shows "load_inv s'"
  using assms unfolding load_inv_def load_at_def by metis

lemma load_inv_same:
  assumes "load_inv s" and "live s' = live s" and "waiting s' = waiting s"
    and "ts_exec s' = ts_exec s"
  shows "load_inv s'"
  using assms unfolding load_inv_def by simp

lemma load_inv_run:
  assumes "load_inv s" and "e_runs s i = Some r" and "e_runs s' = (e_runs s)(i \<mapsto> r')"
    and "gr_task r' = gr_task r" and "unsent r' = unsent r"
    and "ts_exec s' = ts_exec s" and "waiting s' = waiting s"
  shows "load_inv s'"
  by (rule load_inv_same [OF assms(1) live_run [OF assms(2-5)] assms(7,6)])

text \<open>Marking a node leaves it invalid or not, and adds nothing to an invalid one.\<close>

lemma marked_load_state:
  assumes "mark_invalid n g t ev m = Some (b, m')" and "ex_state (exec_of m' x) = St_invalid"
  shows "ex_state (exec_of m x) = St_invalid \<and> ex_pending (exec_of m' x) = ex_pending (exec_of m x)"
proof -
  from assms(1) have mk: "marked (marks g m t ev) m m'"
    using mark_invalid_marked by blast
  with assms(2) have inv: "ex_state (exec_of m x) = St_invalid"
    by (simp add: marked_fields [OF mk])
  have "(x, e) \<notin> marks g m t ev" for e
    using inv by (auto simp: accepts_def elim: marks.cases)
  with inv show ?thesis by (simp add: marked_fields [OF mk])
qed

lemma mark_invalid_fields:
  assumes "mark_invalid n g t ev m = Some (b, m')"
  shows "ex_ctx (exec_of m' x) = ex_ctx (exec_of m x)"
    "ex_state (exec_of m' x) = ex_state (exec_of m x)"
    "ex_terminal (exec_of m' x) = ex_terminal (exec_of m x)"
    "ex_dependencies (exec_of m' x) = ex_dependencies (exec_of m x)"
    "ex_dependents (exec_of m' x) = ex_dependents (exec_of m x)"
proof -
  from assms have mk: "marked (marks g m t ev) m m'" using mark_invalid_marked by blast
  show "ex_ctx (exec_of m' x) = ex_ctx (exec_of m x)"
    "ex_state (exec_of m' x) = ex_state (exec_of m x)"
    "ex_terminal (exec_of m' x) = ex_terminal (exec_of m x)"
    "ex_dependencies (exec_of m' x) = ex_dependencies (exec_of m x)"
    "ex_dependents (exec_of m' x) = ex_dependents (exec_of m x)"
    by (simp_all add: marked_fields [OF mk])
qed

lemma load_inv_mark:
  assumes inv: "load_inv s" and mark: "mark_invalid n g t ev (ts_exec s) = Some (b, m)"
    and s': "live s' = live s" "waiting s' = waiting s" "ts_exec s' = m"
  shows "load_inv s'"
  by (rule load_inv_frame [OF inv s'(1)])
    (use s' marked_load_state [OF mark] mark_invalid_fields [OF mark] in \<open>simp_all\<close>)

text \<open>The thread that holds the lock is past its exit.\<close>

lemma holder_run:
  assumes "base_inv s" and "e_runs s i = Some r"
  shows "e_mu s = Some (Planning (Th_run i) ts w) \<Longrightarrow> gr_pc r = G_plan"
    "e_mu s = Some (Passing (Th_run i) ts) \<Longrightarrow> gr_pc r = G_lock"
  using assms by (auto simp: base_inv_def thread_plans_def thread_passes_def)

lemma load_inv_plan_next:
  assumes inv: "load_inv s" and base: "base_inv s" and act: "op_plan_next s = Some s'"
  shows "load_inv s'"
  using act
proof (cases rule: op_plan_next_cases)
  case (skip th t ts)
  then show ?thesis
    by (intro load_inv_same [OF inv] live_same) (auto simp: fun_eq_iff waiting_holder)
next
  case (stop th t ts)
  have node: "node s' x = (if x = t then (node s t)\<lparr>ex_state := St_invalid,
      ex_ctx := ts_next s # e_root s\<rparr> else node s x)" for x
    using stop by simp
  have live: "live s' = live s" using stop by (intro live_same) simp
  have "waiting s' x \<longleftrightarrow> x = t" "\<not> waiting s x" for x
    using stop by (auto simp: waiting_def)
  with load_invD [OF inv] show ?thesis
    unfolding load_inv_def live by (simp add: node load_at_def)
next
  case (done_run i r)
  with base have "\<not> unsent r" by (auto dest: holder_run simp: unsent_def)
  with done_run show ?thesis
    by (intro load_inv_run [OF inv, of i r _ "r\<lparr>gr_pc := G_pass\<rparr>"])
      (auto simp: unsent_def fun_eq_iff waiting_holder)
next
  case done_loop
  then show ?thesis
    by (intro load_inv_same [OF inv] live_same) (auto simp: fun_eq_iff waiting_holder)
qed

lemma load_inv_plan_wait:
  assumes inv: "load_inv s" and act: "op_plan_wait s = Some s'"
  shows "load_inv s'"
  using act
proof (cases rule: op_plan_wait_cases)
  case (1 th t ts)
  have node: "node s' x = (if x = t then (node s t)\<lparr>ex_terminal := 0, ex_pending := {}\<rparr>
      else node s x)" for x
    using 1 by simp
  have live: "live s' = live s" using 1 by (intro live_same) simp
  have w: "waiting s x \<longleftrightarrow> x = t" "\<not> waiting s' x" for x
    using 1 by (auto simp: waiting_def)
  have "live s t = {}"
    using load_invD [OF inv, of t] 1 by (auto simp: load_at_def)
  with load_invD [OF inv] w show ?thesis
    unfolding load_inv_def live by (simp add: node load_at_def)
qed

lemma load_inv_visit:
  assumes inv: "load_inv s" and base: "base_inv s" and act: "op_visit s = Some s'"
  shows "load_inv s'"
  using act
proof (cases rule: op_visit_cases)
  case (run th t ts)
  have node: "node s' x = (if x = t then (node s t)\<lparr>ex_state := St_running\<rparr> else node s x)" for x
    using run by simp
  have live: "live s' x = (if x = t then insert (e_next_run s) (live s x) else live s x)" for x
    using live_spawn [of s "e_next_run s" s' "new_run t" x] run base
    by (simp add: base_inv_def runs_ok_next unsent_def)
  have w: "waiting s x = False" "waiting s' x = False" for x
    using run by (simp_all add: waiting_def)
  have "ex_state (node s t) = St_invalid" using run by (simp add: should_execute_iff)
  with load_invD [OF inv, of t] have "live s t = {}" "ex_terminal (node s t) = 0"
    by (simp_all add: load_at_def w)
  with load_invD [OF inv] show ?thesis
    unfolding load_inv_def by (simp add: node live w load_at_def)
next
  case (pass th t ts)
  then show ?thesis
    by (intro load_inv_same [OF inv] live_same) (auto simp: fun_eq_iff waiting_holder)
next
  case (done_run i r)
  with base have "\<not> unsent r" by (auto dest: holder_run simp: unsent_def)
  with done_run show ?thesis
    by (intro load_inv_run [OF inv, of i r _ "r\<lparr>gr_pc := G_return\<rparr>"])
      (auto simp: unsent_def fun_eq_iff waiting_holder)
next
  case done_pass
  then show ?thesis
    by (intro load_inv_same [OF inv] live_same) (auto simp: fun_eq_iff waiting_holder)
qed

lemma op_send_cases:
  assumes "op_send i s = Some s'"
  obtains r where "e_runs s i = Some r" "gr_pc r = G_send" "ex_terminal (node s (gr_task r)) = 0"
    "s' = set_run i (r\<lparr>gr_pc := G_keep\<rparr>) (s\<lparr>ts_exec := upd_exec (gr_task r)
       (\<lambda>e. e\<lparr>ex_terminal := Suc (ex_terminal e)\<rparr>) (ts_exec s)\<rparr>)"
  using assms by (auto simp: op_send_def at_pc_Some split: if_splits)

lemma load_inv_send:
  assumes inv: "load_inv s" and act: "op_send i s = Some s'"
  shows "load_inv s'"
  using act
proof (cases rule: op_send_cases)
  case (1 r)
  let ?t = "gr_task r"
  have u: "unsent r" using 1 by (simp add: unsent_def)
  have node: "node s' x = (if x = ?t then (node s x)\<lparr>ex_terminal := 1\<rparr> else node s x)" for x
    using 1 by simp
  have w: "waiting s' = waiting s" using 1 by (simp add: waiting_def fun_eq_iff)
  have live: "live s' x = (if x = ?t then live s x - {i} else live s x)" for x
    using 1 u by (intro live_exit [where r' = "r\<lparr>gr_pc := G_keep\<rparr>"]) (simp_all add: unsent_def)
  have "live s ?t = {i}"
    using load_invD [OF inv, of ?t] liveI [OF 1(1) u] by (auto simp: load_at_def)
  moreover have "ex_state (node s ?t) = St_invalid \<Longrightarrow> waiting s ?t"
    using load_invD [OF inv, of ?t] calculation by (auto simp: load_at_def)
  ultimately show ?thesis
    using load_invD [OF inv] unfolding load_inv_def by (simp add: node live w load_at_def)
qed

lemma op_write_cases:
  assumes "op_write i s = Some s'"
  obtains r where "e_runs s i = Some r" "gr_pc r = G_write" "gr_verdict r = V_canceled"
      "\<not> root_done s" "s' = set_run i (r\<lparr>gr_pc := G_publish\<rparr>) s"
  | r st where "e_runs s i = Some r" "gr_pc r = G_write"
      "gr_verdict r = V_canceled \<and> root_done s \<and> st = St_canceled \<or>
       gr_verdict r = V_failed \<and> st = St_error \<or> gr_verdict r = V_done \<and> st = St_done"
      "s' = set_run i (r\<lparr>gr_pc := G_publish\<rparr>) (set_state (gr_task r) st s)"
proof -
  from assms obtain r where r: "e_runs s i = Some r" "gr_pc r = G_write"
    and s': "s' = set_run i (r\<lparr>gr_pc := G_publish\<rparr>) (case gr_verdict r of
          V_canceled \<Rightarrow> if root_done s then set_state (gr_task r) St_canceled s else s
        | V_failed \<Rightarrow> set_state (gr_task r) St_error s
        | V_done \<Rightarrow> set_state (gr_task r) St_done s)"
    by (auto simp: op_write_def at_pc_Some)
  show thesis
    by (cases "gr_verdict r"; cases "root_done s")
      (use r s' that in \<open>fastforce+\<close>)
qed

lemma load_inv_write:
  assumes inv: "load_inv s" and act: "op_write i s = Some s'"
  shows "load_inv s'"
  using act
proof (cases rule: op_write_cases)
  case (1 r)
  then show ?thesis
    by (intro load_inv_run [OF inv, of i r _ "r\<lparr>gr_pc := G_publish\<rparr>"])
      (auto simp: unsent_def waiting_def fun_eq_iff)
next
  case (2 r st)
  then have "live s' = live s"
    by (intro live_run [of s i r _ "r\<lparr>gr_pc := G_publish\<rparr>"]) (auto simp: unsent_def)
  with 2 show ?thesis
    by (intro load_inv_frame [OF inv]) (auto simp: waiting_def)
qed

lemma load_inv_keep:
  assumes inv: "load_inv s" and act: "op_keep g n i s = Some s'"
  shows "load_inv s'"
  using act
proof (cases rule: op_keep_cases)
  case (1 r)
  then show ?thesis
    by (intro load_inv_run [OF inv, of i r _ "after_keep r"])
      (auto simp: unsent_def waiting_def fun_eq_iff after_keep_def)
next
  case (2 r b m)
  then have "live s' = live s"
    by (intro live_run [of s i r _ "if b then r\<lparr>gr_pc := G_notify\<rparr> else after_keep r"])
      (auto simp: unsent_def after_keep_def)
  with 2 show ?thesis
    by (intro load_inv_mark [OF inv 2(3)]) (auto simp: waiting_def fun_eq_iff)
qed

lemma load_inv_action:
  assumes inv: "load_inv s" and base: "base_inv s" and act: "do_action g a s = Some s'"
  shows "load_inv s'"
proof -
  note run = load_inv_run [OF inv] and same = load_inv_same [OF inv live_same]
  note frame = waiting_def fun_eq_iff unsent_def ordered_Some at_pc_Some
  show ?thesis
  proof (cases a)
    case (A_return i)
    with act show ?thesis
      by (auto simp: op_return_def at_pc_Some waiting_def unsent_def fun_eq_iff
          intro!: load_inv_same [OF inv live_gone])
  next
    case (A_invalidate n t ev)
    with act have "op_invalidate g n t ev s = Some s'" by simp
    then show ?thesis
      by (cases rule: op_invalidate_cases)
        (auto intro!: load_inv_mark [OF inv] live_same simp: waiting_def fun_eq_iff)
  next
    case (A_start i)
    with act show ?thesis by (auto simp: op_start_def frame intro!: run)
  next
    case (A_body i e)
    with act show ?thesis by (auto simp: op_body_def frame split: if_splits intro!: run)
  next
    case (A_check i)
    with act show ?thesis by (auto simp: op_check_def frame intro!: run)
  next
    case (A_publish i)
    with act show ?thesis by (auto simp: op_publish_def frame intro!: run)
  next
    case (A_notify i)
    with act show ?thesis
      by (auto simp: op_notify_def frame after_keep_def split: if_splits intro!: run)
  next
    case (A_pass_test i)
    with act show ?thesis by (auto simp: op_pass_test_def frame split: if_splits intro!: run)
  next
    case (A_write i)
    with act inv show ?thesis by (auto intro: load_inv_write)
  next
    case (A_keep n i)
    with act inv show ?thesis by (auto intro: load_inv_keep)
  next
    case (A_send i)
    with act inv show ?thesis by (auto intro: load_inv_send)
  next
    case A_plan_next
    with act inv base show ?thesis by (auto intro: load_inv_plan_next)
  next
    case A_plan_wait
    with act inv show ?thesis by (auto intro: load_inv_plan_wait)
  next
    case A_visit
    with act inv base show ?thesis by (auto intro: load_inv_visit)
  next
    case (A_plan_run i ord)
    with act show ?thesis
      by (auto simp: op_plan_run_def begin_plan_Some frame intro!: same)
  next
    case (A_plan_loop ord)
    with act show ?thesis
      by (auto simp: op_plan_loop_def begin_plan_Some frame split: if_splits intro!: same)
  next
    case (A_lock_run i ord)
    with act show ?thesis
      by (auto simp: op_lock_run_def frame split: if_splits intro!: same)
  next
    case (A_lock_pass ord)
    with act show ?thesis
      by (auto simp: op_lock_pass_def frame split: nat.splits if_splits intro!: same)
  qed (use act in \<open>auto simp: op_defs waiting_def fun_eq_iff split: if_splits nat.splits
        intro!: same\<close>)
qed

end
