(* ===== verification/ExecutorEffects.thy ===== *)
theory ExecutorEffects
  imports ExecutorInv
begin

text \<open>
  What a step of the executor's machine does to the nodes, the contexts and the runs, as a
  dozen cases, and the invariant that all the others rest on.
\<close>

section \<open>The machine's invariants\<close>

text \<open>
  Together with the shape of the graph, which no step changes: the tasks, the dependencies
  and the dependents of every node.
\<close>

definition graph_inv :: "(tid \<Rightarrow> 'w task) \<Rightarrow> executor \<Rightarrow> bool" where
  "graph_inv g s \<longleftrightarrow> (\<forall>x \<in> tasks_of (ts_exec s).
     set (ex_dependencies (node s x)) = deps_of g x \<and> deps_of g x \<subseteq> tasks_of (ts_exec s) \<and>
     set (ex_dependents (node s x)) =
       {y \<in> tasks_of (ts_exec s). x \<in> set (t_dependencies (g y))})"

definition exec_inv :: "(tid \<Rightarrow> 'w task) \<Rightarrow> executor \<Rightarrow> bool" where
  "exec_inv g s \<longleftrightarrow> base_inv s \<and> load_inv s \<and> graph_inv g s"

lemma exec_invD:
  "exec_inv g s \<Longrightarrow> base_inv s" "exec_inv g s \<Longrightarrow> load_inv s" "exec_inv g s \<Longrightarrow> graph_inv g s"
  by (simp_all add: exec_inv_def)

text \<open>The fields of the graph that steps keep.\<close>

definition same_graph :: "executor \<Rightarrow> executor \<Rightarrow> bool" where
  "same_graph s s' \<longleftrightarrow> tasks_of (ts_exec s') = tasks_of (ts_exec s) \<and>
     (\<forall>x. ex_dependencies (node s' x) = ex_dependencies (node s x) \<and>
        ex_dependents (node s' x) = ex_dependents (node s x))"

lemma graph_inv_same: "graph_inv g s \<Longrightarrow> same_graph s s' \<Longrightarrow> graph_inv g s'"
  unfolding graph_inv_def same_graph_def by simp

text \<open>
  The effect of a step on the nodes, the contexts and the runs. Most steps are quiet: they
  move a run from one statement to the next, or change only the lock and the queues.
\<close>

definition same_core :: "executor \<Rightarrow> executor \<Rightarrow> bool" where
  "same_core s s' \<longleftrightarrow> ts_cancelled s' = ts_cancelled s \<and> ts_next s' = ts_next s \<and>
     e_root s' = e_root s \<and> e_history s' = e_history s \<and> waiting s' = waiting s"

text \<open>A run's statements before the write of its state, and those after the exit.\<close>

definition active :: "run \<Rightarrow> bool" where
  "active r \<longleftrightarrow> gr_pc r \<in> {G_start, G_body, G_check, G_write}"

lemma active_unsent: "active r \<Longrightarrow> unsent r"
  by (auto simp: active_def unsent_def)

definition run_moves :: "executor \<Rightarrow> executor \<Rightarrow> bool" where
  "run_moves s s' \<longleftrightarrow> e_runs s' = e_runs s \<or>
     (\<exists>i r r'. e_runs s i = Some r \<and> e_runs s' = (e_runs s)(i \<mapsto> r') \<and>
        gr_task r' = gr_task r \<and> gr_ctx r' = gr_ctx r \<and> gr_verdict r' = gr_verdict r \<and>
        unsent r' = unsent r \<and> active r' = active r \<and>
        (active r \<longrightarrow> gr_pc r = G_body \<and> gr_pc r' = G_check))"

lemma run_moves_same: "e_runs s' = e_runs s \<Longrightarrow> run_moves s s'"
  by (simp add: run_moves_def)

lemma run_moves_upd:
  "e_runs s i = Some r \<Longrightarrow> e_runs s' = (e_runs s)(i \<mapsto> r') \<Longrightarrow>
     gr_task r' = gr_task r \<Longrightarrow> gr_ctx r' = gr_ctx r \<Longrightarrow> gr_verdict r' = gr_verdict r \<Longrightarrow>
     unsent r' = unsent r \<Longrightarrow> active r' = active r \<Longrightarrow>
     (active r \<Longrightarrow> gr_pc r = G_body \<and> gr_pc r' = G_check) \<Longrightarrow> run_moves s s'"
  unfolding run_moves_def by blast

inductive effect :: "(tid \<Rightarrow> 'w task) \<Rightarrow> executor \<Rightarrow> executor \<Rightarrow> bool" for g s s' where
  quiet: "same_core s s' \<Longrightarrow> run_moves s s' \<Longrightarrow> ts_exec s' = ts_exec s \<Longrightarrow> effect g s s'"
| mark: "same_core s s' \<Longrightarrow> run_moves s s' \<Longrightarrow>
    mark_invalid n g t ev (ts_exec s) = Some (b, ts_exec s') \<Longrightarrow> effect g s s'"
| start: "same_core s s' \<Longrightarrow> ts_exec s' = ts_exec s \<Longrightarrow> e_runs s i = Some r \<Longrightarrow>
    gr_pc r = G_start \<Longrightarrow>
    e_runs s' = (e_runs s)(i \<mapsto> r\<lparr>gr_ctx := ex_ctx (node s (gr_task r)), gr_pc := G_body\<rparr>) \<Longrightarrow>
    effect g s s'"
| check: "same_core s s' \<Longrightarrow> ts_exec s' = ts_exec s \<Longrightarrow> e_runs s i = Some r \<Longrightarrow>
    gr_pc r = G_check \<Longrightarrow>
    v = (if ctx_err (ts_cancelled s) (gr_ctx r) then V_canceled
         else if gr_err r \<noteq> None then V_failed else V_done) \<Longrightarrow>
    e_runs s' = (e_runs s)(i \<mapsto> r\<lparr>gr_verdict := v, gr_pc := G_write\<rparr>) \<Longrightarrow> effect g s s'"
| write_nothing: "same_core s s' \<Longrightarrow> ts_exec s' = ts_exec s \<Longrightarrow> e_runs s i = Some r \<Longrightarrow>
    gr_pc r = G_write \<Longrightarrow> gr_verdict r = V_canceled \<Longrightarrow> \<not> root_done s \<Longrightarrow>
    e_runs s' = (e_runs s)(i \<mapsto> r\<lparr>gr_pc := G_publish\<rparr>) \<Longrightarrow> effect g s s'"
| write_state: "e_runs s i = Some r \<Longrightarrow> gr_pc r = G_write \<Longrightarrow>
    gr_verdict r = V_canceled \<and> root_done s \<and> st = St_canceled \<or>
      gr_verdict r = V_failed \<and> st = St_error \<or> gr_verdict r = V_done \<and> st = St_done \<Longrightarrow>
    s' = set_run i (r\<lparr>gr_pc := G_publish\<rparr>) (set_state (gr_task r) st s) \<Longrightarrow> effect g s s'"
| send: "e_runs s i = Some r \<Longrightarrow> gr_pc r = G_send \<Longrightarrow> ex_terminal (node s (gr_task r)) = 0 \<Longrightarrow>
    s' = set_run i (r\<lparr>gr_pc := G_keep\<rparr>) (s\<lparr>ts_exec := upd_exec (gr_task r)
       (\<lambda>e. e\<lparr>ex_terminal := Suc (ex_terminal e)\<rparr>) (ts_exec s)\<rparr>) \<Longrightarrow> effect g s s'"
| stop: "e_mu s = Some (Planning th (t # ts) False) \<Longrightarrow> \<not> invalidate_skips (ts_exec s) t \<Longrightarrow>
    s' = (invalidate_begin (e_root s) t s)\<lparr>e_mu := Some (Planning th (t # ts) True),
         e_history := e_history s @ [(t, St_invalid)]\<rparr> \<Longrightarrow> effect g s s'"
| stopped: "e_mu s = Some (Planning th (t # ts) True) \<Longrightarrow> ex_terminal (node s t) > 0 \<Longrightarrow>
    s' = s\<lparr>ts_exec := upd_exec t (\<lambda>e. e\<lparr>ex_terminal := 0, ex_pending := {}\<rparr>) (ts_exec s),
       e_mu := Some (Planning th ts False)\<rparr> \<Longrightarrow> effect g s s'"
| spawned: "e_mu s = Some (Passing th (t # ts)) \<Longrightarrow> should_execute (ts_exec s) t \<Longrightarrow>
    s' = (spawn t s)\<lparr>e_mu := Some (Passing th ts)\<rparr> \<Longrightarrow> effect g s s'"
| returned: "same_core s s' \<Longrightarrow> ts_exec s' = ts_exec s \<Longrightarrow> e_runs s i = Some r \<Longrightarrow>
    gr_pc r = G_return \<Longrightarrow> e_runs s' = (e_runs s)(i := None) \<Longrightarrow> effect g s s'"
| shutdown: "s' = s\<lparr>ts_cancelled := insert (hd (e_root s)) (ts_cancelled s)\<rparr> \<Longrightarrow> effect g s s'"

lemma quiet_same:
  "same_core s s' \<Longrightarrow> e_runs s' = e_runs s \<Longrightarrow> ts_exec s' = ts_exec s \<Longrightarrow> effect g s s'"
  by (rule effect.quiet) (simp_all add: run_moves_same)

lemma quiet_upd:
  "same_core s s' \<Longrightarrow> ts_exec s' = ts_exec s \<Longrightarrow> e_runs s i = Some r \<Longrightarrow>
     e_runs s' = (e_runs s)(i \<mapsto> r') \<Longrightarrow> gr_task r' = gr_task r \<Longrightarrow> gr_ctx r' = gr_ctx r \<Longrightarrow>
     gr_verdict r' = gr_verdict r \<Longrightarrow> unsent r' = unsent r \<Longrightarrow> active r' = active r \<Longrightarrow>
     (active r \<Longrightarrow> gr_pc r = G_body \<and> gr_pc r' = G_check) \<Longrightarrow> effect g s s'"
  by (rule effect.quiet) (auto intro: run_moves_upd)

lemma effect_keep:
  assumes "op_keep g n i s = Some s'"
  shows "effect g s s'"
  using assms
proof (cases rule: op_keep_cases)
  case (1 r)
  then show ?thesis
    by (intro quiet_upd [of _ _ i r "after_keep r"])
      (auto simp: same_core_def waiting_def fun_eq_iff unsent_def active_def after_keep_def)
next
  case (2 r b m)
  then have "run_moves s s'"
    by (intro run_moves_upd [of _ i r _ "if b then r\<lparr>gr_pc := G_notify\<rparr> else after_keep r"])
      (auto simp: unsent_def active_def after_keep_def)
  with 2 show ?thesis
    by (intro effect.mark) (auto simp: same_core_def waiting_def fun_eq_iff)
qed

lemma effect_plan_next:
  assumes base: "base_inv s" and act: "op_plan_next s = Some s'"
  shows "effect g s s'"
  using act
proof (cases rule: op_plan_next_cases)
  case (skip th t ts)
  then show ?thesis
    by (intro quiet_same) (auto simp: same_core_def fun_eq_iff waiting_holder)
next
  case (stop th t ts)
  then show ?thesis by (rule effect.stop)
next
  case (done_run i r)
  with base have "gr_pc r = G_plan" by (auto dest: holder_run)
  with done_run show ?thesis
    by (intro quiet_upd [of _ _ i r "r\<lparr>gr_pc := G_pass\<rparr>"])
      (auto simp: same_core_def fun_eq_iff waiting_holder unsent_def active_def)
next
  case done_loop
  then show ?thesis
    by (intro quiet_same) (auto simp: same_core_def fun_eq_iff waiting_holder)
qed

lemma effect_visit:
  assumes base: "base_inv s" and act: "op_visit s = Some s'"
  shows "effect g s s'"
  using act
proof (cases rule: op_visit_cases)
  case (run th t ts)
  then show ?thesis by (rule effect.spawned)
next
  case (pass th t ts)
  then show ?thesis
    by (intro quiet_same) (auto simp: same_core_def fun_eq_iff waiting_holder)
next
  case (done_run i r)
  with base have "gr_pc r = G_lock" by (auto dest: holder_run)
  with done_run show ?thesis
    by (intro quiet_upd [of _ _ i r "r\<lparr>gr_pc := G_return\<rparr>"])
      (auto simp: same_core_def fun_eq_iff waiting_holder unsent_def active_def)
next
  case done_pass
  then show ?thesis
    by (intro quiet_same) (auto simp: same_core_def fun_eq_iff waiting_holder)
qed

lemma effect_write:
  assumes "op_write i s = Some s'"
  shows "effect g s s'"
  using assms
proof (cases rule: op_write_cases)
  case (1 r)
  then show ?thesis
    by (intro effect.write_nothing) (auto simp: same_core_def fun_eq_iff waiting_def)
next
  case (2 r st)
  then show ?thesis by (rule effect.write_state)
qed

lemma effect_begin_plan:
  assumes "begin_plan th ord s = Some s'"
  shows "effect g s s'"
  using assms
  by (intro quiet_same) (auto simp: begin_plan_Some same_core_def fun_eq_iff waiting_holder)

lemma do_action_effect:
  assumes base: "base_inv s" and act: "do_action g a s = Some s'"
  shows "effect g s s'"
proof -
  note core = same_core_def fun_eq_iff waiting_def unsent_def active_def
  show ?thesis
  proof (cases a)
    case (A_start i)
    with act show ?thesis by (auto simp: op_start_def at_pc_Some core intro!: effect.start)
  next
    case (A_body i e)
    with act obtain r where "e_runs s i = Some r" "gr_pc r = G_body"
      "s' = set_run i (r\<lparr>gr_err := e, gr_pc := G_check\<rparr>) s"
      by (auto simp: op_body_def at_pc_Some split: if_splits)
    then show ?thesis
      by (intro quiet_upd [of _ _ i r "r\<lparr>gr_err := e, gr_pc := G_check\<rparr>"]) (auto simp: core)
  next
    case (A_check i)
    with act show ?thesis
      by (auto simp: op_check_def at_pc_Some core intro!: effect.check [OF _ _ _ _ refl])
  next
    case (A_write i)
    with act show ?thesis by (auto intro: effect_write)
  next
    case (A_publish i)
    with act obtain r k where "e_runs s i = Some r" "gr_pc r = G_publish"
      "s' = publish k (gr_task r) (set_run i (r\<lparr>gr_pc := G_send\<rparr>) s)"
      by (auto simp: op_publish_def at_pc_Some)
    then show ?thesis
      by (intro quiet_upd [of _ _ i r "r\<lparr>gr_pc := G_send\<rparr>"]) (auto simp: core)
  next
    case (A_send i)
    with act show ?thesis by (auto elim!: op_send_cases intro: effect.send)
  next
    case (A_keep n i)
    with act show ?thesis by (auto intro: effect_keep)
  next
    case (A_notify i)
    with act obtain r where "e_runs s i = Some r" "gr_pc r = G_notify"
      "s' = set_run i (after_keep r) (s\<lparr>e_inv_ch := True\<rparr>)"
      by (auto simp: op_notify_def at_pc_Some split: if_splits)
    then show ?thesis
      by (intro quiet_upd [of _ _ i r "after_keep r"]) (auto simp: core after_keep_def)
  next
    case (A_pass_test i)
    with act obtain r where "e_runs s i = Some r" "gr_pc r = G_pass"
      "s' = set_run i (r\<lparr>gr_pc := (if root_done s then G_return else G_lock)\<rparr>) s"
      by (auto simp: op_pass_test_def at_pc_Some)
    then show ?thesis
      by (intro quiet_upd [of _ _ i r "r\<lparr>gr_pc := (if root_done s then G_return else G_lock)\<rparr>"])
        (auto simp: core)
  next
    case (A_return i)
    with act show ?thesis by (auto simp: op_return_def at_pc_Some core intro!: effect.returned)
  next
    case (A_plan_run i ord)
    with act show ?thesis
      by (auto simp: ordered_Some op_plan_run_def at_pc_Some intro: effect_begin_plan)
  next
    case (A_plan_loop ord)
    with act show ?thesis
      by (auto simp: ordered_Some op_plan_loop_def split: if_splits intro: effect_begin_plan)
  next
    case A_plan_next
    with act base show ?thesis by (auto intro: effect_plan_next)
  next
    case A_plan_wait
    with act show ?thesis by (auto elim!: op_plan_wait_cases intro: effect.stopped)
  next
    case A_visit
    with act base show ?thesis by (auto intro: effect_visit)
  next
    case (A_invalidate n t ev)
    with act show ?thesis
      by (auto elim!: op_invalidate_cases intro!: effect.mark run_moves_same simp: core)
  next
    case A_shutdown
    with act show ?thesis by (auto simp: op_shutdown_def intro: effect.shutdown)
  next
    case (A_lock_run i ord)
    with act show ?thesis
      by (auto simp: ordered_Some op_lock_run_def at_pc_Some core split: if_splits intro!: quiet_same)
  next
    case (A_lock_pass ord)
    with act show ?thesis
      by (auto simp: ordered_Some op_lock_pass_def core split: if_splits nat.splits
          intro!: quiet_same)
  qed (use act in \<open>auto simp: op_defs core split: if_splits nat.splits intro!: quiet_same\<close>)
qed

lemma mark_same_graph:
  "mark_invalid n g t ev (ts_exec s) = Some (b, ts_exec s') \<Longrightarrow> same_graph s s'"
  by (simp add: same_graph_def mark_invalid_fields mark_invalid_tasks)

lemma effect_same_graph:
  assumes base: "base_inv s" and "effect g s s'"
  shows "same_graph s s'"
  using assms(2)
proof cases
  case (mark n t ev b)
  then show ?thesis by (auto intro: mark_same_graph)
next
  case (write_state i r st)
  with base have "gr_task r \<in> tasks_of (ts_exec s)" by (auto simp: base_inv_def runs_okD)
  with write_state show ?thesis by (simp add: same_graph_def)
next
  case (send i r)
  with base have "gr_task r \<in> tasks_of (ts_exec s)" by (auto simp: base_inv_def runs_okD)
  with send show ?thesis by (simp add: same_graph_def)
qed (use base in \<open>auto simp: same_graph_def base_inv_def\<close>)

section \<open>The initial states\<close>

lemma starts_built:
  assumes "starts g s"
  obtains n reg root names k ts where "build_task_set n g reg root names (empty_task_set k) = Some (Inr ts)"
    "built g root (empty_task_set k) ts" "root \<noteq> []" "\<forall>i \<in> set root. i < k" "wf (dep_rel g)"
    "s = start_executor root ts"
  using assms build_task_set_built [of g] unfolding starts_def
  by (metis all_idle_empty closed_set_empty)

lemma start_executor_simps [simp]:
  "ts_next (start_executor root ts) = ts_next ts"
  "ts_cancelled (start_executor root ts) = ts_cancelled ts"
  "ts_exec (start_executor root ts) = ts_exec ts" "e_root (start_executor root ts) = root"
  "e_mu (start_executor root ts) = None" "e_runs (start_executor root ts) = Map.empty"
  "e_passes (start_executor root ts) = 1" "e_locks (start_executor root ts) = 0"
  "e_senders (start_executor root ts) = 0" "e_inv_ch (start_executor root ts) = False"
  "e_timer (start_executor root ts) = False" "e_loop (start_executor root ts) = L_idle"
  "e_history (start_executor root ts) = []" "e_events (start_executor root ts) = []"
  "e_wg_err (start_executor root ts) = None"
  by (simp_all add: start_executor_def)

lemma idle_node_of:
  assumes "all_idle ts"
  shows "ex_state (exec_of (ts_exec ts) x) = St_invalid" "ex_terminal (exec_of (ts_exec ts) x) = 0"
    "ex_pending (exec_of (ts_exec ts) x) = {}"
  using assms
  by (auto simp: all_idle_def idle_node_def exec_of_def new_execution_def split: option.splits)

lemma starts_graph:
  assumes "starts g s"
  shows "graph_inv g s"
proof -
  from assms obtain root k ts where b: "built g root (empty_task_set k) ts"
    and s: "s = start_executor root ts"
    by (rule starts_built)
  show ?thesis
    unfolding graph_inv_def
  proof (intro ballI conjI)
    fix x assume "x \<in> tasks_of (ts_exec s)"
    then obtain e where x: "x \<in> dom (ts_exec ts)" "ts_exec ts x = Some e"
      using s by (auto simp: tasks_of_def)
    then show "set (ex_dependencies (node s x)) = deps_of g x" "deps_of g x \<subseteq> tasks_of (ts_exec s)"
      using builtD(1) [OF b] s by (auto simp: closed_set_def tasks_of_def)
    have "count_list (ex_dependents e) y =
        (if y \<in> dom (ts_exec ts) then count_list (t_dependencies (g y)) x else 0)" for y
      using builtD(5) [OF b x(1), of y] x by (simp add: dcount_def edge_count_def new_nodes_def)
    then have "y \<in> set (ex_dependents e) \<longleftrightarrow>
        y \<in> dom (ts_exec ts) \<and> x \<in> set (t_dependencies (g y))" for y
      by (metis count_list_0_iff)
    then show "set (ex_dependents (node s x)) =
        {y \<in> tasks_of (ts_exec s). x \<in> set (t_dependencies (g y))}"
      using x s by (auto simp: tasks_of_def)
  qed
qed

lemma adds_finite:
  "adds g c t s s' ds \<Longrightarrow> finite (dom (ts_exec s)) \<longrightarrow> finite (dom (ts_exec s'))"
  "adds_list g c self ds' acc s s' deps \<Longrightarrow> finite (dom (ts_exec s)) \<longrightarrow> finite (dom (ts_exec s'))"
proof (induction rule: adds_adds_list.inducts)
  case (cons c d s s1 ddeps self ds acc s2 deps)
  from cons(1) have "d \<in> dom (ts_exec s1)" by (rule adds_member)
  with cons(2,4) show ?case by simp
qed (simp_all del: fun_upd_apply)

lemma build_finite:
  "build_task_set n g reg c names s = Some (Inr s') \<Longrightarrow> finite (dom (ts_exec s)) \<Longrightarrow>
     finite (dom (ts_exec s'))"
proof (induction names arbitrary: s)
  case Nil
  then show ?case by simp
next
  case (Cons name names)
  then obtain t s1 ds where "add_task n g c t s = Some (s1, ds)"
    "build_task_set n g reg c names s1 = Some (Inr s')"
    by (auto split: option.splits)
  with Cons adds_finite(1) [OF add_task_adds] show ?case by blast
qed

lemma starts_finite: "starts g s \<Longrightarrow> finite (tasks_of (ts_exec s))"
  by (auto simp: starts_def tasks_of_def dest!: build_finite)

lemma starts_exec_inv:
  assumes "starts g s"
  shows "exec_inv g s"
proof -
  from assms obtain root k ts where b: "built g root (empty_task_set k) ts" "root \<noteq> []"
    and s: "s = start_executor root ts"
    by (rule starts_built)
  have "base_inv s" using b s by (simp add: base_inv_def runs_ok_def)
  moreover have "load_inv s"
    using s by (simp add: load_inv_def load_at_def live_def idle_node_of [OF builtD(2) [OF b(1)]])
  ultimately show ?thesis using starts_graph [OF assms] by (simp add: exec_inv_def)
qed

lemma exec_inv_step:
  assumes "exec_inv g s" and "exec_step g s s'"
  shows "exec_inv g s'"
proof -
  from assms(2) obtain a where act: "do_action g a s = Some s'" by (rule exec_stepE)
  note inv = exec_invD [OF assms(1)]
  have "same_graph s s'"
    by (rule effect_same_graph [OF inv(1) do_action_effect [OF inv(1) act]])
  then show ?thesis
    using inv base_inv_action [OF inv(1) act] load_inv_action [OF inv(2,1) act]
    by (simp add: exec_inv_def graph_inv_same)
qed

interpretation machine: invariant "starts g" "exec_step g" "\<lambda>_. True" "exec_inv g" for g
  by unfold_locales (auto intro: starts_exec_inv exec_inv_step)

lemma reachable_wf: "reachable g s \<Longrightarrow> wf (dep_rel g)"
  by (induction rule: reachable_by.induct) (auto simp: starts_def)

lemma step_effect: "exec_inv g s \<Longrightarrow> exec_step g s s' \<Longrightarrow> effect g s s'"
  by (auto elim!: exec_stepE dest: exec_invD(1) intro: do_action_effect)

end
