(* ===== verification/ExecutorContexts.thy ===== *)
theory ExecutorContexts
  imports ExecutorEffects
begin

text \<open>
  The contexts of the nodes at work. \<open>taskSet.add\<close> nests the context of a dependency in
  that of the first task that asked for it, and \<open>invalidate\<close> replaces a node's context by
  one directly under the executor's. The invariant here shows that nothing goes wrong with
  the nesting: a run's context is cancelled only when the executor shuts down or a plan is
  invalidating the run's own task.
\<close>

section \<open>Active runs\<close>

definition active_at :: "executor \<Rightarrow> tid \<Rightarrow> nat \<Rightarrow> bool" where
  "active_at s x i \<longleftrightarrow> (\<exists>r. e_runs s i = Some r \<and> active r \<and> gr_task r = x)"

lemma active_atI: "e_runs s i = Some r \<Longrightarrow> active r \<Longrightarrow> active_at s (gr_task r) i"
  by (auto simp: active_at_def)

lemma active_at_same: "e_runs s' = e_runs s \<Longrightarrow> active_at s' = active_at s"
  by (simp add: active_at_def fun_eq_iff)

lemma active_at_upd:
  assumes "e_runs s i = Some r" "e_runs s' = (e_runs s)(i \<mapsto> r')" "gr_task r' = gr_task r"
    and "active r' = active r"
  shows "active_at s' = active_at s"
  using assms by (auto simp: active_at_def fun_eq_iff)

lemma active_at_moves: "run_moves s s' \<Longrightarrow> active_at s' = active_at s"
  unfolding run_moves_def by (auto intro: active_at_same active_at_upd)

lemma active_at_end:
  assumes "e_runs s i = Some r" "e_runs s' = (e_runs s)(i \<mapsto> r')" "\<not> active r'"
  shows "active_at s' x j \<longleftrightarrow> active_at s x j \<and> j \<noteq> i"
  using assms by (auto simp: active_at_def)

lemma active_at_gone:
  assumes "e_runs s i = Some r" "e_runs s' = (e_runs s)(i := None)" "\<not> active r"
  shows "active_at s' = active_at s"
  using assms by (auto simp: active_at_def fun_eq_iff)

lemma active_at_spawn:
  assumes "e_runs s n = None" "e_runs s' = (e_runs s)(n \<mapsto> new_run t)"
  shows "active_at s' x j \<longleftrightarrow> active_at s x j \<or> x = t \<and> j = n"
  using assms by (auto simp: active_at_def active_def)

lemma active_live: "active_at s x i \<Longrightarrow> i \<in> live s x"
  by (auto simp: active_at_def live_def intro: active_unsent)

lemma active_at_unique: "load_inv s \<Longrightarrow> active_at s x i \<Longrightarrow> active_at s x j \<Longrightarrow> i = j"
  using load_invD [of s x] active_live [of s x i] active_live [of s x j]
  by (auto simp: load_at_def)

lemma not_active: "load_inv s \<Longrightarrow> ex_terminal (node s x) > 0 \<Longrightarrow> \<not> active_at s x i"
  using load_invD [of s x] active_live [of s x i] by (auto simp: load_at_def)

lemma idle_not_active:
  "load_inv s \<Longrightarrow> ex_state (node s x) = St_invalid \<Longrightarrow> \<not> waiting s x \<Longrightarrow> \<not> active_at s x i"
  using load_invD [of s x] active_live [of s x i] by (auto simp: load_at_def)

section \<open>The invariant\<close>

text \<open>
  \<open>births\<close>: the contexts \<open>c0\<close> the nodes were built with, with identities below \<open>N\<close>. A node
  is reset once it has another context.
\<close>

definition births :: "(tid \<Rightarrow> 'w task) \<Rightarrow> (tid \<Rightarrow> ctx) \<Rightarrow> nat \<Rightarrow> ctx \<Rightarrow> tid set \<Rightarrow> bool" where
  "births g c0 N root T \<longleftrightarrow>
     (\<forall>i \<in> set root. i < N) \<and> inj_on (\<lambda>x. hd (c0 x)) T \<and>
     (\<forall>x \<in> T. \<exists>pre. pre \<noteq> [] \<and> c0 x = pre @ root \<and>
        (\<forall>i \<in> set pre. i < N \<and> i \<notin> set root \<and>
           (\<exists>y \<in> T. (x = y \<or> x \<in> deps_of g y) \<and> hd (c0 y) = i)))"

definition reset :: "(tid \<Rightarrow> ctx) \<Rightarrow> executor \<Rightarrow> tid \<Rightarrow> bool" where
  "reset c0 s x \<longleftrightarrow> ex_ctx (node s x) \<noteq> c0 x"

definition ctx_ids :: "(tid \<Rightarrow> ctx) \<Rightarrow> nat \<Rightarrow> executor \<Rightarrow> bool" where
  "ctx_ids c0 N s \<longleftrightarrow> N \<le> ts_next s \<and>
     (\<forall>x \<in> tasks_of (ts_exec s). reset c0 s x \<longrightarrow>
        (\<exists>i \<ge> N. i < ts_next s \<and> i \<notin> ts_cancelled s \<and> ex_ctx (node s x) = i # e_root s)) \<and>
     (\<forall>x \<in> tasks_of (ts_exec s). \<forall>y \<in> tasks_of (ts_exec s). reset c0 s x \<longrightarrow> reset c0 s y \<longrightarrow>
        hd (ex_ctx (node s x)) = hd (ex_ctx (node s y)) \<longrightarrow> x = y) \<and>
     (\<forall>i \<in> ts_cancelled s. i < ts_next s \<and> (i \<in> set (e_root s) \<or> N \<le> i \<or>
        (\<exists>y \<in> tasks_of (ts_exec s). reset c0 s y \<and> i = hd (c0 y))))"

text \<open>
  A node that has been started or reset has, among its dependencies, only nodes that are done
  or reset themselves. A plan that waits for a node with an active run has made it invalid.
\<close>

definition ctx_order :: "(tid \<Rightarrow> 'w task) \<Rightarrow> (tid \<Rightarrow> ctx) \<Rightarrow> executor \<Rightarrow> bool" where
  "ctx_order g c0 s \<longleftrightarrow>
     (\<forall>x i. active_at s x i \<longrightarrow> \<not> reset c0 s x \<longrightarrow> ex_state (node s x) = St_running) \<and>
     (\<forall>x i. active_at s x i \<longrightarrow> waiting s x \<longrightarrow> ex_state (node s x) = St_invalid) \<and>
     (\<forall>y \<in> tasks_of (ts_exec s). \<forall>x \<in> deps_of g y.
        ex_state (node s y) \<noteq> St_invalid \<or> reset c0 s y \<longrightarrow> \<not> reset c0 s x \<longrightarrow>
        ex_state (node s x) = St_done)"

definition ctx_runs :: "executor \<Rightarrow> bool" where
  "ctx_runs s \<longleftrightarrow> (\<forall>i r. e_runs s i = Some r \<longrightarrow>
     (gr_pc r \<in> {G_body, G_check, G_write} \<longrightarrow>
        gr_ctx r = ex_ctx (node s (gr_task r)) \<or> waiting s (gr_task r)) \<and>
     (gr_pc r = G_write \<longrightarrow> gr_verdict r = V_canceled \<longrightarrow> ctx_err (ts_cancelled s) (gr_ctx r)))"

definition ctx_inv :: "(tid \<Rightarrow> 'w task) \<Rightarrow> (tid \<Rightarrow> ctx) \<Rightarrow> nat \<Rightarrow> executor \<Rightarrow> bool" where
  "ctx_inv g c0 N s \<longleftrightarrow> births g c0 N (e_root s) (tasks_of (ts_exec s)) \<and> ctx_ids c0 N s \<and>
     ctx_order g c0 s \<and> ctx_runs s"

section \<open>Frames\<close>

lemma births_below:
  assumes "births g c0 N root T" and "x \<in> T"
  shows "hd (c0 x) < N" "hd (c0 x) \<notin> set root" "c0 x \<noteq> []"
proof -
  from assms obtain pre where "pre \<noteq> []" "c0 x = pre @ root" "\<forall>i \<in> set pre. i < N \<and> i \<notin> set root"
    unfolding births_def by blast
  then show "hd (c0 x) < N" "hd (c0 x) \<notin> set root" "c0 x \<noteq> []" by auto
qed

lemma births_inj: "births g c0 N root T \<Longrightarrow> x \<in> T \<Longrightarrow> y \<in> T \<Longrightarrow> hd (c0 x) = hd (c0 y) \<Longrightarrow> x = y"
  unfolding births_def by (auto dest: inj_onD)

lemma ctx_ids_frame:
  assumes "ctx_ids c0 N s" and "ts_next s' = ts_next s" and "ts_cancelled s' = ts_cancelled s"
    and "e_root s' = e_root s" and "tasks_of (ts_exec s') = tasks_of (ts_exec s)"
    and "\<And>x. ex_ctx (node s' x) = ex_ctx (node s x)"
  shows "ctx_ids c0 N s'"
  using assms unfolding ctx_ids_def reset_def by simp

lemma ctx_order_frame:
  assumes "ctx_order g c0 s" and "\<And>x i. active_at s' x i \<Longrightarrow> active_at s x i"
    and "\<And>x i. active_at s' x i \<Longrightarrow> waiting s' x \<Longrightarrow> waiting s x"
    and "tasks_of (ts_exec s') = tasks_of (ts_exec s)"
    and "\<And>x. ex_ctx (node s' x) = ex_ctx (node s x)"
    and "\<And>x. ex_state (node s' x) = ex_state (node s x)"
  shows "ctx_order g c0 s'"
  using assms unfolding ctx_order_def reset_def by simp blast

lemma ctx_runs_moves:
  assumes "ctx_runs s" and "run_moves s s'" and "\<And>x. ex_ctx (node s' x) = ex_ctx (node s x)"
    and "waiting s' = waiting s" and "ts_cancelled s' = ts_cancelled s"
  shows "ctx_runs s'"
proof -
  have "\<exists>r0. e_runs s i = Some r0 \<and> gr_task r0 = gr_task r \<and> gr_ctx r0 = gr_ctx r \<and>
      gr_verdict r0 = gr_verdict r \<and>
      (gr_pc r \<in> {G_body, G_check, G_write} \<longrightarrow> gr_pc r0 \<in> {G_body, G_check, G_write}) \<and>
      (gr_pc r = G_write \<longrightarrow> gr_pc r0 = G_write)" if "e_runs s' i = Some r" for i r
    using assms(2) that unfolding run_moves_def by (auto simp: active_def split: if_splits)
  then show ?thesis
    using assms(1,3-5) unfolding ctx_runs_def by metis
qed

lemma ctx_runs_upd:
  assumes "ctx_runs s" and "e_runs s i = Some r" and "e_runs s' = (e_runs s)(i \<mapsto> r')"
    and "\<And>x. ex_ctx (node s' x) = ex_ctx (node s x)"
    and "waiting s' = waiting s" and "ts_cancelled s' = ts_cancelled s"
    and "gr_pc r' \<in> {G_body, G_check, G_write} \<Longrightarrow>
      gr_ctx r' = ex_ctx (node s (gr_task r')) \<or> waiting s (gr_task r')"
    and "gr_pc r' = G_write \<Longrightarrow> gr_verdict r' = V_canceled \<Longrightarrow> ctx_err (ts_cancelled s) (gr_ctx r')"
  shows "ctx_runs s'"
  using assms unfolding ctx_runs_def by (auto split: if_splits)

section \<open>Preservation\<close>

lemma same_coreD:
  "same_core s s' \<Longrightarrow> ts_cancelled s' = ts_cancelled s \<and> ts_next s' = ts_next s \<and>
     e_root s' = e_root s \<and> e_history s' = e_history s \<and> waiting s' = waiting s"
  by (simp add: same_core_def)

lemma effect_root: "effect g s s' \<Longrightarrow> e_root s' = e_root s"
  by (erule effect.cases) (simp_all add: same_core_def)

lemma ctx_ids_stop:
  assumes ids: "ctx_ids c0 N s" and births: "births g c0 N (e_root s) (tasks_of (ts_exec s))"
    and t: "t \<in> tasks_of (ts_exec s)"
  shows "ctx_ids c0 N ((invalidate_begin (e_root s) t s)\<lparr>e_mu := m, e_history := h\<rparr>)"
    (is "ctx_ids c0 N ?s")
proof -
  let ?T = "tasks_of (ts_exec s)" and ?n = "ts_next s"
  have n: "N \<le> ?n" and old: "\<And>i. i \<in> ts_cancelled s \<Longrightarrow> i < ?n"
    using ids unfolding ctx_ids_def by blast+
  have "?n # e_root s \<noteq> c0 t"
    using births_below(1) [OF births t] n by (metis leD list.sel(1))
  then have r: "reset c0 ?s x \<longleftrightarrow> x = t \<or> reset c0 s x" if "x \<in> ?T" for x
    by (simp add: reset_def)
  have each: "\<exists>i \<ge> N. i < ?n \<and> i \<notin> ts_cancelled s \<and> ex_ctx (node s x) = i # e_root s"
    if "x \<in> ?T" "reset c0 s x" for x
    using ids that unfolding ctx_ids_def by blast
  have inj: "x = y" if "x \<in> ?T" "y \<in> ?T" "reset c0 s x" "reset c0 s y"
    "hd (ex_ctx (node s x)) = hd (ex_ctx (node s y))" for x y
    using ids that unfolding ctx_ids_def by blast
  have head: "hd (ex_ctx (node s t)) < ?n \<and> (N \<le> hd (ex_ctx (node s t)) \<or>
      \<not> reset c0 s t \<and> hd (ex_ctx (node s t)) = hd (c0 t))"
    using each [OF t] births_below(1) [OF births t] n unfolding reset_def
    by (cases "ex_ctx (node s t) = c0 t") auto
  have other: "hd (ex_ctx (node s x)) \<noteq> hd (ex_ctx (node s t))"
    if "x \<in> ?T" "reset c0 s x" "x \<noteq> t" for x
  proof (cases "reset c0 s t")
    case True
    with inj [OF that(1) t that(2)] that(3) show ?thesis by blast
  next
    case False
    then have "hd (ex_ctx (node s t)) < N"
      using births_below(1) [OF births t] by (simp add: reset_def)
    with each [OF that(1,2)] show ?thesis by auto
  qed
  have below: "hd (ex_ctx (node s x)) < ?n" if "x \<in> ?T" "reset c0 s x" for x
    using each [OF that] by auto
  show ?thesis
    unfolding ctx_ids_def
  proof (intro conjI ballI impI)
    show "N \<le> ts_next ?s" using n by simp
  next
    fix x assume "x \<in> tasks_of (ts_exec ?s)" "reset c0 ?s x"
    then have x: "x \<in> ?T" "x = t \<or> reset c0 s x" using t r by auto
    show "\<exists>i \<ge> N. i < ts_next ?s \<and> i \<notin> ts_cancelled ?s \<and> ex_ctx (node ?s x) = i # e_root ?s"
    proof (cases "x = t")
      case True
      with n old head show ?thesis by fastforce
    next
      case False
      with x each [of x] other [of x] show ?thesis by fastforce
    qed
  next
    fix x y assume xy: "x \<in> tasks_of (ts_exec ?s)" "y \<in> tasks_of (ts_exec ?s)"
      "reset c0 ?s x" "reset c0 ?s y" "hd (ex_ctx (node ?s x)) = hd (ex_ctx (node ?s y))"
    have "x \<in> ?T" "y \<in> ?T" using xy t by simp_all
    with xy show "x = y"
      using r inj [of x y] below [of x] below [of y] by (cases "x = t"; cases "y = t") auto
  next
    fix i assume "i \<in> ts_cancelled ?s"
    then have "i \<in> ts_cancelled s \<or> i = hd (ex_ctx (node s t))" by auto
    then show "i < ts_next ?s"
      using old head by fastforce
    from \<open>i \<in> ts_cancelled s \<or> i = hd (ex_ctx (node s t))\<close>
    have "i \<in> set (e_root s) \<or> N \<le> i \<or> (\<exists>y \<in> ?T. (y = t \<or> reset c0 s y) \<and> i = hd (c0 y))"
      using ids head t unfolding ctx_ids_def by blast
    then show "i \<in> set (e_root ?s) \<or> N \<le> i \<or>
        (\<exists>y \<in> tasks_of (ts_exec ?s). reset c0 ?s y \<and> i = hd (c0 y))"
      using r t by auto
  qed
qed

lemma ctx_ids_effect:
  assumes base: "base_inv s" and births: "births g c0 N (e_root s) (tasks_of (ts_exec s))"
    and ids: "ctx_ids c0 N s" and eff: "effect g s s'"
  shows "ctx_ids c0 N s'"
  using eff
proof cases
  case (mark n t ev b)
  then show ?thesis
    by (intro ctx_ids_frame [OF ids])
      (auto dest!: same_coreD simp: mark_invalid_tasks mark_invalid_fields)
next
  case (write_state i r st)
  with base have "gr_task r \<in> tasks_of (ts_exec s)" by (auto simp: base_inv_def runs_okD)
  with write_state show ?thesis by (intro ctx_ids_frame [OF ids]) auto
next
  case (send i r)
  with base have "gr_task r \<in> tasks_of (ts_exec s)" by (auto simp: base_inv_def runs_okD)
  with send show ?thesis by (intro ctx_ids_frame [OF ids]) auto
next
  case (stop th t ts)
  with base have "t \<in> tasks_of (ts_exec s)" by (simp add: base_inv_def)
  with ids births stop show ?thesis by (simp add: ctx_ids_stop)
next
  case shutdown
  let ?r = "hd (e_root s)"
  have r: "?r \<in> set (e_root s)" using base by (simp add: base_inv_def)
  with births have "?r < N" unfolding births_def by blast
  then have each: "\<exists>i \<ge> N. i < ts_next s \<and> i \<notin> insert ?r (ts_cancelled s) \<and>
      ex_ctx (node s x) = i # e_root s" if "x \<in> tasks_of (ts_exec s)" "reset c0 s x" for x
    using ids that unfolding ctx_ids_def by fastforce
  have same: "reset c0 s' x = reset c0 s x" for x using shutdown by (simp add: reset_def)
  have "?r < ts_next s" using \<open>?r < N\<close> ids unfolding ctx_ids_def by simp
  with ids r each show ?thesis unfolding ctx_ids_def same by (simp add: shutdown)
qed (use base in \<open>auto intro!: ctx_ids_frame [OF ids] dest!: same_coreD simp: base_inv_def\<close>)

lemma ctx_orderD:
  assumes "ctx_order g c0 s"
  shows "active_at s x i \<Longrightarrow> \<not> reset c0 s x \<Longrightarrow> ex_state (node s x) = St_running"
    "active_at s x i \<Longrightarrow> waiting s x \<Longrightarrow> ex_state (node s x) = St_invalid"
    "y \<in> tasks_of (ts_exec s) \<Longrightarrow> x \<in> deps_of g y \<Longrightarrow>
      ex_state (node s y) \<noteq> St_invalid \<or> reset c0 s y \<Longrightarrow> \<not> reset c0 s x \<Longrightarrow>
      ex_state (node s x) = St_done"
  using assms unfolding ctx_order_def by blast+

text \<open>The steps that write a state: the end of a run, the reset by a plan, the start of a run.\<close>

lemma ctx_order_write_state:
  assumes inv: "exec_inv g s" and order: "ctx_order g c0 s"
    and write_state: "e_runs s i = Some r"
    "gr_pc r = G_write"
    "gr_verdict r = V_canceled \<and> root_done s \<and> st = St_canceled \<or>
      gr_verdict r = V_failed \<and> st = St_error \<or> gr_verdict r = V_done \<and> st = St_done"
    "s' = set_run i (r\<lparr>gr_pc := G_publish\<rparr>) (set_state (gr_task r) st s)"
  shows "ctx_order g c0 s'"
proof -
  let ?t = "gr_task r"
  have a: "active_at s ?t i" using write_state by (auto intro: active_atI simp: active_def)
  have act: "active_at s' x j \<longleftrightarrow> active_at s x j \<and> j \<noteq> i" for x j
    using write_state by (intro active_at_end [of s i r s' "r\<lparr>gr_pc := G_publish\<rparr>"])
      (auto simp: active_def)
  then have others: "active_at s' x j \<Longrightarrow> x \<noteq> ?t" for x j
    using active_at_unique [OF exec_invD(2) [OF inv] a] by blast
  have t: "?t \<in> tasks_of (ts_exec s)"
    using exec_invD(1) [OF inv] write_state by (auto simp: base_inv_def runs_okD)
  have node: "ex_ctx (node s' x) = ex_ctx (node s x)"
    "ex_state (node s' x) = (if x = ?t then st else ex_state (node s x))" for x
    using write_state by simp_all
  have frame: "tasks_of (ts_exec s') = tasks_of (ts_exec s)" "waiting s' = waiting s"
    "reset c0 s' = reset c0 s"
    using write_state t by (auto simp: waiting_def fun_eq_iff reset_def)
  have run: "\<not> reset c0 s ?t \<Longrightarrow> ex_state (node s ?t) = St_running"
    by (rule ctx_orderD(1) [OF order a])
  show ?thesis
    unfolding ctx_order_def frame node
  proof (intro conjI allI ballI impI)
    fix x j assume "active_at s' x j" "\<not> reset c0 s x"
    then show "(if x = ?t then st else ex_state (node s x)) = St_running"
      using others act ctx_orderD(1) [OF order] by auto
  next
    fix x j assume "active_at s' x j" "waiting s x"
    then show "(if x = ?t then st else ex_state (node s x)) = St_invalid"
      using others act ctx_orderD(2) [OF order] by auto
  next
    fix y x assume yx: "y \<in> tasks_of (ts_exec s)" "x \<in> deps_of g y"
      "(if y = ?t then st else ex_state (node s y)) \<noteq> St_invalid \<or> reset c0 s y"
      and x: "\<not> reset c0 s x"
    have "ex_state (node s y) \<noteq> St_invalid \<or> reset c0 s y"
    proof (cases "y = ?t")
      case True
      with run show ?thesis by (cases "reset c0 s ?t") auto
    qed (use yx in simp)
    from ctx_orderD(3) [OF order yx(1,2) this x] have "ex_state (node s x) = St_done" .
    then show "(if x = ?t then st else ex_state (node s x)) = St_done"
      using run x by auto
  qed
qed

lemma ctx_order_stop:
  assumes inv: "exec_inv g s" and births: "births g c0 N (e_root s) (tasks_of (ts_exec s))" and ids: "ctx_ids c0 N s" and order: "ctx_order g c0 s"
    and stop: "e_mu s = Some (Planning th (t # ts) False)"
    "\<not> invalidate_skips (ts_exec s) t"
    "s' = (invalidate_begin (e_root s) t s)\<lparr>e_mu := Some (Planning th (t # ts) True),
      e_history := e_history s @ [(t, St_invalid)]\<rparr>"
  shows "ctx_order g c0 s'"
proof -
  from stop have t: "t \<in> tasks_of (ts_exec s)" using exec_invD(1) [OF inv] by (simp add: base_inv_def)
  have node: "ex_state (node s' x) = (if x = t then St_invalid else ex_state (node s x))" for x
    using stop by simp
  have "hd (c0 t) < ts_next s"
    using births_below(1) [OF births t] ids unfolding ctx_ids_def by simp
  then have "ts_next s # e_root s \<noteq> c0 t" by (metis less_irrefl list.sel(1))
  then have reset: "reset c0 s' x \<longleftrightarrow> x = t \<or> reset c0 s x" for x
    using stop by (auto simp: reset_def)
  have act: "active_at s' = active_at s" using stop by (intro active_at_same) simp
  have wait: "waiting s' x \<longleftrightarrow> x = t" for x using stop by (auto simp: waiting_def)
  have tasks: "tasks_of (ts_exec s') = tasks_of (ts_exec s)" using stop t by simp
  have started: "ex_state (node s t) \<noteq> St_invalid" using stop by (simp add: invalidate_skips_def)
  show ?thesis
    unfolding ctx_order_def tasks act node
  proof (intro conjI allI ballI impI)
    fix x i assume "active_at s x i" "\<not> reset c0 s' x"
    then show "(if x = t then St_invalid else ex_state (node s x)) = St_running"
      using ctx_orderD(1) [OF order] reset by auto
  next
    fix x i assume "waiting s' x"
    then show "(if x = t then St_invalid else ex_state (node s x)) = St_invalid"
      using wait by simp
  next
    fix y x assume yx: "y \<in> tasks_of (ts_exec s)" "x \<in> deps_of g y"
      "(if y = t then St_invalid else ex_state (node s y)) \<noteq> St_invalid \<or> reset c0 s' y"
      and x: "\<not> reset c0 s' x"
    then have "ex_state (node s y) \<noteq> St_invalid \<or> reset c0 s y" "\<not> reset c0 s x" "x \<noteq> t"
      using started reset by (auto split: if_splits)
    with ctx_orderD(3) [OF order yx(1,2)]
    show "(if x = t then St_invalid else ex_state (node s x)) = St_done" by simp
  qed
qed

lemma ctx_order_spawned:
  assumes inv: "exec_inv g s" and order: "ctx_order g c0 s"
    and spawned: "e_mu s = Some (Passing th (t # ts))"
    "should_execute (ts_exec s) t"
    "s' = (spawn t s)\<lparr>e_mu := Some (Passing th ts)\<rparr>"
  shows "ctx_order g c0 s'"
proof -
  from spawned have t: "t \<in> tasks_of (ts_exec s)" using exec_invD(1) [OF inv] by (simp add: base_inv_def)
  have act: "active_at s' x j \<longleftrightarrow> active_at s x j \<or> x = t \<and> j = e_next_run s" for x j
    using spawned exec_invD(1) [OF inv]
    by (intro active_at_spawn) (simp_all add: base_inv_def runs_ok_next)
  have node: "ex_state (node s' x) = (if x = t then St_running else ex_state (node s x))" for x
    using spawned by simp
  have frame: "tasks_of (ts_exec s') = tasks_of (ts_exec s)" "waiting s' x = False"
    "reset c0 s' = reset c0 s" for x
    using spawned t by (auto simp: waiting_holder reset_def fun_eq_iff)
  have ready: "ex_state (node s t) = St_invalid"
    "\<And>d. d \<in> deps_of g t \<Longrightarrow> ex_state (node s d) = St_done"
    using spawned exec_invD(3) [OF inv] t by (auto simp: should_execute_iff graph_inv_def)
  show ?thesis
    unfolding ctx_order_def frame node
  proof (intro conjI allI ballI impI)
    fix x i assume "active_at s' x i" "\<not> reset c0 s x"
    then show "(if x = t then St_running else ex_state (node s x)) = St_running"
      using act ctx_orderD(1) [OF order] by auto
  next
    fix y x assume yx: "y \<in> tasks_of (ts_exec s)" "x \<in> deps_of g y"
      "(if y = t then St_running else ex_state (node s y)) \<noteq> St_invalid \<or> reset c0 s y"
      and x: "\<not> reset c0 s x"
    have "ex_state (node s x) = St_done"
    proof (cases "y = t")
      case True
      with ready yx show ?thesis by blast
    next
      case False
      with ctx_orderD(3) [OF order yx(1,2) _ x] yx(3) show ?thesis by simp
    qed
    then show "(if x = t then St_running else ex_state (node s x)) = St_done"
      using ready(1) by auto
  qed simp
qed

lemma ctx_order_effect:
  assumes inv: "exec_inv g s" and births: "births g c0 N (e_root s) (tasks_of (ts_exec s))"
    and ids: "ctx_ids c0 N s" and order: "ctx_order g c0 s" and eff: "effect g s s'"
  shows "ctx_order g c0 s'"
  using eff
proof cases
  case quiet
  then show ?thesis
    by (intro ctx_order_frame [OF order]) (auto dest!: same_coreD active_at_moves)
next
  case (mark n t ev b)
  then show ?thesis
    by (intro ctx_order_frame [OF order])
      (auto dest!: same_coreD active_at_moves simp: mark_invalid_tasks mark_invalid_fields)
next
  case (start i r)
  then have "active_at s' = active_at s"
    by (intro active_at_upd [OF start(3) start(5)]) (auto simp: active_def)
  with start show ?thesis by (intro ctx_order_frame [OF order]) (auto dest!: same_coreD)
next
  case (check i r v)
  then have "active_at s' = active_at s"
    by (intro active_at_upd [OF check(3) check(6)]) (auto simp: active_def)
  with check show ?thesis by (intro ctx_order_frame [OF order]) (auto dest!: same_coreD)
next
  case (write_nothing i r)
  then have "active_at s' x j \<longleftrightarrow> active_at s x j \<and> j \<noteq> i" for x j
    by (intro active_at_end [OF write_nothing(3) write_nothing(7)]) (auto simp: active_def)
  with write_nothing show ?thesis by (intro ctx_order_frame [OF order]) (auto dest!: same_coreD)
next
  case (write_state i r st)
  then show ?thesis by (rule ctx_order_write_state [OF inv order])
next
  case (send i r)
  let ?t = "gr_task r"
  have "?t \<in> tasks_of (ts_exec s)"
    using exec_invD(1) [OF inv] send by (auto simp: base_inv_def runs_okD)
  moreover have "active_at s' x j \<longleftrightarrow> active_at s x j \<and> j \<noteq> i" for x j
    using send by (intro active_at_end [of s i r s' "r\<lparr>gr_pc := G_keep\<rparr>"]) (auto simp: active_def)
  ultimately show ?thesis
    using send by (intro ctx_order_frame [OF order]) (auto simp: waiting_def)
next
  case (stop th t ts)
  then show ?thesis by (rule ctx_order_stop [OF inv births ids order])
next
  case (stopped th t ts)
  then have t: "t \<in> tasks_of (ts_exec s)" using exec_invD(1) [OF inv] by (simp add: base_inv_def)
  have "active_at s' = active_at s" using stopped by (intro active_at_same) simp
  with stopped t show ?thesis
    by (intro ctx_order_frame [OF order]) (auto simp: waiting_holder)
next
  case (spawned th t ts)
  then show ?thesis by (rule ctx_order_spawned [OF inv order])
next
  case (returned i r)
  then have "active_at s' = active_at s"
    by (intro active_at_gone [OF returned(3) returned(5)]) (auto simp: active_def)
  with returned show ?thesis by (intro ctx_order_frame [OF order]) (auto dest!: same_coreD)
next
  case shutdown
  then have "active_at s' = active_at s" by (intro active_at_same) simp
  with shutdown show ?thesis by (intro ctx_order_frame [OF order]) (auto simp: waiting_def)
qed

lemma ctx_runsD:
  assumes "ctx_runs s" and "e_runs s i = Some r"
  shows "gr_pc r \<in> {G_body, G_check, G_write} \<Longrightarrow>
      gr_ctx r = ex_ctx (node s (gr_task r)) \<or> waiting s (gr_task r)"
    "gr_pc r = G_write \<Longrightarrow> gr_verdict r = V_canceled \<Longrightarrow> ctx_err (ts_cancelled s) (gr_ctx r)"
  using assms unfolding ctx_runs_def by blast+

lemma ctx_runs_effect:
  assumes inv: "exec_inv g s" and runs: "ctx_runs s" and eff: "effect g s s'"
  shows "ctx_runs s'"
  using eff
proof cases
  case quiet
  then show ?thesis by (intro ctx_runs_moves [OF runs]) (auto dest!: same_coreD)
next
  case (mark n t ev b)
  then show ?thesis
    by (intro ctx_runs_moves [OF runs]) (auto dest!: same_coreD simp: mark_invalid_fields)
next
  case (start i r)
  then show ?thesis
    by (intro ctx_runs_upd [OF runs start(3,5)]) (auto dest!: same_coreD)
next
  case (check i r v)
  with ctx_runsD [OF runs check(3)] show ?thesis
    by (intro ctx_runs_upd [OF runs check(3,6)]) (auto dest!: same_coreD split: if_splits)
next
  case (write_nothing i r)
  then show ?thesis
    by (intro ctx_runs_upd [OF runs write_nothing(3,7)]) (auto dest!: same_coreD)
next
  case (write_state i r st)
  then show ?thesis
    by (intro ctx_runs_upd [OF runs, of i r s' "r\<lparr>gr_pc := G_publish\<rparr>"])
      (auto simp: waiting_def fun_eq_iff)
next
  case (send i r)
  then show ?thesis
    by (intro ctx_runs_upd [OF runs, of i r s' "r\<lparr>gr_pc := G_keep\<rparr>"])
      (auto simp: waiting_def fun_eq_iff)
next
  case (stop th t ts)
  then have "waiting s' x \<longleftrightarrow> x = t" "\<not> waiting s x" "e_runs s' = e_runs s"
    "x \<noteq> t \<Longrightarrow> node s' x = node s x" "ts_cancelled s \<subseteq> ts_cancelled s'" for x
    by (auto simp: waiting_def)
  then show ?thesis using runs unfolding ctx_runs_def by (metis ctx_err_mono)
next
  case (stopped th t ts)
  then have none: "\<not> active_at s t i" for i by (intro not_active exec_invD(2) [OF inv])
  have w: "waiting s x \<longleftrightarrow> x = t" "\<not> waiting s' x" for x using stopped by (auto simp: waiting_def)
  have same: "e_runs s' = e_runs s" "ex_ctx (node s' x) = ex_ctx (node s x)"
    "ts_cancelled s' = ts_cancelled s" for x
    using stopped by simp_all
  have "gr_task r \<noteq> t" if "e_runs s i = Some r" "gr_pc r \<in> {G_body, G_check, G_write}" for i r
    using that none [of i] by (auto simp: active_at_def active_def)
  with runs show ?thesis unfolding ctx_runs_def same w by blast
next
  case (spawned th t ts)
  have "e_runs s' = (e_runs s)(e_next_run s \<mapsto> new_run t)" "waiting s' = waiting s"
    "ex_ctx (node s' x) = ex_ctx (node s x)" "ts_cancelled s' = ts_cancelled s" for x
    using spawned by (auto simp: waiting_def fun_eq_iff)
  with runs show ?thesis unfolding ctx_runs_def by (simp add: new_run_simps)
next
  case (returned i r)
  then have old: "e_runs s j = Some q" if "e_runs s' j = Some q" for j q
    using that by (simp split: if_splits)
  have same: "waiting s' = waiting s" "ts_exec s' = ts_exec s" "ts_cancelled s' = ts_cancelled s"
    using returned by (auto dest!: same_coreD)
  show ?thesis
    unfolding ctx_runs_def same using ctx_runsD [OF runs old] by blast
next
  case shutdown
  then have same: "e_runs s' = e_runs s" "waiting s' = waiting s"
    "ts_exec s' = ts_exec s" "ts_cancelled s \<subseteq> ts_cancelled s'"
    by (auto simp: waiting_def fun_eq_iff)
  then show ?thesis using runs unfolding ctx_runs_def by (metis ctx_err_mono)
qed

section \<open>In every reachable state\<close>

lemma ctx_inv_effect:
  assumes "exec_inv g s" and inv: "ctx_inv g c0 N s" and eff: "effect g s s'"
  shows "ctx_inv g c0 N s'"
proof -
  have base: "base_inv s" by (rule exec_invD(1) [OF assms(1)])
  have "tasks_of (ts_exec s') = tasks_of (ts_exec s)"
    using effect_same_graph [OF base eff] by (simp add: same_graph_def)
  moreover have births: "births g c0 N (e_root s) (tasks_of (ts_exec s))" and ids: "ctx_ids c0 N s"
    and order: "ctx_order g c0 s" and runs: "ctx_runs s"
    using inv by (simp_all add: ctx_inv_def)
  ultimately show ?thesis
    using effect_root [OF eff] ctx_ids_effect [OF base births ids eff]
      ctx_order_effect [OF assms(1) births ids order eff] ctx_runs_effect [OF assms(1) runs eff]
    by (simp add: ctx_inv_def)
qed

text \<open>The context tree of the graph gives the contexts the nodes were built with.\<close>

lemma starts_births:
  assumes "built g root (empty_task_set k) ts" and "\<forall>i \<in> set root. i < k"
  shows "births g (node_ctx ts) (ts_next ts) root (tasks_of (ts_exec ts)) \<and> k \<le> ts_next ts"
proof -
  have new: "new_nodes (empty_task_set k) ts = dom (ts_exec ts)" by (simp add: new_nodes_def)
  have tree: "ctx_tree g root (empty_task_set k) ts" by (rule builtD(4) [OF assms(1)])
  have grows: "k \<le> ts_next ts" using builtD(3) [OF assms(1)] by (simp add: grows_def)
  have "\<exists>pre. pre \<noteq> [] \<and> node_ctx ts x = pre @ root \<and> (\<forall>i \<in> set pre. i < ts_next ts \<and>
      i \<notin> set root \<and> (\<exists>y \<in> dom (ts_exec ts). (x = y \<or> x \<in> deps_of g y) \<and> hd (node_ctx ts y) = i))"
    if "x \<in> dom (ts_exec ts)" for x
  proof -
    from ctx_treeD [OF tree, of x] that have "ctx_node g root k ts (dom (ts_exec ts)) x"
      unfolding new by simp
    then obtain pre where "pre \<noteq> []" "node_ctx ts x = pre @ root"
      "\<forall>i \<in> set pre. k \<le> i \<and> i < ts_next ts \<and> owned g ts (dom (ts_exec ts)) x i"
      unfolding ctx_node_def by blast
    with assms(2) show ?thesis unfolding owned_def by (intro exI [of _ pre]) fastforce
  qed
  moreover have "inj_on (\<lambda>x. hd (node_ctx ts x)) (dom (ts_exec ts))"
    using tree unfolding ctx_tree_def new by blast
  ultimately show ?thesis
    using assms(2) grows unfolding births_def tasks_of_def by fastforce
qed

lemma starts_ctx_inv:
  assumes "starts g s"
  shows "\<exists>c0 N. ctx_inv g c0 N s"
proof -
  from assms obtain root k ts where b: "built g root (empty_task_set k) ts" "\<forall>i \<in> set root. i < k"
    and s: "s = start_executor root ts"
    by (rule starts_built)
  let ?c0 = "node_ctx ts" and ?N = "ts_next ts"
  have births: "births g ?c0 ?N root (tasks_of (ts_exec s))"
    using starts_births [OF b] s by simp
  have new: "\<not> reset ?c0 s x" if "x \<in> tasks_of (ts_exec s)" for x
    using that s by (simp add: reset_def node_ctx_def)
  have "ts_cancelled ts = {}"
    using builtD(3) [OF b(1)] by (simp add: grows_def)
  then have "ctx_ids ?c0 ?N s" using new s by (auto simp: ctx_ids_def)
  moreover have "ex_state (node s x) = St_invalid" for x
    using idle_node_of [OF builtD(2) [OF b(1)]] s by simp
  then have "ctx_order g ?c0 s"
    using new s by (simp add: ctx_order_def active_at_def)
  moreover have "ctx_runs s" using s by (simp add: ctx_runs_def)
  ultimately show ?thesis using births s by (auto simp: ctx_inv_def)
qed

interpretation contexts: invariant "starts g" "exec_step g" "exec_inv g"
  "\<lambda>s. \<exists>c0 N. ctx_inv g c0 N s" for g
proof unfold_locales
  show "exec_inv g s" if "reachable g s" for s using machine.inv_reachable that .
  show "\<exists>c0 N. ctx_inv g c0 N s" if "starts g s" for s using starts_ctx_inv that .
  show "\<exists>c0 N. ctx_inv g c0 N s'"
    if "exec_inv g s" "\<exists>c0 N. ctx_inv g c0 N s" "exec_step g s s'" for s s'
    using that ctx_inv_effect step_effect by blast
qed

text \<open>A node's own context is alive while the executor's is, as long as it has an active run.\<close>

lemma active_ctx_alive:
  assumes inv: "exec_inv g s" and ctx: "ctx_inv g c0 N s" and a: "active_at s x i"
    and root: "\<not> root_done s" and x: "x \<in> tasks_of (ts_exec s)"
  shows "\<not> ctx_err (ts_cancelled s) (ex_ctx (node s x))"
proof (cases "reset c0 s x")
  case True
  then obtain j where "j \<notin> ts_cancelled s" "ex_ctx (node s x) = j # e_root s"
    using ctx x unfolding ctx_inv_def ctx_ids_def by blast
  with root show ?thesis by (simp add: root_done_def)
next
  case False
  have births: "births g c0 N (e_root s) (tasks_of (ts_exec s))" and order: "ctx_order g c0 s"
    and ids: "ctx_ids c0 N s"
    using ctx by (simp_all add: ctx_inv_def)
  from births x obtain pre where pre: "c0 x = pre @ e_root s"
    "\<forall>i \<in> set pre. i < N \<and> i \<notin> set (e_root s) \<and>
       (\<exists>y \<in> tasks_of (ts_exec s). (x = y \<or> x \<in> deps_of g y) \<and> hd (c0 y) = i)"
    unfolding births_def by blast
  have running: "ex_state (node s x) = St_running" by (rule ctx_orderD(1) [OF order a False])
  have "j \<notin> ts_cancelled s" if j: "j \<in> set pre" for j
  proof
    assume "j \<in> ts_cancelled s"
    with ids pre(2) j obtain y where y: "y \<in> tasks_of (ts_exec s)" "reset c0 s y" "j = hd (c0 y)"
      unfolding ctx_ids_def by fastforce
    moreover from pre(2) j obtain y' where y': "y' \<in> tasks_of (ts_exec s)"
      "x = y' \<or> x \<in> deps_of g y'" "hd (c0 y') = j"
      by blast
    ultimately have "y = y'" using births_inj [OF births] by metis
    with y y' False have "x \<in> deps_of g y" by auto
    from ctx_orderD(3) [OF order y(1) this _ False] y(2) running show False by simp
  qed
  with False root pre(1) show ?thesis by (auto simp: reset_def root_done_def ctx_err_def)
qed

lemma run_ctx_alive:
  assumes inv: "exec_inv g s" and ctx: "ctx_inv g c0 N s" and r: "e_runs s i = Some r"
    and pc: "gr_pc r \<in> {G_body, G_check, G_write}" and root: "\<not> root_done s"
    and err: "ctx_err (ts_cancelled s) (gr_ctx r)"
  shows "waiting s (gr_task r) \<and> ex_state (node s (gr_task r)) = St_invalid"
proof -
  have a: "active_at s (gr_task r) i" using r pc by (auto simp: active_at_def active_def)
  have "gr_task r \<in> tasks_of (ts_exec s)"
    using exec_invD(1) [OF inv] r by (simp add: base_inv_def runs_okD)
  with active_ctx_alive [OF inv ctx a root] err have "gr_ctx r \<noteq> ex_ctx (node s (gr_task r))"
    by auto
  with ctx r pc have w: "waiting s (gr_task r)"
    unfolding ctx_inv_def by (blast dest: ctx_runsD(1))
  with ctx a show ?thesis unfolding ctx_inv_def by (blast dest: ctx_orderD(2))
qed

end
