(* ===== verification/ExecutorOrder.thy ===== *)
theory ExecutorOrder
  imports ExecutorContexts
begin

text \<open>
  The order in which the executor writes the nodes' states: no task is started before the
  tasks it depends on are done, at most one run of a task is under way, and the transitions
  of a node are those of the state machine the constants of \<open>task_execution.go\<close> describe.
\<close>

section \<open>Histories\<close>

definition last_state :: "(tid \<times> task_state) list \<Rightarrow> tid \<Rightarrow> task_state" where
  "last_state h x = foldl (\<lambda>st (t, st'). if t = x then st' else st) St_invalid h"

lemma last_state_Nil [simp]: "last_state [] x = St_invalid"
  by (simp add: last_state_def)

lemma last_state_snoc [simp]: "last_state (h @ [(t, st)]) x = (if t = x then st else last_state h x)"
  by (simp add: last_state_def)

definition legal_write :: "(tid \<Rightarrow> 'w task) \<Rightarrow> (tid \<Rightarrow> task_state) \<Rightarrow> tid \<Rightarrow> task_state \<Rightarrow> bool" where
  "legal_write g before t st = (case st of
     St_running \<Rightarrow> before t = St_invalid \<and> (\<forall>d \<in> deps_of g t. before d = St_done)
   | St_invalid \<Rightarrow> before t \<in> {St_running, St_error, St_done}
   | _ \<Rightarrow> before t \<in> {St_running, St_invalid})"

definition legal_history :: "(tid \<Rightarrow> 'w task) \<Rightarrow> (tid \<times> task_state) list \<Rightarrow> bool" where
  "legal_history g h \<longleftrightarrow>
     (\<forall>pre t st post. h = pre @ (t, st) # post \<longrightarrow> legal_write g (last_state pre) t st)"

lemma legal_history_Nil [simp]: "legal_history g []"
  by (simp add: legal_history_def)

lemma legal_history_snoc:
  "legal_history g (h @ [(t, st)]) \<longleftrightarrow> legal_history g h \<and> legal_write g (last_state h) t st"
proof -
  have "h @ [(t, st)] = pre @ (u, su) # post \<longleftrightarrow>
      post = [] \<and> pre = h \<and> u = t \<and> su = st \<or>
      (\<exists>post'. post = post' @ [(t, st)] \<and> h = pre @ (u, su) # post')" for pre u su post
    by (cases post rule: rev_cases) auto
  then show ?thesis by (auto simp: legal_history_def)
qed

section \<open>The invariant\<close>

definition order_inv :: "(tid \<Rightarrow> 'w task) \<Rightarrow> executor \<Rightarrow> bool" where
  "order_inv g s \<longleftrightarrow> legal_history g (e_history s) \<and>
     (\<forall>x. last_state (e_history s) x = ex_state (node s x)) \<and>
     (\<forall>i r. e_runs s i = Some r \<longrightarrow> active r \<longrightarrow>
        ex_state (node s (gr_task r)) \<in> {St_running, St_invalid}) \<and>
     (\<forall>x. ex_state (node s x) = St_running \<longrightarrow>
        (\<exists>i r. e_runs s i = Some r \<and> active r \<and> gr_task r = x))"

lemma order_invD:
  assumes "order_inv g s"
  shows "legal_history g (e_history s)" "last_state (e_history s) x = ex_state (node s x)"
    "e_runs s i = Some r \<Longrightarrow> active r \<Longrightarrow> ex_state (node s (gr_task r)) \<in> {St_running, St_invalid}"
    "ex_state (node s x) = St_running \<Longrightarrow> \<exists>i r. e_runs s i = Some r \<and> active r \<and> gr_task r = x"
  using assms unfolding order_inv_def by blast+

lemma order_inv_alt:
  "order_inv g s \<longleftrightarrow> legal_history g (e_history s) \<and>
     (\<forall>x. last_state (e_history s) x = ex_state (node s x)) \<and>
     (\<forall>x i. active_at s x i \<longrightarrow> ex_state (node s x) \<in> {St_running, St_invalid}) \<and>
     (\<forall>x. ex_state (node s x) = St_running \<longrightarrow> (\<exists>i. active_at s x i))"
  unfolding order_inv_def active_at_def by blast

lemma order_inv_frame:
  assumes "order_inv g s" and "active_at s' = active_at s" and "e_history s' = e_history s"
    and "\<And>x. ex_state (node s' x) = ex_state (node s x)"
  shows "order_inv g s'"
  using assms unfolding order_inv_alt by simp

lemma order_inv_write:
  assumes inv: "order_inv g s" and st: "legal_write g (\<lambda>x. ex_state (node s x)) t st"
    and hist: "e_history s' = e_history s @ [(t, st)]"
    and node: "\<And>x. ex_state (node s' x) = (if x = t then st else ex_state (node s x))"
    and act: "\<And>x i. x \<noteq> t \<Longrightarrow> active_at s' x i = active_at s x i"
    and at: "st = St_running \<and> (\<exists>i. active_at s' t i) \<or> st = St_invalid \<or>
      st \<noteq> St_running \<and> (\<forall>i. \<not> active_at s' t i)"
  shows "order_inv g s'"
proof -
  have "last_state (e_history s) = (\<lambda>x. ex_state (node s x))"
    using inv by (simp add: order_inv_def fun_eq_iff)
  then have "legal_history g (e_history s')"
    using inv st hist by (simp add: legal_history_snoc order_inv_def)
  moreover have "last_state (e_history s') x = ex_state (node s' x)" for x
    using inv hist node by (simp add: order_inv_def)
  moreover have "ex_state (node s' x) \<in> {St_running, St_invalid}" if "active_at s' x i" for x i
    using inv that node act [of x i] at unfolding order_inv_alt by (cases "x = t") auto
  moreover have "\<exists>i. active_at s' x i" if "ex_state (node s' x) = St_running" for x
    using inv that node act [of x] at unfolding order_inv_alt by (cases "x = t") auto
  ultimately show ?thesis unfolding order_inv_alt by blast
qed

lemma order_inv_effect:
  assumes inv: "exec_inv g s" and ctx: "ctx_inv g c0 N s" and order: "order_inv g s"
    and eff: "effect g s s'"
  shows "order_inv g s'"
  using eff
proof cases
  case quiet
  then show ?thesis
    by (intro order_inv_frame [OF order]) (auto dest!: same_coreD active_at_moves)
next
  case (mark n t ev b)
  then show ?thesis
    by (intro order_inv_frame [OF order])
      (auto dest!: same_coreD active_at_moves simp: mark_invalid_fields)
next
  case (start i r)
  then have "active_at s' = active_at s"
    by (intro active_at_upd [OF start(3) start(5)]) (auto simp: active_def)
  with start show ?thesis by (intro order_inv_frame [OF order]) (auto dest!: same_coreD)
next
  case (check i r v)
  then have "active_at s' = active_at s"
    by (intro active_at_upd [OF check(3) check(6)]) (auto simp: active_def)
  with check show ?thesis by (intro order_inv_frame [OF order]) (auto dest!: same_coreD)
next
  case (write_nothing i r)
  then have act: "active_at s' x j \<longleftrightarrow> active_at s x j \<and> j \<noteq> i" for x j
    by (intro active_at_end [OF write_nothing(3) write_nothing(7)]) (auto simp: active_def)
  have "ctx_err (ts_cancelled s) (gr_ctx r)"
    using ctx write_nothing unfolding ctx_inv_def by (blast dest: ctx_runsD(2))
  with run_ctx_alive [OF inv ctx write_nothing(3)] write_nothing
  have "ex_state (node s (gr_task r)) = St_invalid" by simp
  moreover have "x = gr_task r" if "active_at s x i" for x
    using that write_nothing by (simp add: active_at_def)
  ultimately show ?thesis
    using order write_nothing unfolding order_inv_alt act
    by (auto dest!: same_coreD) (metis task_state.distinct(1))
next
  case (write_state i r st)
  let ?t = "gr_task r"
  have a: "active_at s ?t i" using write_state by (auto intro: active_atI simp: active_def)
  have act: "active_at s' x j \<longleftrightarrow> active_at s x j \<and> j \<noteq> i" for x j
    using write_state by (intro active_at_end [of s i r s' "r\<lparr>gr_pc := G_publish\<rparr>"])
      (auto simp: active_def)
  show ?thesis
  proof (rule order_inv_write [OF order, of ?t st])
    have "ex_state (node s ?t) \<in> {St_running, St_invalid}"
      using order a unfolding order_inv_alt by blast
    then show "legal_write g (\<lambda>x. ex_state (node s x)) ?t st"
      using write_state(3) by (auto simp: legal_write_def)
    show "active_at s' x j = active_at s x j" if "x \<noteq> ?t" for x j
      using act that write_state(1) by (auto simp: active_at_def)
    have "\<not> active_at s' ?t j" for j
      using act active_at_unique [OF exec_invD(2) [OF inv] a] by blast
    then show "st = St_running \<and> (\<exists>i. active_at s' ?t i) \<or> st = St_invalid \<or>
      st \<noteq> St_running \<and> (\<forall>i. \<not> active_at s' ?t i)"
      using write_state(3) by auto
  qed (use write_state in simp_all)
next
  case (send i r)
  have "\<not> active r" "\<not> active (r\<lparr>gr_pc := G_keep\<rparr>)" using send by (simp_all add: active_def)
  with send have "active_at s' = active_at s"
    by (intro active_at_upd [of s i r s' "r\<lparr>gr_pc := G_keep\<rparr>"]) auto
  with send show ?thesis by (intro order_inv_frame [OF order]) auto
next
  case (stop th t ts)
  have act: "active_at s' = active_at s" using stop by (intro active_at_same) simp
  have "ex_state (node s t) \<in> {St_running, St_error, St_done}"
    using stop by (cases "ex_state (node s t)") (auto simp: invalidate_skips_def)
  then have "legal_write g (\<lambda>x. ex_state (node s x)) t St_invalid" by (simp add: legal_write_def)
  with stop act show ?thesis by (intro order_inv_write [OF order, of t St_invalid]) auto
next
  case (stopped th t ts)
  have "active_at s' = active_at s" using stopped by (intro active_at_same) simp
  with stopped show ?thesis by (intro order_inv_frame [OF order]) auto
next
  case (spawned th t ts)
  then have t: "t \<in> tasks_of (ts_exec s)" using exec_invD(1) [OF inv] by (simp add: base_inv_def)
  have act: "active_at s' x j \<longleftrightarrow> active_at s x j \<or> x = t \<and> j = e_next_run s" for x j
    using spawned exec_invD(1) [OF inv]
    by (intro active_at_spawn) (simp_all add: base_inv_def runs_ok_next)
  have "legal_write g (\<lambda>x. ex_state (node s x)) t St_running"
    using spawned exec_invD(3) [OF inv] t
    by (auto simp: should_execute_iff graph_inv_def legal_write_def)
  with spawned act show ?thesis by (intro order_inv_write [OF order, of t St_running]) auto
next
  case (returned i r)
  then have "active_at s' = active_at s"
    by (intro active_at_gone [OF returned(3) returned(5)]) (auto simp: active_def)
  with returned show ?thesis by (intro order_inv_frame [OF order]) (auto dest!: same_coreD)
next
  case shutdown
  then have "active_at s' = active_at s" by (intro active_at_same) simp
  with shutdown show ?thesis by (intro order_inv_frame [OF order]) auto
qed

lemma starts_order_inv:
  assumes "starts g s"
  shows "order_inv g s"
proof -
  from assms obtain root k ts where b: "built g root (empty_task_set k) ts"
    and s: "s = start_executor root ts"
    by (rule starts_built)
  then show ?thesis
    by (simp add: order_inv_def idle_node_of [OF builtD(2) [OF b]])
qed

interpretation order: invariant "starts g" "exec_step g"
  "\<lambda>s. exec_inv g s \<and> (\<exists>c0 N. ctx_inv g c0 N s)" "order_inv g" for g
proof unfold_locales
  show "exec_inv g s \<and> (\<exists>c0 N. ctx_inv g c0 N s)" if "reachable g s" for s
    using contexts.both_reachable that .
  show "order_inv g s" if "starts g s" for s using starts_order_inv that .
  show "order_inv g s'"
    if "exec_inv g s \<and> (\<exists>c0 N. ctx_inv g c0 N s)" "order_inv g s" "exec_step g s s'" for s s'
    using that order_inv_effect step_effect by blast
qed

end
