(* ===== verification/ExecutorRuns.thy ===== *)
theory ExecutorRuns
  imports ExecutorOrder
begin

text \<open>
  Concrete runs of the executor's machine, for the witnesses: two tasks of which the second
  depends on the first, and the steps of a run of each.
\<close>

definition pair :: "tid \<Rightarrow> unit task" where
  "pair t = zero_task\<lparr>t_name := [char_of (65 + t)], t_run := Some (\<lambda>c sh w. Return (None, w)),
     t_dependencies := (if t = 1 then [0] else [])\<rparr>"

definition pair_start :: executor where
  "pair_start = start_executor [0]
     \<lparr>ts_next = 3, ts_cancelled = {},
      ts_exec = [0 \<mapsto> (new_execution [2, 1, 0] [])\<lparr>ex_dependents := [1]\<rparr>,
                 1 \<mapsto> new_execution [1, 0] [0]]\<rparr>"

lemma pair_wf: "wf (dep_rel pair)"
  by (rule rank_wf) (auto simp: pair_def split: if_splits)

lemma pair_build:
  "build_task_set 3 pair [''B'' \<mapsto> 1] [0] [''B''] (empty_task_set 1) = Some (Inr
     \<lparr>ts_next = 3, ts_cancelled = {},
      ts_exec = [0 \<mapsto> (new_execution [2, 1, 0] [])\<lparr>ex_dependents := [1]\<rparr>,
                 1 \<mapsto> new_execution [1, 0] [0]]\<rparr>)"
  by (simp add: eval_nat_numeral pair_def with_cancel_def zero_task_def add_dependent_def
      upd_exec_def exec_of_def new_execution_def empty_task_set_def fun_eq_iff)

lemma pair_starts: "starts pair pair_start"
  unfolding starts_def pair_start_def using pair_wf pair_build by fastforce

lemma pair_reachable: "do_actions pair as pair_start = Some s \<Longrightarrow> reachable pair s"
  using do_actions_reachable [of pair as pair_start s] pair_starts
  by (blast intro: reachable_by.initial)

text \<open>The first pass, which starts task 0, and the whole of its run, which starts task 1.\<close>

definition first_pass :: "action list" where
  "first_pass = [A_test_pass, A_lock_pass [0, 1], A_visit, A_visit, A_visit]"

definition first_run :: "action list" where
  "first_run = [A_start 0, A_body 0 None, A_check 0, A_write 0, A_publish 0, A_send 0,
     A_keep 0 0, A_plan_run 0 [0, 1], A_plan_next, A_pass_test 0, A_lock_run 0 [1, 0],
     A_visit, A_visit, A_visit, A_return 0]"

lemmas machine_eval =
  op_defs pair_def pair_start_def start_executor_def zero_task_def at_pc_def ordered_def
  is_order_def set_run_def publish_def set_state_def after_keep_def spawn_def new_run_def
  invalidate_begin_def invalidate_end_def invalidate_skips_def begin_plan_def Let_def exec_of_def
  upd_exec_def new_execution_def should_execute_def root_done_def plan_selects_def with_cancel_def
  cancel_exec_def accepts_def ctx_err_def insert_commute has_body_def rejects_def first_pass_def first_run_def

lemma first_run_eval:
  "\<exists>s. do_actions pair (first_pass @ first_run @ [A_start 1, A_body 1 None, A_check 1, A_write 1])
       pair_start = Some s \<and>
     e_history s = [(0, St_running), (0, St_done), (1, St_running), (1, St_done)]"
  by (simp add: machine_eval)

text \<open>
  The same, but task 0 is invalidated while task 1 runs: a plan cancels the run of task 1
  when it reaches it.
\<close>

definition changed :: invalidation_event where
  "changed = FileChange ''a.go''"

lemma interrupted_eval:
  "\<exists>s r. do_actions pair (first_pass @ first_run @ [A_start 1, A_invalidate (Suc (Suc 0)) 0 changed,
       A_notify_ch, A_loop_recv, A_loop_timer, A_plan_loop [1, 0], A_plan_next]) pair_start = Some s \<and>
     e_runs s 1 = Some r \<and> gr_task r = 1 \<and> gr_pc r = G_body \<and> waiting s 1 \<and> \<not> root_done s \<and>
     ctx_err (ts_cancelled s) (gr_ctx r)"
  by (simp add: machine_eval waiting_def changed_def)

end
