(* ===== verification/ExecutorWake.thy ===== *)
theory ExecutorWake
  imports ExecutorRuns
begin

text \<open>
  Nothing is forgotten: as long as a task could be started, some pass is still to come that
  will visit it, and as long as an invalidation is pending on a node that is not invalid,
  a plan is still to come that will find it. From the two follows what the executor has
  achieved when it comes to rest.
\<close>

section \<open>Wake-ups\<close>

definition run_owes_pass :: "executor \<Rightarrow> bool" where
  "run_owes_pass s \<longleftrightarrow> (\<exists>i r. e_runs s i = Some r \<and> gr_pc r \<noteq> G_return \<and>
     (\<forall>ts. e_mu s \<noteq> Some (Passing (Th_run i) ts)))"

definition pass_to_come :: "executor \<Rightarrow> tid \<Rightarrow> bool" where
  "pass_to_come s x \<longleftrightarrow> 0 < e_passes s \<or> 0 < e_locks s \<or> run_owes_pass s \<or>
     (\<exists>th ts w. e_mu s = Some (Planning th ts w)) \<or>
     (\<exists>th ts. e_mu s = Some (Passing th ts) \<and> x \<in> set ts)"

definition wake_inv :: "executor \<Rightarrow> bool" where
  "wake_inv s \<longleftrightarrow> \<not> root_done s \<longrightarrow>
     (\<forall>x \<in> tasks_of (ts_exec s). should_execute (ts_exec s) x \<longrightarrow> pass_to_come s x)"

lemma wake_always: "(\<And>x. x \<in> tasks_of (ts_exec s) \<Longrightarrow> pass_to_come s x) \<Longrightarrow> wake_inv s"
  by (simp add: wake_inv_def)

lemma wake_run:
  assumes "e_runs s i = Some r" "gr_pc r \<noteq> G_return" "\<And>ts. e_mu s \<noteq> Some (Passing (Th_run i) ts)"
  shows "wake_inv s"
proof (rule wake_always)
  have "run_owes_pass s" using assms unfolding run_owes_pass_def by blast
  then show "pass_to_come s x" for x by (simp add: pass_to_come_def)
qed

text \<open>A statement of a run that does not hold the lock keeps the pass it owes.\<close>

lemma wake_at_pc:
  assumes base: "base_inv s" and r: "e_runs s i = Some r" "gr_pc r \<noteq> G_lock"
    and s': "e_runs s' = (e_runs s)(i \<mapsto> r')" "gr_pc r' \<noteq> G_return" "e_mu s' = e_mu s"
  shows "wake_inv s'"
proof (rule wake_run)
  show "e_runs s' i = Some r'" using s' by simp
  show "gr_pc r' \<noteq> G_return" using s' by simp
  show "e_mu s' \<noteq> Some (Passing (Th_run i) ts)" for ts
    using holder_run(2) [OF base r(1)] r(2) s'(3) by auto
qed

lemma wake_frame:
  assumes "wake_inv s" and "root_done s \<Longrightarrow> root_done s'"
    and "tasks_of (ts_exec s') = tasks_of (ts_exec s)"
    and "\<And>x. should_execute (ts_exec s') x \<Longrightarrow> should_execute (ts_exec s) x"
    and "\<And>x. should_execute (ts_exec s') x \<Longrightarrow> pass_to_come s x \<Longrightarrow> pass_to_come s' x"
  shows "wake_inv s'"
  using assms unfolding wake_inv_def by blast

lemma wake_same:
  assumes "wake_inv s" and "ts_exec s' = ts_exec s" and "ts_cancelled s' = ts_cancelled s"
    and "e_root s' = e_root s" and "e_runs s' = e_runs s" and "e_mu s' = e_mu s"
    and "e_passes s' = e_passes s" and "e_locks s' = e_locks s"
  shows "wake_inv s'"
  by (rule wake_frame [OF assms(1)])
    (simp_all add: assms root_done_def pass_to_come_def run_owes_pass_def)

lemma should_execute_mark:
  "mark_invalid n g t ev m = Some (b, m') \<Longrightarrow> should_execute m' x = should_execute m x"
  by (simp add: should_execute_iff mark_invalid_fields)

lemma wake_visit:
  assumes base: "base_inv s" and inv: "wake_inv s" and act: "op_visit s = Some s'"
  shows "wake_inv s'"
  using act
proof (cases rule: op_visit_cases)
  case (run th t ts)
  then have "e_mu s' \<noteq> Some (Passing (Th_run (e_next_run s)) us)" for us
    using base by (auto simp: base_inv_def runs_ok_next thread_passes_def)
  with run show ?thesis by (intro wake_run [of s' "e_next_run s" "new_run t"]) auto
next
  case (pass th t ts)
  then show ?thesis
    by (intro wake_frame [OF inv])
      (auto simp: root_done_def pass_to_come_def run_owes_pass_def)
next
  case (done_run i r)
  have "run_owes_pass s'" if "run_owes_pass s"
  proof -
    from that obtain j q where j: "e_runs s j = Some q" "gr_pc q \<noteq> G_return"
      "\<And>ts. e_mu s \<noteq> Some (Passing (Th_run j) ts)"
      unfolding run_owes_pass_def by blast
    with done_run have "e_runs s' j = Some q" "e_mu s' = None" by auto
    with j(2) show ?thesis by (auto simp: run_owes_pass_def)
  qed
  with done_run show ?thesis
    by (intro wake_frame [OF inv]) (auto simp: root_done_def pass_to_come_def)
next
  case done_pass
  then show ?thesis
    by (intro wake_frame [OF inv])
      (auto simp: root_done_def pass_to_come_def run_owes_pass_def)
qed

lemma wake_planning: "e_mu s = Some (Planning th ts w) \<Longrightarrow> wake_inv s"
  by (intro wake_always) (auto simp: pass_to_come_def)

lemma wake_plan_next:
  assumes base: "base_inv s" and inv: "wake_inv s" and act: "op_plan_next s = Some s'"
  shows "wake_inv s'"
  using act
proof (cases rule: op_plan_next_cases)
  case (done_run i r)
  then show ?thesis by (intro wake_run [of s' i "r\<lparr>gr_pc := G_pass\<rparr>"]) auto
next
  case done_loop
  then show ?thesis by (intro wake_always) (auto simp: pass_to_come_def)
qed (auto intro: wake_planning)

lemma wake_keep:
  assumes base: "base_inv s" and act: "op_keep g n i s = Some s'"
  shows "wake_inv s'"
  using act
proof (cases rule: op_keep_cases)
  case (1 r)
  then show ?thesis
    by (intro wake_at_pc [OF base, of i r s' "after_keep r"]) (auto simp: after_keep_def)
next
  case (2 r b m)
  then show ?thesis
    by (intro wake_at_pc [OF base, of i r s' "if b then r\<lparr>gr_pc := G_notify\<rparr> else after_keep r"])
      (auto simp: after_keep_def)
qed

lemma wake_write:
  assumes base: "base_inv s" and act: "op_write i s = Some s'"
  shows "wake_inv s'"
  using act
proof (cases rule: op_write_cases)
  case (1 r)
  then show ?thesis by (intro wake_at_pc [OF base, of i r s' "r\<lparr>gr_pc := G_publish\<rparr>"]) auto
next
  case (2 r st)
  then show ?thesis by (intro wake_at_pc [OF base, of i r s' "r\<lparr>gr_pc := G_publish\<rparr>"]) auto
qed

lemma wake_lock:
  assumes "is_order ord (ts_exec s)" and "e_mu s' = Some (Passing th ord)"
    and "ts_exec s' = ts_exec s"
  shows "wake_inv s'"
  using assms by (intro wake_always) (auto simp: pass_to_come_def is_order_tasks)

lemma wake_return:
  assumes inv: "wake_inv s" and act: "op_return i s = Some s'"
  shows "wake_inv s'"
proof -
  from act obtain r where r: "e_runs s i = Some r" "gr_pc r = G_return"
    and s': "e_runs s' = (e_runs s)(i := None)" "ts_exec s' = ts_exec s" "e_mu s' = e_mu s"
      "ts_cancelled s' = ts_cancelled s" "e_root s' = e_root s" "e_passes s' = e_passes s"
      "e_locks s' = e_locks s"
    by (auto simp: op_return_def at_pc_Some)
  have "run_owes_pass s'" if "run_owes_pass s"
  proof -
    from that obtain j q where "e_runs s j = Some q" "gr_pc q \<noteq> G_return"
      "\<forall>ts. e_mu s \<noteq> Some (Passing (Th_run j) ts)"
      unfolding run_owes_pass_def by blast
    with r s' show ?thesis unfolding run_owes_pass_def by (intro exI [of _ j] exI [of _ q]) auto
  qed
  with s' show ?thesis
    by (intro wake_frame [OF inv]) (auto simp: root_done_def pass_to_come_def)
qed

lemma wake_action:
  assumes base: "base_inv s" and inv: "wake_inv s" and act: "do_action g a s = Some s'"
  shows "wake_inv s'"
proof (cases a)
  case (A_start i)
  with act show ?thesis
    by (auto simp: op_start_def at_pc_Some intro: wake_at_pc [OF base])
next
  case (A_body i e)
  with act show ?thesis
    by (auto simp: op_body_def at_pc_Some split: if_splits intro: wake_at_pc [OF base])
next
  case (A_check i)
  with act show ?thesis by (auto simp: op_check_def at_pc_Some intro: wake_at_pc [OF base])
next
  case (A_write i)
  with act base show ?thesis by (auto intro: wake_write)
next
  case (A_publish i)
  with act show ?thesis by (auto simp: op_publish_def at_pc_Some intro: wake_at_pc [OF base])
next
  case (A_send i)
  with act show ?thesis
    by (auto simp: op_send_def at_pc_Some split: if_splits intro: wake_at_pc [OF base])
next
  case (A_keep n i)
  with act base show ?thesis by (auto intro: wake_keep)
next
  case (A_notify i)
  with act show ?thesis
    by (auto simp: op_notify_def at_pc_Some after_keep_def split: if_splits
        intro: wake_at_pc [OF base])
next
  case (A_pass_test i)
  with act obtain r where "e_runs s i = Some r" "gr_pc r = G_pass"
    "s' = set_run i (r\<lparr>gr_pc := (if root_done s then G_return else G_lock)\<rparr>) s"
    by (auto simp: op_pass_test_def at_pc_Some)
  note r = this
  show ?thesis
  proof (cases "root_done s")
    case True
    with r show ?thesis by (simp add: wake_inv_def root_done_def)
  next
    case False
    with r show ?thesis by (intro wake_at_pc [OF base, of i r s' "r\<lparr>gr_pc := G_lock\<rparr>"]) auto
  qed
next
  case (A_return i)
  with act inv show ?thesis by (auto intro: wake_return)
next
  case (A_plan_run i ord)
  with act show ?thesis
    by (auto simp: ordered_Some op_plan_run_def at_pc_Some begin_plan_Some intro: wake_planning)
next
  case (A_plan_loop ord)
  with act show ?thesis
    by (auto simp: ordered_Some op_plan_loop_def begin_plan_Some split: if_splits
        intro: wake_planning)
next
  case A_plan_next
  with act base inv show ?thesis by (auto intro: wake_plan_next)
next
  case A_plan_wait
  with act show ?thesis by (auto elim!: op_plan_wait_cases intro: wake_planning)
next
  case A_test_pass
  with act show ?thesis
    by (auto simp: op_test_pass_def wake_inv_def root_done_def pass_to_come_def
        split: nat.splits if_splits)
next
  case (A_lock_pass ord)
  with act show ?thesis
    by (auto simp: ordered_Some op_lock_pass_def split: nat.splits if_splits intro!: wake_lock)
next
  case (A_lock_run i ord)
  with act show ?thesis
    by (auto simp: ordered_Some op_lock_run_def at_pc_Some split: if_splits intro!: wake_lock)
next
  case A_visit
  with act base inv show ?thesis by (auto intro: wake_visit)
next
  case (A_invalidate n t ev)
  with act have "op_invalidate g n t ev s = Some s'" by simp
  then show ?thesis
    by (cases rule: op_invalidate_cases)
      (auto intro!: wake_frame [OF inv] simp: root_done_def should_execute_mark mark_invalid_tasks
        pass_to_come_def run_owes_pass_def)
next
  case A_shutdown
  with act show ?thesis
    by (auto intro!: wake_frame [OF inv] simp: op_shutdown_def root_done_def ctx_err_def
        pass_to_come_def run_owes_pass_def)
next
  case A_notify_ch
  with act show ?thesis
    by (auto simp: op_notify_ch_def split: nat.splits if_splits intro!: wake_same [OF inv])
next
  case A_loop_recv
  with act show ?thesis
    by (auto simp: op_loop_recv_def split: if_splits intro!: wake_same [OF inv])
next
  case A_loop_timer
  with act show ?thesis
    by (auto simp: op_loop_timer_def split: if_splits intro!: wake_same [OF inv])
next
  case A_loop_exit
  with act show ?thesis
    by (auto simp: op_loop_exit_def split: if_splits intro!: wake_same [OF inv])
qed

section \<open>Pending invalidations\<close>

definition notifying :: "executor \<Rightarrow> bool" where
  "notifying s \<longleftrightarrow> (\<exists>i r. e_runs s i = Some r \<and> gr_pc r = G_notify)"

definition plan_to_come :: "executor \<Rightarrow> tid \<Rightarrow> bool" where
  "plan_to_come s x \<longleftrightarrow> 0 < e_senders s \<or> notifying s \<or>
     e_inv_ch s \<or> e_timer s \<or>
     (e_loop s = L_plan \<and> (\<forall>ts w. e_mu s \<noteq> Some (Planning Th_loop ts w))) \<or>
     (\<exists>th ts w. e_mu s = Some (Planning th ts w) \<and> x \<in> set ts)"

definition must_plan :: "(tid \<rightharpoonup> execution) \<Rightarrow> tid \<Rightarrow> bool" where
  "must_plan m x \<longleftrightarrow> ex_pending (exec_of m x) \<noteq> {} \<and>
     ex_state (exec_of m x) \<notin> {St_invalid, St_canceled}"

definition pend_inv :: "executor \<Rightarrow> bool" where
  "pend_inv s \<longleftrightarrow> \<not> root_done s \<longrightarrow>
     (\<forall>x \<in> tasks_of (ts_exec s). must_plan (ts_exec s) x \<longrightarrow> plan_to_come s x)"

lemma pend_always: "(\<And>x. plan_to_come s x) \<Longrightarrow> pend_inv s"
  by (simp add: pend_inv_def)

lemma pend_frame:
  assumes "pend_inv s" and "root_done s \<Longrightarrow> root_done s'"
    and "tasks_of (ts_exec s') = tasks_of (ts_exec s)"
    and "\<And>x. must_plan (ts_exec s') x \<Longrightarrow> must_plan (ts_exec s) x"
    and "\<And>x. must_plan (ts_exec s') x \<Longrightarrow> plan_to_come s x \<Longrightarrow> plan_to_come s' x"
  shows "pend_inv s'"
  using assms unfolding pend_inv_def by blast

text \<open>A step of a run that does not come from its send to the invalidation channel.\<close>

lemma notifying_upd:
  assumes "e_runs s i = Some r" "e_runs s' = (e_runs s)(i \<mapsto> r')" "gr_pc r \<noteq> G_notify"
    and "notifying s"
  shows "notifying s'"
proof -
  from assms(4) obtain j q where "e_runs s j = Some q" "gr_pc q = G_notify"
    unfolding notifying_def by blast
  with assms(1-3) have "e_runs s' j = Some q" by auto
  with \<open>gr_pc q = G_notify\<close> show ?thesis unfolding notifying_def by blast
qed

lemma notifying_simps [simp]:
  "notifying (s\<lparr>e_mu := m\<rparr>) = notifying s" "notifying (s\<lparr>ts_exec := x\<rparr>) = notifying s"
  "notifying (s\<lparr>e_senders := n\<rparr>) = notifying s" "notifying (s\<lparr>e_inv_ch := b\<rparr>) = notifying s"
  "notifying (s\<lparr>e_timer := b\<rparr>) = notifying s" "notifying (s\<lparr>e_loop := l\<rparr>) = notifying s"
  "notifying (s\<lparr>e_passes := n\<rparr>) = notifying s" "notifying (s\<lparr>e_locks := n\<rparr>) = notifying s"
  "notifying (s\<lparr>e_history := h\<rparr>) = notifying s" "notifying (s\<lparr>e_events := v\<rparr>) = notifying s"
  "notifying (s\<lparr>ts_cancelled := c\<rparr>) = notifying s"
  "notifying (invalidate_begin root t s) = notifying s"
  by (simp_all add: notifying_def)

lemma notifying_frame: "e_runs s' = e_runs s \<Longrightarrow> notifying s' \<longleftrightarrow> notifying s"
  by (simp add: notifying_def)

lemma plan_to_come_upd:
  assumes "plan_to_come s x" and "e_runs s i = Some r" "e_runs s' = (e_runs s)(i \<mapsto> r')"
    and "gr_pc r \<noteq> G_notify" and "e_senders s' = e_senders s" "e_inv_ch s' = e_inv_ch s"
    "e_timer s' = e_timer s" "e_loop s' = e_loop s" "e_mu s' = e_mu s"
  shows "plan_to_come s' x"
  using assms(1) notifying_upd [OF assms(2,3,4)] unfolding plan_to_come_def assms(5-9) by blast

lemma pend_run:
  assumes "pend_inv s" and "e_runs s i = Some r" "e_runs s' = (e_runs s)(i \<mapsto> r')"
    and "gr_pc r \<noteq> G_notify" and "e_senders s' = e_senders s" "e_inv_ch s' = e_inv_ch s"
    "e_timer s' = e_timer s" "e_loop s' = e_loop s" "e_mu s' = e_mu s"
    and "ts_exec s' = ts_exec s" "ts_cancelled s' = ts_cancelled s" "e_root s' = e_root s"
  shows "pend_inv s'"
  by (rule pend_frame [OF assms(1)])
    (use assms(10-12) plan_to_come_upd [OF _ assms(2-9)] in \<open>auto simp: root_done_def\<close>)

lemma pend_write:
  assumes base: "base_inv s" and load: "load_inv s" and order: "order_inv g s"
    and inv: "pend_inv s" and act: "op_write i s = Some s'"
  shows "pend_inv s'"
  using act
proof (cases rule: op_write_cases)
  case (1 r)
  then show ?thesis by (intro pend_run [OF inv, of i r _ "r\<lparr>gr_pc := G_publish\<rparr>"]) auto
next
  case (2 r st)
  let ?t = "gr_task r"
  have t: "?t \<in> tasks_of (ts_exec s)" using base 2 by (simp add: base_inv_def runs_okD)
  have a: "active_at s ?t i" using 2 by (auto intro: active_atI simp: active_def)
  have upd: "plan_to_come s' x" if "plan_to_come s x" for x
    using that 2 by (intro plan_to_come_upd [of s x i r s' "r\<lparr>gr_pc := G_publish\<rparr>"]) auto
  have "plan_to_come s' x" if root: "\<not> root_done s'" and x: "x \<in> tasks_of (ts_exec s')"
    and must: "must_plan (ts_exec s') x" for x
  proof (cases "x = ?t \<and> waiting s ?t")
    case True
    then have "plan_to_come s x" by (auto simp: plan_to_come_def waiting_def)
    then show ?thesis by (rule upd)
  next
    case False
    then have "ex_state (node s ?t) \<noteq> St_invalid" if "x = ?t"
      using idle_not_active [OF load] a that by blast
    moreover have "ex_state (node s ?t) \<in> {St_running, St_invalid}"
      using order a unfolding order_inv_alt by blast
    ultimately have "must_plan (ts_exec s) x"
      using must 2 by (auto simp: must_plan_def split: if_splits)
    moreover have "\<not> root_done s" "x \<in> tasks_of (ts_exec s)"
      using root x 2 t by (simp_all add: root_done_def)
    ultimately show ?thesis using inv upd by (simp add: pend_inv_def)
  qed
  then show ?thesis by (simp add: pend_inv_def)
qed

text \<open>A mark that is refused changes nothing; an accepted one is always reported.\<close>

lemma refused_same:
  assumes "mark_invalid n g t ev m = Some (False, m')"
  shows "exec_of m' x = exec_of m x"
proof -
  from mark_invalid_marked [OF assms] have na: "\<not> accepts g m t ev"
    and mk: "marked (marks g m t ev) m m'" by simp_all
  from na have "marks g m t ev = {}" by (subst marks_unfold) simp
  with mk show ?thesis by (simp add: marked_def)
qed

lemma pend_keep:
  assumes inv: "pend_inv s" and act: "op_keep g n i s = Some s'"
  shows "pend_inv s'"
  using act
proof (cases rule: op_keep_cases)
  case (1 r)
  then show ?thesis by (intro pend_run [OF inv, of i r _ "after_keep r"]) auto
next
  case (2 r b m)
  show ?thesis
  proof (cases b)
    case True
    with 2 have "notifying s'" unfolding notifying_def by (intro exI [of _ i]) simp
    then show ?thesis by (intro pend_always) (simp add: plan_to_come_def)
  next
    case False
    have "exec_of m x = node s x" for x using 2(3) False by (auto dest: refused_same)
    moreover have "tasks_of m = tasks_of (ts_exec s)" by (rule mark_invalid_tasks [OF 2(3)])
    moreover have "plan_to_come s' x" if "plan_to_come s x" for x
      using that 2 False by (intro plan_to_come_upd [of s x i r s' "after_keep r"]) auto
    ultimately show ?thesis
      using 2 False by (intro pend_frame [OF inv]) (auto simp: root_done_def must_plan_def)
  qed
qed

lemma pend_invalidate:
  assumes inv: "pend_inv s" and act: "op_invalidate g n t ev s = Some s'"
  shows "pend_inv s'"
  using act
proof (cases rule: op_invalidate_cases)
  case (1 b m)
  show ?thesis
  proof (cases b)
    case True
    with 1 show ?thesis by (intro pend_always) (auto simp: plan_to_come_def)
  next
    case False
    have "exec_of m x = node s x" for x using 1(2) False by (auto dest: refused_same)
    moreover have "tasks_of m = tasks_of (ts_exec s)" by (rule mark_invalid_tasks [OF 1(2)])
    ultimately show ?thesis
      using 1 False by (intro pend_frame [OF inv])
        (auto simp: root_done_def must_plan_def plan_to_come_def)
  qed
qed

lemma pend_begin_plan:
  assumes "is_order ord (ts_exec s)" and "begin_plan th ord s = Some s'"
  shows "pend_inv s'"
  using assms
  by (auto simp: pend_inv_def begin_plan_Some plan_to_come_def must_plan_def plan_selects_def
      is_order_tasks)

lemma pend_plan_next:
  assumes base: "base_inv s" and inv: "pend_inv s" and act: "op_plan_next s = Some s'"
  shows "pend_inv s'"
  using act
proof (cases rule: op_plan_next_cases)
  case (skip th t ts)
  have "plan_to_come s' x" if "must_plan (ts_exec s') x" "plan_to_come s x" for x
  proof -
    have "x \<noteq> t" using that(1) skip by (auto simp: must_plan_def invalidate_skips_def)
    with that(2) skip show ?thesis by (auto simp: plan_to_come_def)
  qed
  with skip show ?thesis by (intro pend_frame [OF inv]) (auto simp: root_done_def)
next
  case (stop th t ts)
  then have t: "t \<in> tasks_of (ts_exec s)" using base by (simp add: base_inv_def)
  have root: "root_done s \<Longrightarrow> root_done s'"
    using stop by (auto simp: root_done_def ctx_err_def)
  have "must_plan (ts_exec s') x \<Longrightarrow> must_plan (ts_exec s) x \<and> x \<noteq> t" for x
    using stop by (cases "x = t") (simp_all add: must_plan_def)
  moreover have "plan_to_come s' x" if "plan_to_come s x" for x
    using that stop by (auto simp: plan_to_come_def)
  ultimately show ?thesis using stop t root by (intro pend_frame [OF inv]) auto
next
  case (done_run i r)
  have "gr_pc r \<noteq> G_notify" using holder_run(1) [OF base done_run(2,1)] by simp
  then have "plan_to_come s' x" if "plan_to_come s x" for x
    using that done_run notifying_upd [of s i r s' "r\<lparr>gr_pc := G_pass\<rparr>"]
    unfolding plan_to_come_def by auto
  with done_run show ?thesis by (intro pend_frame [OF inv]) (auto simp: root_done_def)
next
  case done_loop
  then show ?thesis
    by (intro pend_frame [OF inv]) (auto simp: root_done_def plan_to_come_def)
qed

lemma pend_plan_wait:
  assumes base: "base_inv s" and inv: "pend_inv s" and act: "op_plan_wait s = Some s'"
  shows "pend_inv s'"
  using act
proof (cases rule: op_plan_wait_cases)
  case (1 th t ts)
  then have t: "t \<in> tasks_of (ts_exec s)" using base by (simp add: base_inv_def)
  have "plan_to_come s' x" if "must_plan (ts_exec s') x" "plan_to_come s x" for x
  proof -
    have "x \<noteq> t" using that(1) 1 by (auto simp: must_plan_def)
    with that(2) 1 show ?thesis by (auto simp: plan_to_come_def)
  qed
  moreover have "must_plan (ts_exec s') x \<Longrightarrow> must_plan (ts_exec s) x" for x
    using 1 by (auto simp: must_plan_def split: if_splits)
  ultimately show ?thesis
    using 1 t by (intro pend_frame [OF inv]) (auto simp: root_done_def)
qed

lemma pend_visit:
  assumes base: "base_inv s" and load: "load_inv s" and inv: "pend_inv s"
    and act: "op_visit s = Some s'"
  shows "pend_inv s'"
  using act
proof (cases rule: op_visit_cases)
  case (run th t ts)
  then have t: "t \<in> tasks_of (ts_exec s)" using base by (simp add: base_inv_def)
  have "ex_pending (node s t) = {}"
    using load_invD [OF load, of t] run by (simp add: load_at_def waiting_holder should_execute_iff)
  then have "must_plan (ts_exec s') x \<Longrightarrow> must_plan (ts_exec s) x" for x
    using run by (auto simp: must_plan_def split: if_splits)
  moreover have "plan_to_come s' x" if "plan_to_come s x" for x
  proof -
    have "notifying s'" if "notifying s"
    proof -
      from that obtain j q where q: "e_runs s j = Some q" "gr_pc q = G_notify"
        unfolding notifying_def by blast
      moreover have "j \<noteq> e_next_run s" using base q by (auto simp: base_inv_def runs_ok_next)
      ultimately show ?thesis
        using run unfolding notifying_def by (intro exI [of _ j] exI [of _ q]) simp
    qed
    with that run show ?thesis unfolding plan_to_come_def by auto
  qed
  ultimately show ?thesis
    using run t by (intro pend_frame [OF inv]) (auto simp: root_done_def)
next
  case (pass th t ts)
  then show ?thesis by (intro pend_frame [OF inv]) (auto simp: root_done_def plan_to_come_def)
next
  case (done_run i r)
  have "gr_pc r \<noteq> G_notify" using holder_run(2) [OF base done_run(2,1)] by simp
  then have "plan_to_come s' x" if "plan_to_come s x" for x
    using that done_run notifying_upd [of s i r s' "r\<lparr>gr_pc := G_return\<rparr>"]
    unfolding plan_to_come_def by auto
  with done_run show ?thesis by (intro pend_frame [OF inv]) (auto simp: root_done_def)
next
  case done_pass
  then show ?thesis by (intro pend_frame [OF inv]) (auto simp: root_done_def plan_to_come_def)
qed

lemma pend_return:
  assumes inv: "pend_inv s" and act: "op_return i s = Some s'"
  shows "pend_inv s'"
proof -
  from act obtain r where r: "e_runs s i = Some r" "gr_pc r = G_return"
    and s': "e_runs s' = (e_runs s)(i := None)" "ts_exec s' = ts_exec s" "e_mu s' = e_mu s"
      "ts_cancelled s' = ts_cancelled s" "e_root s' = e_root s" "e_senders s' = e_senders s"
      "e_inv_ch s' = e_inv_ch s" "e_timer s' = e_timer s" "e_loop s' = e_loop s"
    by (auto simp: op_return_def at_pc_Some)
  have "notifying s'" if "notifying s"
  proof -
    from that obtain j q where q: "e_runs s j = Some q" "gr_pc q = G_notify"
      unfolding notifying_def by blast
    moreover have "j \<noteq> i" using r q by auto
    ultimately show ?thesis
      using s' unfolding notifying_def by (intro exI [of _ j] exI [of _ q]) simp
  qed
  with s' show ?thesis
    by (intro pend_frame [OF inv]) (auto simp: root_done_def plan_to_come_def)
qed

lemma pend_simple:
  assumes "pend_inv s" and "e_runs s' = e_runs s" "e_senders s' = e_senders s"
    "e_inv_ch s' = e_inv_ch s" "e_timer s' = e_timer s" "e_loop s' = e_loop s" "e_mu s' = e_mu s"
    "ts_exec s' = ts_exec s" "ts_cancelled s' = ts_cancelled s" "e_root s' = e_root s"
  shows "pend_inv s'"
  by (rule pend_frame [OF assms(1)])
    (simp_all add: assms(3-10) root_done_def plan_to_come_def notifying_frame [OF assms(2)])

text \<open>A lock that was free is taken, or any step that only moves the queues forward.\<close>

lemma pend_queue:
  assumes "pend_inv s" and "\<And>x. plan_to_come s x \<Longrightarrow> plan_to_come s' x"
    and "ts_exec s' = ts_exec s" "ts_cancelled s' = ts_cancelled s" "e_root s' = e_root s"
  shows "pend_inv s'"
  by (rule pend_frame [OF assms(1)]) (simp_all add: assms(2-5) root_done_def)

lemma pend_action:
  assumes base: "base_inv s" and load: "load_inv s" and order: "order_inv g s"
    and inv: "pend_inv s" and act: "do_action g a s = Some s'"
  shows "pend_inv s'"
proof (cases a)
  case (A_start i)
  with act show ?thesis
    by (auto simp: op_start_def at_pc_Some intro: pend_run [OF inv])
next
  case (A_body i e)
  with act show ?thesis
    by (auto simp: op_body_def at_pc_Some split: if_splits intro: pend_run [OF inv])
next
  case (A_check i)
  with act show ?thesis by (auto simp: op_check_def at_pc_Some intro: pend_run [OF inv])
next
  case (A_write i)
  with act base load order inv show ?thesis by (auto intro: pend_write)
next
  case (A_publish i)
  with act show ?thesis by (auto simp: op_publish_def at_pc_Some intro: pend_run [OF inv])
next
  case (A_send i)
  with act obtain r where r: "e_runs s i = Some r" "gr_pc r = G_send"
    and s': "s' = set_run i (r\<lparr>gr_pc := G_keep\<rparr>) (s\<lparr>ts_exec := upd_exec (gr_task r)
       (\<lambda>e. e\<lparr>ex_terminal := Suc (ex_terminal e)\<rparr>) (ts_exec s)\<rparr>)"
    by (auto elim: op_send_cases)
  have "gr_task r \<in> tasks_of (ts_exec s)" using base r by (simp add: base_inv_def runs_okD)
  moreover have "plan_to_come s' x" if "plan_to_come s x" for x
    using that r s' by (intro plan_to_come_upd [of s x i r s' "r\<lparr>gr_pc := G_keep\<rparr>"]) auto
  moreover have "must_plan (ts_exec s') x = must_plan (ts_exec s) x" for x
    using s' by (simp add: must_plan_def)
  ultimately show ?thesis using s' by (intro pend_frame [OF inv]) (auto simp: root_done_def)
next
  case (A_keep n i)
  with act inv show ?thesis by (auto intro: pend_keep)
next
  case (A_notify i)
  with act show ?thesis
    by (auto simp: op_notify_def at_pc_Some plan_to_come_def split: if_splits intro!: pend_always)
next
  case (A_pass_test i)
  with act show ?thesis by (auto simp: op_pass_test_def at_pc_Some intro: pend_run [OF inv])
next
  case (A_return i)
  with act inv show ?thesis by (auto intro: pend_return)
next
  case (A_plan_run i ord)
  with act show ?thesis
    by (auto simp: ordered_Some op_plan_run_def at_pc_Some intro: pend_begin_plan)
next
  case (A_plan_loop ord)
  with act show ?thesis
    by (auto simp: ordered_Some op_plan_loop_def split: if_splits intro: pend_begin_plan)
next
  case A_plan_next
  with act base inv show ?thesis by (auto intro: pend_plan_next)
next
  case A_plan_wait
  with act base inv show ?thesis by (auto intro: pend_plan_wait)
next
  case A_test_pass
  with act show ?thesis
    by (auto simp: op_test_pass_def split: nat.splits if_splits intro!: pend_simple [OF inv])
next
  case (A_lock_pass ord)
  with act show ?thesis
    by (auto simp: ordered_Some op_lock_pass_def plan_to_come_def split: nat.splits if_splits
        intro!: pend_queue [OF inv])
next
  case (A_lock_run i ord)
  with act show ?thesis
    by (auto simp: ordered_Some op_lock_run_def at_pc_Some plan_to_come_def split: if_splits
        intro!: pend_queue [OF inv])
next
  case A_visit
  with act base load inv show ?thesis by (auto intro: pend_visit)
next
  case (A_invalidate n t ev)
  with act inv show ?thesis by (auto intro: pend_invalidate)
next
  case A_notify_ch
  with act show ?thesis
    by (auto simp: op_notify_ch_def plan_to_come_def split: nat.splits if_splits
        intro!: pend_always)
next
  case A_loop_recv
  with act show ?thesis
    by (auto simp: op_loop_recv_def plan_to_come_def split: if_splits intro!: pend_always)
next
  case A_loop_timer
  then have "e_mu s \<noteq> Some (Planning Th_loop ts w)" for ts w
    using act base by (auto simp: op_loop_timer_def base_inv_def thread_plans_def split: if_splits)
  with A_loop_timer act show ?thesis
    by (auto simp: op_loop_timer_def plan_to_come_def split: if_splits intro!: pend_always)
next
  case A_loop_exit
  with act show ?thesis
    by (auto simp: op_loop_exit_def pend_inv_def root_done_def split: if_splits)
next
  case A_shutdown
  with act show ?thesis
    by (auto simp: op_shutdown_def root_done_def ctx_err_def plan_to_come_def
        intro!: pend_frame [OF inv])
qed

section \<open>At rest\<close>

text \<open>A canceled node exists only after the shutdown.\<close>

definition canceled_inv :: "executor \<Rightarrow> bool" where
  "canceled_inv s \<longleftrightarrow> (\<forall>x. ex_state (node s x) = St_canceled \<longrightarrow> root_done s)"

lemma canceled_effect:
  assumes "canceled_inv s" and "effect g s s'"
  shows "canceled_inv s'"
  using assms(2)
proof cases
  case (mark n t ev b)
  with assms(1) show ?thesis
    by (auto simp: canceled_inv_def mark_invalid_fields root_done_def dest!: same_coreD)
qed (use assms(1) in \<open>auto simp: canceled_inv_def root_done_def ctx_err_def dest!: same_coreD
  split: if_splits\<close>)

definition work_inv :: "executor \<Rightarrow> bool" where
  "work_inv s \<longleftrightarrow> wake_inv s \<and> pend_inv s \<and> canceled_inv s"

lemma starts_work_inv:
  assumes "starts g s"
  shows "work_inv s"
proof -
  from assms obtain root k ts where b: "built g root (empty_task_set k) ts"
    and s: "s = start_executor root ts"
    by (rule starts_built)
  then show ?thesis
    by (simp add: work_inv_def wake_inv_def pass_to_come_def pend_inv_def must_plan_def
        canceled_inv_def idle_node_of [OF builtD(2) [OF b]])
qed

interpretation work: invariant "starts g" "exec_step g" "\<lambda>s. exec_inv g s \<and> order_inv g s"
  work_inv for g
proof unfold_locales
  show "exec_inv g s \<and> order_inv g s" if "reachable g s" for s
    using that machine.inv_reachable order.inv_reachable by blast
  show "work_inv s" if "starts g s" for s using that by (rule starts_work_inv)
  show "work_inv s'" if "exec_inv g s \<and> order_inv g s" "work_inv s" "exec_step g s s'" for s s'
  proof -
    from that(3) obtain a where a: "do_action g a s = Some s'" by (rule exec_stepE)
    from that(1) have "base_inv s" "load_inv s" by (auto dest: exec_invD)
    with that a step_effect [of g s s'] show ?thesis
      unfolding work_inv_def
      by (blast intro: wake_action pend_action canceled_effect)
  qed
qed

definition idle :: "executor \<Rightarrow> bool" where
  "idle s \<longleftrightarrow> e_mu s = None \<and> e_passes s = 0 \<and> e_locks s = 0 \<and> e_runs s = Map.empty"

definition settled :: "executor \<Rightarrow> bool" where
  "settled s \<longleftrightarrow> idle s \<and> e_senders s = 0 \<and> \<not> e_inv_ch s \<and> \<not> e_timer s \<and> e_loop s = L_idle"

lemma idle_not_running:
  assumes "order_inv g s" and "idle s"
  shows "ex_state (node s x) \<noteq> St_running"
  using assms by (auto simp: order_inv_alt idle_def active_at_def)

lemma idle_blocked:
  assumes "wf (dep_rel g)" and inv: "exec_inv g s" and order: "order_inv g s"
    and work: "work_inv s" and idle: "idle s" and root: "\<not> root_done s"
  shows "x \<in> tasks_of (ts_exec s) \<Longrightarrow>
    ex_state (node s x) = St_done \<or> ex_state (node s x) = St_error \<or>
    ex_state (node s x) = St_invalid \<and> (\<exists>d \<in> deps_of g x. ex_state (node s d) = St_error)"
  using assms(1)
proof (induction x rule: wf_induct_rule [OF wf_trancl [OF assms(1)]])
  case (1 x)
  have state: "ex_state (node s y) \<in> {St_done, St_error, St_invalid}" for y
    using idle_not_running [OF order idle, of y] work root
    by (cases "ex_state (node s y)") (auto simp: work_inv_def canceled_inv_def)
  show ?case
  proof (cases "ex_state (node s x) = St_invalid")
    case False
    with state [of x] show ?thesis by auto
  next
    case True
    have "\<not> pass_to_come s x"
      using idle by (auto simp: pass_to_come_def run_owes_pass_def idle_def)
    with work root 1(2) have "\<not> should_execute (ts_exec s) x"
      by (auto simp: work_inv_def wake_inv_def)
    moreover have deps: "set (ex_dependencies (node s x)) = deps_of g x"
      "deps_of g x \<subseteq> tasks_of (ts_exec s)"
      using exec_invD(3) [OF inv] 1(2) by (simp_all add: graph_inv_def)
    ultimately obtain d where d: "d \<in> deps_of g x" "ex_state (node s d) \<noteq> St_done"
      using True by (auto simp: should_execute_iff)
    show ?thesis
    proof (cases "ex_state (node s d) = St_error")
      case True
      with d \<open>ex_state (node s x) = St_invalid\<close> show ?thesis by blast
    next
      case False
      have "(d, x) \<in> (dep_rel g)\<^sup>+" using d(1) by (simp add: deps_of_def)
      with 1 d deps False obtain e where "e \<in> deps_of g d" "ex_state (node s e) = St_error"
        by blast
      with d(1) deps_of_trans [of d g x] True show ?thesis by blast
    qed
  qed
qed

text \<open>
  C6. What a run of the executor achieves: whenever no run, no pass and no plan is under
  way and taskrunner is not shutting down, every task of the set is done, or failed, or
  waits for a task among its dependencies that failed. So no wake-up is ever lost: a task
  whose dependencies are done is started, whichever exits, passes and plans overlap.
\<close>

theorem rest_is_complete:
  assumes "reachable g s" and "idle s" and "\<not> root_done s" and "ts_exec s t \<noteq> None"
  shows "ex_state (exec_of (ts_exec s) t) = St_done \<or>
    ex_state (exec_of (ts_exec s) t) = St_error \<or>
    ex_state (exec_of (ts_exec s) t) = St_invalid \<and>
      (\<exists>d \<in> deps_of g t. ex_state (exec_of (ts_exec s) d) = St_error)"
proof -
  have "t \<in> tasks_of (ts_exec s)" using assms(4) by (auto simp: tasks_of_def)
  with assms(2,3) show ?thesis
    using idle_blocked [OF reachable_wf [OF assms(1)] machine.inv_reachable [OF assms(1)]
        order.inv_reachable [OF assms(1)] work.inv_reachable [OF assms(1)]]
    by blast
qed

definition second_run :: "action list" where
  "second_run = [A_start 1, A_body 1 (Some (Err ''exit 1'')), A_check 1, A_write 1, A_publish 1,
     A_send 1, A_keep 0 1, A_pass_test 1, A_lock_run 1 [0, 1], A_visit, A_visit, A_visit, A_return 1]"

lemma second_run_eval:
  "\<exists>s. do_actions pair (first_pass @ first_run @ second_run) pair_start = Some s \<and>
     idle s \<and> settled s \<and> \<not> root_done s \<and> ts_exec s 0 \<noteq> None \<and> ts_exec s 1 \<noteq> None \<and>
     ex_state (node s 0) = St_done \<and> ex_state (node s 1) = St_error \<and> e_wg_err s \<noteq> None"
  by (simp add: machine_eval idle_def settled_def second_run_def fun_eq_iff wrapf_def)

theorem rest_is_complete_witness:
  "\<exists>s. reachable pair s \<and> idle s \<and> ex_state (exec_of (ts_exec s) 0) = St_done \<and>
     (ex_state (exec_of (ts_exec s) 1) = St_done \<or>
      ex_state (exec_of (ts_exec s) 1) = St_error \<or>
      ex_state (exec_of (ts_exec s) 1) = St_invalid \<and>
        (\<exists>d \<in> deps_of pair 1. ex_state (exec_of (ts_exec s) d) = St_error))"
proof -
  from second_run_eval obtain as s where run: "do_actions pair as pair_start = Some s"
    and s: "idle s" "\<not> root_done s" "ts_exec s 1 \<noteq> None" "ex_state (node s 0) = St_done"
    by blast
  from rest_is_complete [OF pair_reachable [OF run] s(1-3)] s pair_reachable [OF run]
  show ?thesis by blast
qed

text \<open>
  No invalidation is forgotten: when the invalidation loop is waiting, its channel is
  empty, no caller is about to send to it, its timer is not set and the executor is idle,
  then no node of the set has a pending invalidation.
\<close>

lemma rest_has_no_pending:
  assumes "reachable g s" and "settled s" and "\<not> root_done s" and "ts_exec s t \<noteq> None"
  shows "ex_pending (exec_of (ts_exec s) t) = {}"
proof (rule ccontr)
  assume p: "ex_pending (exec_of (ts_exec s) t) \<noteq> {}"
  have load: "load_inv s" using machine.inv_reachable [OF assms(1)] by (rule exec_invD)
  have work: "work_inv s" using work.inv_reachable [OF assms(1)] .
  have t: "t \<in> tasks_of (ts_exec s)" using assms(4) by (auto simp: tasks_of_def)
  have idle: "e_mu s = None" using assms(2) by (simp add: settled_def idle_def)
  have "ex_state (node s t) \<noteq> St_invalid"
    using load_invD [OF load, of t] p idle by (auto simp: load_at_def waiting_holder)
  moreover have "ex_state (node s t) \<noteq> St_canceled"
    using work assms(3) by (auto simp: work_inv_def canceled_inv_def)
  ultimately have "plan_to_come s t"
    using work assms(3) t p by (simp add: work_inv_def pend_inv_def must_plan_def)
  with assms(2) show False
    by (auto simp: plan_to_come_def notifying_def settled_def idle_def)
qed

lemma rest_has_no_pending_example:
  "\<exists>s. reachable pair s \<and> settled s \<and> ex_pending (exec_of (ts_exec s) 0) = {}"
proof -
  from second_run_eval obtain as s where run: "do_actions pair as pair_start = Some s"
    and s: "settled s" "\<not> root_done s" "ts_exec s 0 \<noteq> None"
    by blast
  from rest_has_no_pending [OF pair_reachable [OF run] s] s pair_reachable [OF run]
  show ?thesis by blast
qed

end
