(* ===== verification/ExecutorRaces.thy ===== *)
theory ExecutorRaces
  imports ExecutorWake
begin

text \<open>
  The wait for the terminal channel in \<open>invalidate\<close>. As long as no plan cancels a run in
  one of two windows, a plan only ever waits for a run that has been told to stop or has
  already reported its exit. The windows are the start of a goroutine before it has read
  its node's context, and the time between a run's reading of its context's error and its
  write of the node's state. In the second window the invalidation is lost, and the next
  one of the same task blocks the executor for good.
\<close>

section \<open>Calm steps\<close>

definition calm_step :: "(tid \<Rightarrow> 'w task) \<Rightarrow> executor \<Rightarrow> executor \<Rightarrow> bool" where
  "calm_step g s s' \<longleftrightarrow> exec_step g s s' \<and>
     (\<forall>x i r. waiting s' x \<longrightarrow> \<not> waiting s x \<longrightarrow> e_runs s i = Some r \<longrightarrow> gr_task r = x \<longrightarrow>
        gr_pc r \<noteq> G_start \<and> gr_pc r \<noteq> G_write)"

definition told_to_stop :: "executor \<Rightarrow> run \<Rightarrow> bool" where
  "told_to_stop s r \<longleftrightarrow> gr_pc r \<noteq> G_start \<and>
     (gr_pc r \<in> {G_body, G_check} \<longrightarrow> ctx_err (ts_cancelled s) (gr_ctx r)) \<and>
     (gr_pc r = G_write \<longrightarrow> gr_verdict r = V_canceled)"

definition heard :: "executor \<Rightarrow> tid \<Rightarrow> bool" where
  "heard s x \<longleftrightarrow> live s x \<noteq> {} \<or> ex_terminal (node s x) = 1"

definition calm_inv :: "executor \<Rightarrow> bool" where
  "calm_inv s \<longleftrightarrow>
     (\<forall>x. ex_state (node s x) \<in> {St_running, St_error, St_done} \<or> waiting s x \<longrightarrow> heard s x) \<and>
     (\<forall>x. waiting s x \<longrightarrow> ex_state (node s x) \<in> {St_invalid, St_canceled}) \<and>
     (\<forall>i r. e_runs s i = Some r \<longrightarrow> waiting s (gr_task r) \<longrightarrow> told_to_stop s r)"

lemma calm_invD:
  assumes "calm_inv s"
  shows "ex_state (node s x) \<in> {St_running, St_error, St_done} \<or> waiting s x \<Longrightarrow> heard s x"
    "waiting s x \<Longrightarrow> ex_state (node s x) \<in> {St_invalid, St_canceled}"
    "e_runs s i = Some r \<Longrightarrow> waiting s (gr_task r) \<Longrightarrow> told_to_stop s r"
  using assms unfolding calm_inv_def by blast+

lemma calm_frame:
  assumes "calm_inv s" and "\<And>x. live s x \<noteq> {} \<Longrightarrow> live s' x \<noteq> {}"
    and "\<And>x. ex_terminal (node s' x) = ex_terminal (node s x)"
    and "\<And>x. ex_state (node s' x) = ex_state (node s x)" and "\<And>x. waiting s' x \<Longrightarrow> waiting s x"
    and "\<And>i r. e_runs s' i = Some r \<Longrightarrow> waiting s' (gr_task r) \<Longrightarrow> told_to_stop s' r"
  shows "calm_inv s'"
  using assms unfolding calm_inv_def heard_def by metis

lemma told_moves:
  assumes moves: "run_moves s s'" and "waiting s' = waiting s"
    and "ts_cancelled s' = ts_cancelled s" and inv: "calm_inv s"
    and r: "e_runs s' i = Some r" "waiting s' (gr_task r)"
  shows "told_to_stop s' r"
  using moves unfolding run_moves_def
proof (elim disjE exE conjE)
  assume "e_runs s' = e_runs s"
  with calm_invD(3) [OF inv, of i r] r assms(2,3) show ?thesis by (simp add: told_to_stop_def)
next
  fix j q q'
  assume q: "e_runs s j = Some q" "e_runs s' = (e_runs s)(j \<mapsto> q')" "gr_task q' = gr_task q"
    "gr_ctx q' = gr_ctx q" "gr_verdict q' = gr_verdict q" "active q' = active q"
    "active q \<longrightarrow> gr_pc q = G_body \<and> gr_pc q' = G_check"
  show ?thesis
  proof (cases "i = j")
    case False
    with calm_invD(3) [OF inv, of i r] r q assms(2,3) show ?thesis by (simp add: told_to_stop_def)
  next
    case True
    with q r have [simp]: "r = q'" by simp
    show ?thesis
    proof (cases "active q")
      case True
      with calm_invD(3) [OF inv q(1)] q r assms(2,3) show ?thesis
        by (simp add: told_to_stop_def)
    next
      case False
      with q(6) show ?thesis by (auto simp: told_to_stop_def active_def)
    qed
  qed
qed

lemma live_moves: "run_moves s s' \<Longrightarrow> live s' = live s"
  unfolding run_moves_def by (auto intro: live_same live_run)

text \<open>A step of one run that keeps the nodes: the others are told as before.\<close>

lemma told_upd:
  assumes "calm_inv s" and "e_runs s' = (e_runs s)(j \<mapsto> q)"
    and "waiting s' = waiting s" and "ts_cancelled s' = ts_cancelled s"
    and "waiting s (gr_task q) \<Longrightarrow> told_to_stop s q"
    and "e_runs s' i = Some r" "waiting s' (gr_task r)"
  shows "told_to_stop s' r"
proof (cases "i = j")
  case True
  with assms show ?thesis by (simp add: told_to_stop_def)
next
  case False
  with assms calm_invD(3) [OF assms(1), of i r] show ?thesis by (simp add: told_to_stop_def)
qed

lemma live_upd_ne:
  assumes "e_runs s i = Some r" "e_runs s' = (e_runs s)(i \<mapsto> r')" "gr_task r' = gr_task r"
    and "unsent r' = unsent r" "live s x \<noteq> {}"
  shows "live s' x \<noteq> {}"
  using live_run [OF assms(1-4)] assms(5) by simp

lemma calm_write:
  assumes inv: "calm_inv s" and order: "order_inv g s" and load: "load_inv s"
    and r: "e_runs s i = Some r" "gr_pc r = G_write"
    and st: "gr_verdict r = V_canceled \<and> root_done s \<and> st = St_canceled \<or>
      gr_verdict r = V_failed \<and> st = St_error \<or> gr_verdict r = V_done \<and> st = St_done"
    and s': "s' = set_run i (r\<lparr>gr_pc := G_publish\<rparr>) (set_state (gr_task r) st s)"
  shows "calm_inv s'"
proof -
  have live: "live s' = live s"
    using r s' by (intro live_run [of s i r s' "r\<lparr>gr_pc := G_publish\<rparr>"]) (auto simp: unsent_def)
  have here: "live s (gr_task r) \<noteq> {}" using liveI [OF r(1)] r(2) by (auto simp: unsent_def)
  have wait: "waiting s' = waiting s" using s' by (simp add: waiting_def fun_eq_iff)
  have canceled: "waiting s (gr_task r) \<Longrightarrow> st = St_canceled"
    using calm_invD(3) [OF inv r(1)] r(2) st by (auto simp: told_to_stop_def)
  have "told_to_stop s' q" if "e_runs s' j = Some q" "waiting s' (gr_task q)" for j q
    using that s' by (intro told_upd [OF inv, of s' i "r\<lparr>gr_pc := G_publish\<rparr>" j q])
      (auto simp: told_to_stop_def waiting_def fun_eq_iff)
  moreover have "heard s' x"
    if "ex_state (node s' x) \<in> {St_running, St_error, St_done} \<or> waiting s' x" for x
    using that calm_invD(1) [OF inv, of x] here s' live wait
    by (cases "x = gr_task r") (auto simp: heard_def)
  moreover have "ex_state (node s' x) \<in> {St_invalid, St_canceled}" if "waiting s' x" for x
    using that calm_invD(2) [OF inv, of x] canceled s' wait by auto
  ultimately show ?thesis unfolding calm_inv_def by blast
qed

lemma calm_send:
  assumes inv: "calm_inv s" and r: "e_runs s i = Some r" "gr_pc r = G_send"
    and s': "s' = set_run i (r\<lparr>gr_pc := G_keep\<rparr>) (s\<lparr>ts_exec := upd_exec (gr_task r)
       (\<lambda>e. e\<lparr>ex_terminal := Suc (ex_terminal e)\<rparr>) (ts_exec s)\<rparr>)"
    and empty: "ex_terminal (node s (gr_task r)) = 0"
  shows "calm_inv s'"
proof -
  have live: "live s' x = (if x = gr_task r then live s x - {i} else live s x)" for x
    using r s' by (intro live_exit [where r' = "r\<lparr>gr_pc := G_keep\<rparr>"]) (auto simp: unsent_def)
  have wait: "waiting s' = waiting s" using s' by (simp add: waiting_def fun_eq_iff)
  have "heard s x \<Longrightarrow> heard s' x" for x
    using s' empty live by (auto simp: heard_def)
  moreover have "ex_state (node s' x) = ex_state (node s x)" for x using s' by simp
  moreover have "told_to_stop s' q" if "e_runs s' j = Some q" "waiting s' (gr_task q)" for j q
    using that s' by (intro told_upd [OF inv, of s' i "r\<lparr>gr_pc := G_keep\<rparr>" j q])
      (auto simp: told_to_stop_def fun_eq_iff waiting_def)
  ultimately show ?thesis using inv wait unfolding calm_inv_def by metis
qed

text \<open>A plan stops a task: in a calm step its run has a context, which is now cancelled.\<close>

lemma calm_stop:
  assumes inv: "calm_inv s" and exec: "exec_inv g s" and ctx: "ctx_inv g c0 N s"
    and mu: "e_mu s = Some (Planning th (t # ts) False)" "\<not> invalidate_skips (ts_exec s) t"
    and s': "s' = (invalidate_begin (e_root s) t s)\<lparr>e_mu := Some (Planning th (t # ts) True),
         e_history := e_history s @ [(t, St_invalid)]\<rparr>"
    and calm: "\<And>i r. e_runs s i = Some r \<Longrightarrow> gr_task r = t \<Longrightarrow>
      gr_pc r \<noteq> G_start \<and> gr_pc r \<noteq> G_write"
  shows "calm_inv s'"
proof -
  have t: "t \<in> tasks_of (ts_exec s)" using exec_invD(1) [OF exec] mu by (simp add: base_inv_def)
  have wait: "waiting s' x \<longleftrightarrow> x = t" "\<not> waiting s x" for x
    using s' mu by (auto simp: waiting_def)
  have live: "live s' = live s" using s' by (intro live_same) simp
  have "ex_state (node s t) \<in> {St_running, St_error, St_done}"
    using mu(2) by (cases "ex_state (node s t)") (auto simp: invalidate_skips_def)
  then have heard: "heard s t" using calm_invD(1) [OF inv] by blast
  have ne: "ex_ctx (node s t) \<noteq> []"
    using ctx t births_below(3) [of g c0 N "e_root s" "tasks_of (ts_exec s)" t]
    unfolding ctx_inv_def ctx_ids_def reset_def by (cases "ex_ctx (node s t) = c0 t") auto
  have "told_to_stop s' r" if r: "e_runs s' i = Some r" "waiting s' (gr_task r)" for i r
  proof -
    have rt: "gr_task r = t" "e_runs s i = Some r" using r wait s' by auto
    then have pc: "gr_pc r \<noteq> G_start" "gr_pc r \<noteq> G_write" using calm by blast+
    have "ctx_err (ts_cancelled s') (gr_ctx r)" if "gr_pc r \<in> {G_body, G_check}"
    proof -
      have "gr_ctx r = ex_ctx (node s t)"
        using ctx that rt wait(2) unfolding ctx_inv_def by (blast dest: ctx_runsD(1))
      with ne s' show ?thesis by (cases "ex_ctx (node s t)") simp_all
    qed
    with pc show ?thesis by (simp add: told_to_stop_def)
  qed
  moreover have "heard s' x"
    if "ex_state (node s' x) \<in> {St_running, St_error, St_done} \<or> waiting s' x" for x
    using that calm_invD(1) [OF inv, of x] heard live s' wait
    by (cases "x = t") (auto simp: heard_def)
  moreover have "ex_state (node s' x) \<in> {St_invalid, St_canceled}" if "waiting s' x" for x
    using that wait s' by simp
  ultimately show ?thesis unfolding calm_inv_def by blast
qed

lemma calm_effect:
  assumes inv: "calm_inv s" and exec: "exec_inv g s" and ctx: "ctx_inv g c0 N s"
    and order: "order_inv g s" and eff: "effect g s s'"
    and calm: "\<And>x i r. waiting s' x \<Longrightarrow> \<not> waiting s x \<Longrightarrow> e_runs s i = Some r \<Longrightarrow> gr_task r = x \<Longrightarrow>
      gr_pc r \<noteq> G_start \<and> gr_pc r \<noteq> G_write"
  shows "calm_inv s'"
  using eff
proof cases
  case quiet
  note core = same_coreD [OF quiet(1)]
  have told: "told_to_stop s' r" if "e_runs s' i = Some r" "waiting s' (gr_task r)" for i r
    by (rule told_moves [OF quiet(2) _ _ inv that]) (simp_all add: core)
  show ?thesis
    by (rule calm_frame [OF inv _ _ _ _ told]) (simp_all add: quiet(3) core live_moves [OF quiet(2)])
next
  case (mark n t ev b)
  note core = same_coreD [OF mark(1)]
  have told: "told_to_stop s' r" if "e_runs s' i = Some r" "waiting s' (gr_task r)" for i r
    by (rule told_moves [OF mark(2) _ _ inv that]) (simp_all add: core)
  show ?thesis
    by (rule calm_frame [OF inv _ _ _ _ told])
      (simp_all add: mark_invalid_fields [OF mark(3)] core live_moves [OF mark(2)])
next
  case (start i r)
  note core = same_coreD [OF start(1)]
  have "\<not> waiting s (gr_task r)"
    using calm_invD(3) [OF inv start(3)] start(4) by (auto simp: told_to_stop_def)
  then have told: "told_to_stop s' q" if "e_runs s' j = Some q" "waiting s' (gr_task q)" for j q
    using that by (intro told_upd [OF inv start(5), of j q]) (simp_all add: core)
  show ?thesis
    by (rule calm_frame [OF inv _ _ _ _ told])
      (use start live_upd_ne [OF start(3,5)] in \<open>auto simp: core unsent_def\<close>)
next
  case (check i r v)
  note core = same_coreD [OF check(1)]
  have "waiting s (gr_task r) \<Longrightarrow> v = V_canceled"
    using calm_invD(3) [OF inv check(3)] check(4,5) by (auto simp: told_to_stop_def)
  then have told: "told_to_stop s' q" if "e_runs s' j = Some q" "waiting s' (gr_task q)" for j q
    using that by (intro told_upd [OF inv check(6), of j q]) (simp_all add: core told_to_stop_def)
  show ?thesis
    by (rule calm_frame [OF inv _ _ _ _ told])
      (use check live_upd_ne [OF check(3,6)] in \<open>auto simp: core unsent_def\<close>)
next
  case (write_nothing i r)
  note core = same_coreD [OF write_nothing(1)]
  have told: "told_to_stop s' q" if "e_runs s' j = Some q" "waiting s' (gr_task q)" for j q
    using that by (intro told_upd [OF inv write_nothing(7), of j q])
      (simp_all add: core told_to_stop_def)
  show ?thesis
    by (rule calm_frame [OF inv _ _ _ _ told])
      (use write_nothing live_upd_ne [OF write_nothing(3,7)] in \<open>auto simp: core unsent_def\<close>)
next
  case (write_state i r st)
  show ?thesis by (rule calm_write [OF inv order exec_invD(2) [OF exec] write_state])
next
  case (send i r)
  show ?thesis by (rule calm_send [OF inv send(1,2,4,3)])
next
  case (stop th t ts)
  then have w: "waiting s' t" "\<not> waiting s t" by (auto simp: waiting_def)
  show ?thesis
  proof (rule calm_stop [OF inv exec ctx stop])
    show "gr_pc r \<noteq> G_start \<and> gr_pc r \<noteq> G_write" if "e_runs s i = Some r" "gr_task r = t" for i r
      by (rule calm [OF w that])
  qed
next
  case (stopped th t ts)
  have wait: "\<not> waiting s' x" "waiting s t" "waiting s x \<Longrightarrow> x = t" for x
    using stopped by (auto simp: waiting_def)
  have live: "live s' = live s" using stopped by (intro live_same) simp
  have "ex_state (node s t) \<in> {St_invalid, St_canceled}" by (rule calm_invD(2) [OF inv wait(2)])
  then have "heard s' x" if "ex_state (node s' x) \<in> {St_running, St_error, St_done}" for x
    using that calm_invD(1) [OF inv, of x] stopped live by (cases "x = t") (auto simp: heard_def)
  with wait(1) show ?thesis unfolding calm_inv_def by blast
next
  case (spawned th t ts)
  have wait: "\<not> waiting s' x" "\<not> waiting s x" for x using spawned by (auto simp: waiting_def)
  have live: "live s' x = (if x = t then insert (e_next_run s) (live s x) else live s x)" for x
    using live_spawn [of s "e_next_run s" s' "new_run t" x] spawned exec_invD(1) [OF exec]
    by (simp add: base_inv_def runs_ok_next unsent_def)
  have "heard s' x" if "ex_state (node s' x) \<in> {St_running, St_error, St_done}" for x
    using that calm_invD(1) [OF inv, of x] spawned live by (cases "x = t") (auto simp: heard_def)
  with wait(1) show ?thesis unfolding calm_inv_def by blast
next
  case (returned i r)
  note core = same_coreD [OF returned(1)]
  have live: "live s' = live s"
    using returned by (intro live_gone [OF returned(3,5)]) (simp add: unsent_def)
  have "e_runs s j = Some q" if "e_runs s' j = Some q" for j q
    using that returned(5) by (simp split: if_splits)
  then have told: "told_to_stop s' q" if "e_runs s' j = Some q" "waiting s' (gr_task q)" for j q
    using that calm_invD(3) [OF inv, of j q] core by (simp add: told_to_stop_def)
  show ?thesis
    by (rule calm_frame [OF inv _ _ _ _ told]) (simp_all add: returned(2) core live)
next
  case shutdown
  have live: "live s' = live s" using shutdown by (intro live_same) simp
  have wait: "waiting s' = waiting s" using shutdown by (simp add: waiting_def fun_eq_iff)
  have told: "told_to_stop s' q" if "e_runs s' j = Some q" "waiting s' (gr_task q)" for j q
    using that calm_invD(3) [OF inv, of j q] shutdown wait
    by (auto simp: told_to_stop_def ctx_err_def)
  show ?thesis
    by (rule calm_frame [OF inv _ _ _ _ told]) (simp_all add: live wait, simp_all add: shutdown)
qed

lemma calm_reachable: "reachable_by (starts g) (calm_step g) s \<Longrightarrow> reachable g s"
  by (erule reachable_by_mono) (simp add: calm_step_def)

lemma starts_calm_inv:
  assumes "starts g s"
  shows "calm_inv s"
proof -
  from assms obtain root k ts where b: "built g root (empty_task_set k) ts"
    and s: "s = start_executor root ts"
    by (rule starts_built)
  then show ?thesis
    by (simp add: calm_inv_def waiting_def idle_node_of [OF builtD(2) [OF b]])
qed

interpretation calm: invariant "starts g" "calm_step g"
  "\<lambda>s. exec_inv g s \<and> (\<exists>c0 N. ctx_inv g c0 N s) \<and> order_inv g s" calm_inv for g
proof unfold_locales
  show "exec_inv g s \<and> (\<exists>c0 N. ctx_inv g c0 N s) \<and> order_inv g s"
    if "reachable_by (starts g) (calm_step g) s" for s
    using calm_reachable [OF that] contexts.both_reachable order.inv_reachable by blast
  show "calm_inv s" if "starts g s" for s using that by (rule starts_calm_inv)
  show "calm_inv s'" if known: "exec_inv g s \<and> (\<exists>c0 N. ctx_inv g c0 N s) \<and> order_inv g s"
    and inv: "calm_inv s" and step: "calm_step g s s'" for s s'
  proof -
    from known obtain c0 N where "ctx_inv g c0 N s" "exec_inv g s" "order_inv g s" by blast
    with inv step step_effect [of g s s'] show ?thesis
      unfolding calm_step_def by (intro calm_effect [of s g c0 N s']) blast+
  qed
qed


text \<open>Only a plan's step makes it wait.\<close>

lemma waiting_new:
  assumes "do_action g a s = Some s'" and "a \<noteq> A_plan_next" and "waiting s' x"
  shows "waiting s x"
proof -
  obtain th ts where mu: "e_mu s' = Some (Planning th (x # ts) True)"
    using assms(3) by (auto simp: waiting_def)
  have "e_mu s = e_mu s'"
  proof (cases a)
    case A_visit
    with assms(1) mu show ?thesis by (auto elim!: op_visit_cases)
  next
    case A_plan_wait
    with assms(1) mu show ?thesis by (auto elim!: op_plan_wait_cases)
  next
    case (A_plan_run i ord)
    with assms(1) mu show ?thesis
      by (auto simp: ordered_Some op_plan_run_def at_pc_Some begin_plan_Some)
  next
    case (A_plan_loop ord)
    with assms(1) mu show ?thesis
      by (auto simp: ordered_Some op_plan_loop_def begin_plan_Some split: if_splits)
  next
    case (A_lock_run i ord)
    with assms(1) mu show ?thesis
      by (auto simp: ordered_Some op_lock_run_def at_pc_Some split: if_splits)
  next
    case (A_lock_pass ord)
    with assms(1) mu show ?thesis
      by (auto simp: ordered_Some op_lock_pass_def split: if_splits nat.splits)
  next
    case (A_write i)
    with assms(1) show ?thesis by (auto elim!: op_write_cases)
  next
    case (A_keep n i)
    with assms(1) show ?thesis by (auto elim!: op_keep_cases)
  next
    case (A_invalidate n t ev)
    with assms(1) show ?thesis by (auto elim!: op_invalidate_cases)
  next
    case (A_start i)
    with assms(1) show ?thesis by (auto simp: op_start_def at_pc_Some)
  next
    case (A_body i e)
    with assms(1) show ?thesis by (auto simp: op_body_def at_pc_Some split: if_splits)
  next
    case (A_check i)
    with assms(1) show ?thesis by (auto simp: op_check_def at_pc_Some)
  next
    case (A_publish i)
    with assms(1) show ?thesis by (auto simp: op_publish_def at_pc_Some)
  next
    case (A_send i)
    with assms(1) show ?thesis by (auto simp: op_send_def at_pc_Some split: if_splits)
  next
    case (A_notify i)
    with assms(1) show ?thesis by (auto simp: op_notify_def at_pc_Some split: if_splits)
  next
    case (A_pass_test i)
    with assms(1) show ?thesis by (auto simp: op_pass_test_def at_pc_Some)
  next
    case (A_return i)
    with assms(1) show ?thesis by (auto simp: op_return_def at_pc_Some)
  next
    case A_test_pass
    with assms(1) show ?thesis by (auto simp: op_test_pass_def at_pc_Some split: nat.splits if_splits)
  next
    case A_notify_ch
    with assms(1) show ?thesis by (auto simp: op_notify_ch_def at_pc_Some split: nat.splits if_splits)
  next
    case A_loop_recv
    with assms(1) show ?thesis by (auto simp: op_loop_recv_def at_pc_Some split: if_splits)
  next
    case A_loop_timer
    with assms(1) show ?thesis by (auto simp: op_loop_timer_def at_pc_Some split: if_splits)
  next
    case A_loop_exit
    with assms(1) show ?thesis by (auto simp: op_loop_exit_def at_pc_Some split: if_splits)
  next
    case A_shutdown
    with assms(1) show ?thesis by (auto simp: op_shutdown_def at_pc_Some)
  next
    case A_plan_next
    with assms(2) show ?thesis by simp
  qed
  with mu show ?thesis by (simp add: waiting_def)
qed

lemma do_actions_calm:
  "do_actions g as s = Some s' \<Longrightarrow> A_plan_next \<notin> set as \<Longrightarrow>
     reachable_by (starts g) (calm_step g) s \<Longrightarrow> reachable_by (starts g) (calm_step g) s'"
proof (induction as arbitrary: s)
  case Nil
  then show ?case by simp
next
  case (Cons a as)
  then obtain s1 where s1: "do_action g a s = Some s1" "do_actions g as s1 = Some s'"
    by (auto split: option.splits)
  have "calm_step g s s1"
    using waiting_new [OF s1(1)] Cons.prems(2) s1(1)
    by (auto simp: calm_step_def intro: exec_step.act)
  with Cons s1 show ?case by (auto intro: reachable_by.step)
qed

definition early_change :: "action list" where
  "early_change = first_pass @ [A_start 0, A_invalidate (Suc (Suc 0)) 0 changed, A_notify_ch,
     A_loop_recv, A_loop_timer, A_plan_loop [0, 1]]"

lemma early_change_eval:
  "\<exists>s s'. do_actions pair early_change pair_start = Some s \<and> op_plan_next s = Some s' \<and>
     waiting s' 0 \<and> (\<forall>x. waiting s' x \<longrightarrow> x = 0) \<and>
     (\<forall>i r. e_runs s i = Some r \<longrightarrow> gr_pc r = G_body)"
  by (simp add: machine_eval early_change_def waiting_def changed_def)


section \<open>The two windows\<close>

text \<open>
  A plan that waits for a task without runs and without a message waits for ever: no step
  of any goroutine can put a message there, and the plan holds the lock.
\<close>

definition stuck :: "executor \<Rightarrow> tid \<Rightarrow> bool" where
  "stuck s x \<longleftrightarrow> waiting s x \<and> live s x = {} \<and> ex_terminal (node s x) = 0"

lemma stuck_effect:
  assumes stuck: "stuck s x" and eff: "effect g s s'"
  shows "stuck s' x"
  using eff
proof cases
  case quiet
  with stuck show ?thesis by (auto simp: stuck_def live_moves dest!: same_coreD)
next
  case (mark n t ev b)
  with stuck show ?thesis
    by (auto simp: stuck_def live_moves mark_invalid_fields dest!: same_coreD)
next
  case (start i r)
  have "live s' = live s" using start(4) by (intro live_run [OF start(3,5)]) (simp_all add: unsent_def)
  with start stuck show ?thesis by (auto simp: stuck_def dest!: same_coreD)
next
  case (check i r v)
  have "live s' = live s" using check(4) by (intro live_run [OF check(3,6)]) (simp_all add: unsent_def)
  with check stuck show ?thesis by (auto simp: stuck_def dest!: same_coreD)
next
  case (write_nothing i r)
  have "live s' = live s"
    using write_nothing(4) by (intro live_run [OF write_nothing(3,7)]) (simp_all add: unsent_def)
  with write_nothing stuck show ?thesis by (auto simp: stuck_def dest!: same_coreD)
next
  case (write_state i r st)
  then have "live s' = live s"
    by (intro live_run [of s i r s' "r\<lparr>gr_pc := G_publish\<rparr>"]) (simp_all add: unsent_def)
  with write_state stuck show ?thesis by (auto simp: stuck_def waiting_def)
next
  case (send i r)
  then have "gr_task r \<noteq> x"
    using stuck liveI [OF send(1)] by (auto simp: stuck_def unsent_def)
  moreover have "live s' y = (if y = gr_task r then live s y - {i} else live s y)" for y
    using send by (intro live_exit [where r' = "r\<lparr>gr_pc := G_keep\<rparr>"]) (simp_all add: unsent_def)
  ultimately show ?thesis using send stuck by (auto simp: stuck_def waiting_def)
next
  case (stop th t ts)
  with stuck show ?thesis by (simp add: stuck_def waiting_def)
next
  case (stopped th t ts)
  with stuck show ?thesis by (simp add: stuck_def waiting_def)
next
  case (spawned th t ts)
  with stuck show ?thesis by (simp add: stuck_def waiting_def)
next
  case (returned i r)
  have "live s' = live s" using returned(4) by (intro live_gone [OF returned(3,5)]) (simp add: unsent_def)
  with returned stuck show ?thesis by (auto simp: stuck_def dest!: same_coreD)
next
  case shutdown
  have "live s' = live s" using shutdown by (intro live_same) simp
  with shutdown stuck show ?thesis by (auto simp: stuck_def waiting_def)
qed

lemma stuck_forever:
  assumes "(exec_step g)\<^sup>*\<^sup>* s s'" and "exec_inv g s" and "stuck s x"
  shows "stuck s' x \<and> exec_inv g s'"
  using assms
proof (induction rule: rtranclp_induct)
  case base
  then show ?case by simp
next
  case (step s1 s2)
  then show ?case using stuck_effect step_effect exec_inv_step by blast
qed

text \<open>
  The interleaving: task 0's run has read that its context is alive; a change of its files
  is planned, and the plan makes the node invalid; then the run writes done over it, and
  its exit ends the plan's wait, which clears the pending invalidation.
\<close>

definition late_change :: "action list" where
  "late_change = first_pass @ [A_start 0, A_body 0 None, A_check 0,
     A_invalidate (Suc (Suc 0)) 0 changed, A_notify_ch, A_loop_recv, A_loop_timer,
     A_plan_loop [0, 1], A_plan_next, A_write 0, A_publish 0, A_send 0, A_plan_wait, A_plan_next]"

definition next_change :: "action list" where
  "next_change = [A_invalidate (Suc (Suc 0)) 0 changed, A_notify_ch,
     A_loop_recv, A_loop_timer, A_plan_loop [0, 1], A_plan_next]"

lemma late_change_eval:
  "\<exists>s s'. do_actions pair late_change pair_start = Some s \<and>
     e_history s = [(0, St_running), (0, St_invalid), (0, St_done)] \<and>
     ex_pending (node s 0) = {} \<and> e_mu s = None \<and> \<not> root_done s \<and>
     do_actions pair next_change s = Some s' \<and> \<not> root_done s' \<and> stuck s' 0"
  by (simp add: machine_eval late_change_def next_change_def changed_def stuck_def waiting_def
      live_def unsent_def)

text \<open>
  C13. The window between a run's test of its context and the write of its state loses an
  invalidation and then blocks the executor: from the start of two tasks there is an
  interleaving after which the first task, invalidated while it ran, is recorded as done
  with nothing pending and was not run again; and after the next change of its files a
  plan holds the lock and waits for an exit that no step can ever bring, although
  taskrunner is not shutting down.
\<close>

theorem invalidation_race:
  "\<exists>s s'. reachable pair s \<and>
     e_history s = [(0, St_running), (0, St_invalid), (0, St_done)] \<and>
     ex_pending (exec_of (ts_exec s) 0) = {} \<and> (exec_step pair)\<^sup>*\<^sup>* s s' \<and> \<not> root_done s' \<and>
     {u. (exec_step pair)\<^sup>*\<^sup>* s' u} \<subseteq> {u. waiting u 0 \<and> op_plan_wait u = None}"
proof -
  from late_change_eval obtain s s' where s: "do_actions pair late_change pair_start = Some s"
    "e_history s = [(0, St_running), (0, St_invalid), (0, St_done)]" "ex_pending (node s 0) = {}"
    and s': "do_actions pair next_change s = Some s'" "\<not> root_done s'" "stuck s' 0"
    by blast
  have steps: "do_actions pair as u = Some v \<Longrightarrow> (exec_step pair)\<^sup>*\<^sup>* u v" for as u v
    by (induction as arbitrary: u)
      (auto split: option.splits intro: converse_rtranclp_into_rtranclp exec_step.act)
  have reach: "reachable pair s" by (rule pair_reachable [OF s(1)])
  then have inv: "exec_inv pair s'"
    using machine.inv_reachable do_actions_reachable [OF s'(1)] by blast
  have "waiting u 0 \<and> op_plan_wait u = None" if u: "(exec_step pair)\<^sup>*\<^sup>* s' u" for u
  proof -
    have "stuck u 0" using stuck_forever [OF u inv s'(3)] by blast
    then show ?thesis
      by (auto simp: stuck_def waiting_def op_plan_wait_def invalidate_end_def)
  qed
  with reach s s' steps [OF s'(1)] show ?thesis by blast
qed

end
