(* ===== verification/ExecutorSafety.thy ===== *)
theory ExecutorSafety
  imports ExecutorRuns
begin

text \<open>
  What every interleaving of the executor keeps: the order of starts, mutual exclusion of
  the runs of a task, the life of a node's state, and the reach of a cancellation. Each
  property is about the states reachable by the steps of \<open>Executor\<close>, with any graph of
  tasks, any invalidations and any errors of the tasks' bodies.
\<close>

section \<open>The order of starts\<close>

text \<open>
  C1. No task starts before everything it depends on is done: whenever \<open>runPass\<close> makes a
  node running, the last state written to it was invalid (or none was), and the last state
  written to each of its transitive dependencies was done. This holds however passes,
  plans, invalidations and exits interleave.
\<close>

theorem start_after_dependencies:
  assumes "reachable g s" and "e_history s = pre @ (t, St_running) # post"
  shows "last_state pre t = St_invalid \<and> (\<forall>d. d \<in> deps_of g t \<longrightarrow> last_state pre d = St_done)"
proof -
  from order.inv_reachable [OF assms(1)] have "legal_history g (e_history s)"
    by (rule order_invD)
  with assms(2) have "legal_write g (last_state pre) t St_running"
    unfolding legal_history_def by blast
  then show ?thesis by (simp add: legal_write_def)
qed

theorem start_after_dependencies_witness:
  "\<exists>s pre post. reachable pair s \<and> e_history s = pre @ (1, St_running) # post \<and>
     last_state pre 0 = St_done"
proof -
  obtain s where run: "do_actions pair (first_pass @ first_run @
      [A_start 1, A_body 1 None, A_check 1, A_write 1]) pair_start = Some s"
    and h: "e_history s = [(0, St_running), (0, St_done), (1, St_running), (1, St_done)]"
    using first_run_eval by blast
  have dep: "0 \<in> deps_of pair 1" by (rule deps_of_direct) (simp add: pair_def zero_task_def)
  have split: "e_history s = [(0, St_running), (0, St_done)] @ (1, St_running) # [(1, St_done)]"
    using h by simp
  from start_after_dependencies [OF pair_reachable [OF run] split] dep pair_reachable [OF run] split
  show ?thesis by blast
qed

section \<open>The life of a node\<close>

text \<open>
  The states of a node follow the state machine that the comments on the constants of
  \<open>task_execution.go\<close> describe: canceled is final, running is entered from invalid only, a
  node is invalidated from running, error or done, and an exit is recorded on a node that
  is running or that a plan has made invalid meanwhile.
\<close>

lemma node_state_machine:
  assumes "reachable g s" and "e_history s = pre @ (t, st) # post"
  shows "(last_state pre t, st) \<in>
    {(St_invalid, St_running), (St_running, St_invalid), (St_error, St_invalid),
     (St_done, St_invalid), (St_running, St_done), (St_running, St_error),
     (St_running, St_canceled), (St_invalid, St_done), (St_invalid, St_error),
     (St_invalid, St_canceled)}"
proof -
  from order.inv_reachable [OF assms(1)] have "legal_history g (e_history s)"
    by (rule order_invD)
  with assms(2) have "legal_write g (last_state pre) t st"
    unfolding legal_history_def by blast
  then show ?thesis by (cases st) (auto simp: legal_write_def)
qed

lemma node_state_machine_example:
  "\<exists>s pre post. reachable pair s \<and> e_history s = pre @ (1, St_done) # post \<and>
     last_state pre 1 \<in> {St_running, St_invalid}"
proof -
  obtain s where run: "do_actions pair (first_pass @ first_run @
      [A_start 1, A_body 1 None, A_check 1, A_write 1]) pair_start = Some s"
    and h: "e_history s = [(0, St_running), (0, St_done), (1, St_running), (1, St_done)]"
    using first_run_eval by blast
  have split: "e_history s = [(0, St_running), (0, St_done), (1, St_running)] @ (1, St_done) # []"
    using h by simp
  from node_state_machine [OF pair_reachable [OF run] split] pair_reachable [OF run] split
  show ?thesis by blast
qed

section \<open>One run at a time\<close>

text \<open>
  C5. At any moment a task has at most one run that has not yet reported its exit; while
  it has one the terminal channel is empty, so the goroutine's send to that channel never
  blocks.
\<close>

theorem one_run_per_task:
  assumes "reachable g s" and "e_runs s i = Some r" and "unsent r"
  shows "(\<forall>j q. e_runs s j = Some q \<and> unsent q \<and> gr_task q = gr_task r \<longrightarrow> j = i) \<and>
    ex_terminal (exec_of (ts_exec s) (gr_task r)) = 0 \<and>
    (gr_pc r = G_send \<longrightarrow> op_send i s \<noteq> None)"
proof -
  from machine.inv_reachable [OF assms(1)] have load: "load_inv s" by (rule exec_invD)
  from liveI [OF assms(2,3)] load_invD [OF load, of "gr_task r"]
  have live: "live s (gr_task r) = {i}" and empty: "ex_terminal (node s (gr_task r)) = 0"
    by (auto simp: load_at_def)
  have "j = i" if "e_runs s j = Some q" "unsent q" "gr_task q = gr_task r" for j q
    using liveI [OF that(1,2)] live that(3) by simp
  with empty assms(2) show ?thesis by (auto simp: op_send_def at_pc_def)
qed

theorem one_run_per_task_witness:
  "\<exists>s r. reachable pair s \<and> e_runs s 1 = Some r \<and> gr_task r = 1 \<and>
     ex_terminal (exec_of (ts_exec s) 1) = 0"
proof -
  from interrupted_eval obtain as s r where run: "do_actions pair as pair_start = Some s"
    and r: "e_runs s 1 = Some r" "gr_task r = 1" "gr_pc r = G_body"
    by blast
  from r(3) have "unsent r" by (simp add: unsent_def)
  from one_run_per_task [OF pair_reachable [OF run] r(1) this] r pair_reachable [OF run]
  show ?thesis by fastforce
qed

text \<open>
  C8. A node in state running has exactly one run between its start and the write of its
  exit, and a node with such a run is running, or a plan has just made it invalid.
\<close>

theorem running_iff_run:
  assumes "reachable g s"
  shows "(ex_state (exec_of (ts_exec s) t) = St_running \<longrightarrow>
      (\<exists>!i. \<exists>r. e_runs s i = Some r \<and> active r \<and> gr_task r = t)) \<and>
    (\<forall>i r. e_runs s i = Some r \<and> active r \<and> gr_task r = t \<longrightarrow>
      ex_state (exec_of (ts_exec s) t) = St_running \<or>
      ex_state (exec_of (ts_exec s) t) = St_invalid \<and> waiting s t)"
proof -
  from machine.inv_reachable [OF assms] have load: "load_inv s" by (rule exec_invD)
  from order.inv_reachable [OF assms] have order: "order_inv g s" .
  have "\<exists>!i. active_at s t i" if "ex_state (node s t) = St_running"
    using order that active_at_unique [OF load] unfolding order_inv_alt by blast
  moreover have "ex_state (node s t) = St_running \<or> ex_state (node s t) = St_invalid \<and> waiting s t"
    if "active_at s t i" for i
    using order that idle_not_active [OF load] unfolding order_inv_alt by blast
  ultimately show ?thesis unfolding active_at_def by blast
qed

theorem running_iff_run_witness:
  "\<exists>s i r. reachable pair s \<and> e_runs s i = Some r \<and> active r \<and>
     (ex_state (exec_of (ts_exec s) 1) = St_running \<or>
      ex_state (exec_of (ts_exec s) 1) = St_invalid \<and> waiting s 1)"
proof -
  from interrupted_eval obtain as s r where run: "do_actions pair as pair_start = Some s"
    and r: "e_runs s 1 = Some r" "gr_task r = 1" "gr_pc r = G_body"
    by blast
  from r(3) have a: "active r" by (simp add: active_def)
  from running_iff_run [OF pair_reachable [OF run], of 1] r(1,2) a pair_reachable [OF run]
  show ?thesis by blast
qed

section \<open>The reach of a cancellation\<close>

text \<open>
  C4. From the moment a run has its context until it has written its state, that context is
  cancelled only by the shutdown or by a plan that is invalidating the run's own task, although
  a dependency's context is derived from the context of a task that depends on it: in every
  reachable state in which the executor's context is alive and the context of a run in its
  body, at the reading of the context's error or at the write of its state is not, some plan
  is waiting for the exit of that run's task and the task's state is invalid. This is what the
  comment in \<open>runPass\<close> relies on: a run that finds its context cancelled need not write a state
  unless \<open>taskrunner\<close> is shutting down. Once the state is written this no longer holds: the
  plan of a task that depends on it may cancel the context of a goroutine that is about to
  return, and does not wait for it.
\<close>

theorem cancelled_only_by_own_plan:
  assumes "reachable g s" and "e_runs s i = Some r" and "gr_pc r \<in> {G_body, G_check, G_write}"
    and "\<not> root_done s" and "ctx_err (ts_cancelled s) (gr_ctx r)"
  shows "waiting s (gr_task r) \<and> ex_state (exec_of (ts_exec s) (gr_task r)) = St_invalid"
proof -
  obtain c0 N where "ctx_inv g c0 N s" using contexts.inv_reachable [OF assms(1)] by blast
  with machine.inv_reachable [OF assms(1)] show ?thesis
    using run_ctx_alive assms(2-5) by blast
qed

theorem cancelled_only_by_own_plan_witness:
  "\<exists>s r. reachable pair s \<and> e_runs s 1 = Some r \<and> ctx_err (ts_cancelled s) (gr_ctx r) \<and>
     waiting s (gr_task r) \<and> ex_state (exec_of (ts_exec s) (gr_task r)) = St_invalid"
proof -
  from interrupted_eval obtain as s r where run: "do_actions pair as pair_start = Some s"
    and r: "e_runs s 1 = Some r" "gr_pc r = G_body" "\<not> root_done s"
      "ctx_err (ts_cancelled s) (gr_ctx r)"
    by blast
  from r(2) have "gr_pc r \<in> {G_body, G_check, G_write}" by simp
  from cancelled_only_by_own_plan [OF pair_reachable [OF run] r(1) this r(3,4)] r(1,4)
    pair_reachable [OF run]
  show ?thesis by blast
qed

section \<open>Invalidate\<close>

text \<open>
  C11. \<open>Invalidate\<close> marks exactly what it should: when it returns, its result says whether
  the task accepted the event, and every node's pending invalidations have grown by the
  marks that spread from the accepted event along the reverse edges, each node that is not
  invalid and accepts the change of its dependency passing it on. Nothing else of any node
  has changed.
\<close>

theorem invalidate_marks_exactly:
  assumes "mark_invalid n g t ev m = Some (b, m')"
  shows "(b \<longleftrightarrow> ex_state (exec_of m t) \<noteq> St_invalid \<and> \<not> rejects g t ev) \<and>
    (\<forall>x. exec_of m' x = (exec_of m x)\<lparr>ex_pending :=
       ex_pending (exec_of m x) \<union> {e. (x, e) \<in> marks g m t ev}\<rparr>)"
  using mark_invalid_marked [OF assms] by (auto simp: accepts_def marked_def)

lemma pair_mark_eval:
  "\<exists>m m'. m = [0 \<mapsto> (new_execution [2] [])\<lparr>ex_state := St_done, ex_dependents := [1]\<rparr>,
       1 \<mapsto> (new_execution [3] [0])\<lparr>ex_state := St_error\<rparr>] \<and>
     mark_invalid (Suc (Suc 0)) pair 0 changed m = Some (True, m') \<and>
     ex_pending (exec_of m' 1) = {DependencyChange 0}"
  by (simp add: machine_eval)

theorem invalidate_marks_exactly_witness:
  "\<exists>m m'. mark_invalid (Suc (Suc 0)) pair 0 changed m = Some (True, m') \<and>
     (1, DependencyChange 0) \<in> marks pair m 0 changed"
proof -
  obtain m m' where m: "m = [0 \<mapsto> (new_execution [2] [])\<lparr>ex_state := St_done, ex_dependents := [1]\<rparr>,
       1 \<mapsto> (new_execution [3] [0])\<lparr>ex_state := St_error\<rparr>]"
    and mark: "mark_invalid (Suc (Suc 0)) pair 0 changed m = Some (True, m')"
    and p: "ex_pending (exec_of m' 1) = {DependencyChange 0}"
    using pair_mark_eval by blast
  have "ex_pending (exec_of m 1) = {}" by (simp add: m new_execution_def)
  with invalidate_marks_exactly [OF mark] p have "(1, DependencyChange 0) \<in> marks pair m 0 changed"
    by force
  with mark show ?thesis by blast
qed

lemma reachable_finite: "reachable g s \<Longrightarrow> finite (tasks_of (ts_exec s))"
proof (induction rule: reachable_by.induct)
  case (initial s)
  then show ?case by (rule starts_finite)
next
  case (step s s')
  have inv: "exec_inv g s" using step(1) by (rule machine.inv_reachable)
  then have "same_graph s s'"
    using step(2) by (intro effect_same_graph [OF exec_invD(1)] step_effect)
  with step show ?case by (simp add: same_graph_def)
qed

lemma dependents_wf:
  assumes "reachable g s"
  shows "wf (dependents_rel (ts_exec s))"
proof (rule finite_acyclic_wf)
  have graph: "graph_inv g s" using machine.inv_reachable [OF assms] by (rule exec_invD)
  have outside: "ex_dependents (node s x) = []" if "x \<notin> tasks_of (ts_exec s)" for x
    using that by (auto simp: tasks_of_def exec_of_def new_execution_def split: option.splits)
  have sub: "dependents_rel (ts_exec s) \<subseteq>
      (dep_rel g)\<inverse> \<inter> tasks_of (ts_exec s) \<times> tasks_of (ts_exec s)"
    using graph outside unfolding dependents_rel_def graph_inv_def
    by (auto simp: dep_rel_def) (metis emptyE empty_set)+
  show "finite (dependents_rel (ts_exec s))"
    using sub reachable_finite [OF assms] by (auto intro: finite_subset)
  have "acyclic (dep_rel g)" using reachable_wf [OF assms] by (rule wf_acyclic)
  then show "acyclic (dependents_rel (ts_exec s))"
    using sub by (auto intro: acyclic_subset simp: acyclic_converse)
qed

text \<open>
  \<open>Invalidate\<close> returns: in every state the executor reaches, whatever the event and the
  predicates \<open>ShouldInvalidate\<close> of the tasks, the recursion over the dependents is finite.
\<close>

lemma invalidate_returns:
  assumes "reachable g s"
  shows "\<exists>n. \<forall>k \<ge> n. \<exists>b m. mark_invalid k g t ev (ts_exec s) = Some (b, m)"
  using mark_invalid_total [OF dependents_wf [OF assms], of g t] by (metis not_None_eq surj_pair)

text \<open>So the step of a call is missing exactly where the call panics.\<close>

lemma invalidate_panics_iff:
  assumes "reachable g s"
  shows "(\<exists>n. op_invalidate g n t ev s \<noteq> None) \<longleftrightarrow> \<not> invalidate_panics t s"
proof -
  obtain n b m where "mark_invalid n g t ev (ts_exec s) = Some (b, m)"
    using invalidate_returns [OF assms, of t ev] by blast
  then have "\<not> invalidate_panics t s \<Longrightarrow> op_invalidate g n t ev s \<noteq> None"
    by (cases b) (simp_all add: op_invalidate_def)
  then show ?thesis by (auto simp: op_invalidate_def)
qed

lemma invalidate_returns_example:
  "\<exists>n b m. mark_invalid n pair 0 changed (ts_exec pair_start) = Some (b, m)"
  using invalidate_returns [of pair pair_start 0 changed] pair_starts
  by (blast intro: reachable_by.initial)

end
