(* ===== verification/ExecutorStuck.thy ===== *)
theory ExecutorStuck
  imports ExecutorRaces ExecutorSafety
begin

text \<open>
  When the executor can go on. A state in which a run, a pass or a plan is under way has a
  next step of its own, except in two cases: a plan waits for an exit that has already been
  consumed, which the windows of \<open>ExecutorRaces\<close> lead to; or a long-lived task's goroutine
  sends to the full invalidation channel after the invalidation loop has gone, which a
  shutdown at the wrong moment leads to.
\<close>

section \<open>Steps of the executor's own\<close>

definition plain_action :: "action \<Rightarrow> bool" where
  "plain_action a \<longleftrightarrow> (case a of A_invalidate _ _ _ \<Rightarrow> False | A_shutdown \<Rightarrow> False | _ \<Rightarrow> True)"

definition plain_step :: "(tid \<Rightarrow> 'w task) \<Rightarrow> executor \<Rightarrow> executor \<Rightarrow> bool" where
  "plain_step g s s' \<longleftrightarrow> (\<exists>a. plain_action a \<and> do_action g a s = Some s')"

definition short_lived :: "(tid \<Rightarrow> 'w task) \<Rightarrow> bool" where
  "short_lived g \<longleftrightarrow> (\<forall>t. \<not> t_keep_alive (g t))"

lemma plain_is_step: "plain_step g s s' \<Longrightarrow> exec_step g s s'"
  by (auto simp: plain_step_def intro: exec_step.act)

lemma plain_stepI: "plain_action a \<Longrightarrow> do_action g a s \<noteq> None \<Longrightarrow> \<exists>s'. plain_step g s s'"
  unfolding plain_step_def by blast

lemma order_exists: "finite (tasks_of m) \<Longrightarrow> \<exists>ord. is_order ord m"
  unfolding is_order_def tasks_of_def by (metis finite_distinct_list)

section \<open>Who can take the next step\<close>

text \<open>A goroutine that neither needs the lock nor sends to the invalidation channel.\<close>

lemma run_steps:
  assumes r: "e_runs s i = Some r" and pc: "gr_pc r \<notin> {G_notify, G_plan, G_lock}"
    and load: "load_inv s"
    and mark: "\<exists>n. mark_invalid n g (gr_task r) KeepAliveStopped (ts_exec s) \<noteq> None"
  shows "\<exists>s'. plain_step g s s'"
proof (cases "gr_pc r")
  case G_start
  with r show ?thesis
    by (intro plain_stepI [of "A_start i"]) (simp_all add: plain_action_def op_start_def at_pc_def)
next
  case G_body
  with r show ?thesis
    by (intro plain_stepI [of "A_body i None"]) (simp_all add: plain_action_def op_body_def at_pc_def)
next
  case G_check
  with r show ?thesis
    by (intro plain_stepI [of "A_check i"]) (simp_all add: plain_action_def op_check_def at_pc_def)
next
  case G_write
  with r show ?thesis
    by (intro plain_stepI [of "A_write i"]) (simp_all add: plain_action_def op_write_def at_pc_def)
next
  case G_publish
  with r show ?thesis
    by (intro plain_stepI [of "A_publish i"]) (simp_all add: plain_action_def op_publish_def at_pc_def)
next
  case G_send
  then have "unsent r" by (simp add: unsent_def)
  with load_invD [OF load, of "gr_task r"] liveI [OF r] have "ex_terminal (node s (gr_task r)) = 0"
    by (auto simp: load_at_def)
  with r G_send show ?thesis
    by (intro plain_stepI [of "A_send i"]) (simp_all add: plain_action_def op_send_def at_pc_def)
next
  case G_keep
  from mark obtain n b m where
    "mark_invalid n g (gr_task r) KeepAliveStopped (ts_exec s) = Some (b, m)" by auto
  with r G_keep show ?thesis
    by (intro plain_stepI [of "A_keep n i"])
      (auto simp: plain_action_def op_keep_def at_pc_def split: bool.splits)
next
  case G_pass
  with r show ?thesis
    by (intro plain_stepI [of "A_pass_test i"]) (simp_all add: plain_action_def op_pass_test_def at_pc_def)
next
  case G_return
  with r show ?thesis
    by (intro plain_stepI [of "A_return i"]) (simp_all add: plain_action_def op_return_def at_pc_def)
qed (use pc in simp_all)

text \<open>Whoever holds the lock, unless its plan waits.\<close>

lemma holder_steps:
  assumes base: "base_inv s" and mu: "e_mu s = Some h" and w: "\<forall>th ts. h \<noteq> Planning th ts True"
  shows "\<exists>s'. plain_step g s s'"
proof (cases h)
  case (Planning th ts w')
  with w have [simp]: "w' = False" by simp
  have "op_plan_next s \<noteq> None"
    using Planning base mu
    by (cases ts; cases th) (auto simp: op_plan_next_def base_inv_def thread_plans_def)
  then show ?thesis by (intro plain_stepI [of A_plan_next]) (simp_all add: plain_action_def)
next
  case (Passing th ts)
  with base mu have "op_visit s \<noteq> None"
    by (cases ts; cases th) (auto simp: op_visit_def base_inv_def thread_passes_def)
  then show ?thesis by (intro plain_stepI [of A_visit]) (simp_all add: plain_action_def)
qed

lemma waiter_steps:
  assumes "waiting s t" and "ex_terminal (node s t) \<noteq> 0"
  shows "\<exists>s'. plain_step g s s'"
proof -
  from assms have "op_plan_wait s \<noteq> None"
    by (auto simp: waiting_def op_plan_wait_def invalidate_end_def)
  then show ?thesis by (intro plain_stepI [of A_plan_wait]) (simp_all add: plain_action_def)
qed

text \<open>With the lock free, whoever asks for it; and a sender, as long as the loop lives.\<close>

lemma locker_steps:
  assumes "e_mu s = None" and "is_order ord (ts_exec s)"
    and "e_locks s \<noteq> 0 \<or> e_loop s = L_plan \<or>
      (\<exists>i r. e_runs s i = Some r \<and> gr_pc r \<in> {G_plan, G_lock})"
  shows "\<exists>s'. plain_step g s s'"
  using assms(3)
proof (elim disjE exE conjE)
  assume "e_locks s \<noteq> 0"
  with assms(1,2) show ?thesis
    by (intro plain_stepI [of "A_lock_pass ord"])
      (auto simp: plain_action_def op_lock_pass_def ordered_def split: nat.splits)
next
  assume "e_loop s = L_plan"
  with assms(1,2) show ?thesis
    by (intro plain_stepI [of "A_plan_loop ord"])
      (simp_all add: plain_action_def op_plan_loop_def ordered_def begin_plan_def Let_def)
next
  fix i r
  assume r: "e_runs s i = Some r" "gr_pc r \<in> {G_plan, G_lock}"
  show ?thesis
  proof (cases "gr_pc r = G_plan")
    case True
    with r assms(1,2) show ?thesis
      by (intro plain_stepI [of "A_plan_run i ord"])
        (simp_all add: plain_action_def op_plan_run_def at_pc_def ordered_def begin_plan_def Let_def)
  next
    case False
    with r assms(1,2) show ?thesis
      by (intro plain_stepI [of "A_lock_run i ord"])
        (auto simp: plain_action_def op_lock_run_def at_pc_def ordered_def)
  qed
qed

definition hung :: "executor \<Rightarrow> nat \<Rightarrow> bool" where
  "hung s i \<longleftrightarrow> e_loop s = L_exited \<and> e_inv_ch s \<and>
     (\<exists>r. e_runs s i = Some r \<and> gr_pc r = G_notify)"

lemma sender_steps:
  assumes "e_runs s i = Some r" and "gr_pc r = G_notify" and "\<not> hung s i" and "e_loop s \<noteq> L_plan"
  shows "\<exists>s'. plain_step g s s'"
proof (cases "e_inv_ch s")
  case False
  with assms show ?thesis
    by (intro plain_stepI [of "A_notify i"]) (simp_all add: plain_action_def op_notify_def at_pc_def)
next
  case True
  with assms have "e_loop s = L_idle" by (cases "e_loop s") (auto simp: hung_def)
  with True show ?thesis
    by (intro plain_stepI [of A_loop_recv]) (simp_all add: plain_action_def op_loop_recv_def)
qed

section \<open>Progress\<close>

lemma progress_waiting:
  assumes "load_inv s" and "waiting s t" and "\<not> stuck s t"
    and mark: "\<And>x. \<exists>n. mark_invalid n g x KeepAliveStopped (ts_exec s) \<noteq> None"
  shows "\<exists>s'. plain_step g s s'"
proof (cases "ex_terminal (node s t) = 0")
  case True
  with assms(2,3) obtain i r where "e_runs s i = Some r" "unsent r"
    by (auto simp: stuck_def live_def)
  with assms(1) mark show ?thesis by (intro run_steps [of s i r]) (auto simp: unsent_def)
next
  case False
  with assms(2) show ?thesis by (rule waiter_steps)
qed

lemma progress_free:
  assumes "load_inv s" and "finite (tasks_of (ts_exec s))" and "e_mu s = None" and "\<not> idle s"
    and mark: "\<And>x. \<exists>n. mark_invalid n g x KeepAliveStopped (ts_exec s) \<noteq> None"
    and "\<And>i. \<not> hung s i"
  shows "\<exists>s'. plain_step g s s'"
proof -
  obtain ord where ord: "is_order ord (ts_exec s)" using order_exists [OF assms(2)] by blast
  note lock = locker_steps [OF assms(3) ord]
  show ?thesis
  proof (cases "e_runs s = Map.empty")
    case True
    with assms(3,4) consider n where "e_passes s = Suc n" | "e_locks s \<noteq> 0"
      unfolding idle_def by (metis not0_implies_Suc)
    then show ?thesis
    proof cases
      case 1
      then show ?thesis
        by (intro plain_stepI [of A_test_pass]) (simp_all add: plain_action_def op_test_pass_def)
    qed (use lock in blast)
  next
    case False
    then obtain i r where r: "e_runs s i = Some r" by (meson not_None_eq ext)
    show ?thesis
    proof (cases "gr_pc r = G_notify")
      case True
      with sender_steps [OF r True assms(6)] lock show ?thesis by blast
    next
      case False
      with r run_steps [OF r _ assms(1) mark] lock show ?thesis by blast
    qed
  qed
qed

text \<open>Only long-lived tasks send to the invalidation channel.\<close>

definition notify_inv :: "(tid \<Rightarrow> 'w task) \<Rightarrow> executor \<Rightarrow> bool" where
  "notify_inv g s \<longleftrightarrow>
     (\<forall>i r. e_runs s i = Some r \<longrightarrow> gr_pc r = G_notify \<longrightarrow> t_keep_alive (g (gr_task r)))"

lemma notify_action:
  assumes act: "do_action g a s = Some s'"
    and r: "e_runs s' j = Some r" "gr_pc r = G_notify"
  shows "e_runs s j = Some r \<or> t_keep_alive (g (gr_task r))"
proof (cases a)
  case (A_write i)
  then have "op_write i s = Some s'" using act by simp
  then show ?thesis using r by (cases rule: op_write_cases) (auto split: if_splits)
next
  case (A_send i)
  with act have "op_send i s = Some s'" by simp
  then show ?thesis using r by (cases rule: op_send_cases) (auto split: if_splits)
next
  case A_plan_next
  then have "op_plan_next s = Some s'" using act by simp
  then show ?thesis using r by (cases rule: op_plan_next_cases) (auto split: if_splits)
next
  case A_plan_wait
  then have "op_plan_wait s = Some s'" using act by simp
  then show ?thesis using r by (cases rule: op_plan_wait_cases) simp
next
  case A_visit
  then have "op_visit s = Some s'" using act by simp
  then show ?thesis using r by (cases rule: op_visit_cases) (auto split: if_splits)
next
  case (A_invalidate n t ev)
  with act have "op_invalidate g n t ev s = Some s'" by simp
  then show ?thesis using r by (cases rule: op_invalidate_cases) simp
next
  case (A_keep n i)
  with act r show ?thesis
    by (auto simp: op_keep_def at_pc_Some after_keep_def split: if_splits option.splits bool.splits)
next
  case (A_return i)
  with act have "e_runs s' = (e_runs s)(i := None)" by (auto simp: op_return_def at_pc_Some)
  with r show ?thesis by (simp split: if_splits)
qed (use act r in \<open>auto simp: ordered_Some at_pc_Some op_start_def op_body_def op_check_def
    op_publish_def op_notify_def op_pass_test_def op_plan_run_def op_plan_loop_def op_test_pass_def
    op_lock_pass_def op_lock_run_def op_notify_ch_def op_loop_recv_def op_loop_timer_def
    op_loop_exit_def op_shutdown_def begin_plan_Some after_keep_def split: if_splits nat.splits\<close>)

interpretation notify: invariant "starts g" "exec_step g" "\<lambda>s. True" "notify_inv g" for g
proof unfold_locales
  show "notify_inv g s" if "starts g s" for s
    using that by (auto simp: starts_def notify_inv_def)
  show "notify_inv g s'" if inv: "notify_inv g s" and step: "exec_step g s s'" for s s'
  proof -
    from step obtain a where "do_action g a s = Some s'" by (rule exec_stepE)
    with inv show ?thesis unfolding notify_inv_def using notify_action by blast
  qed
qed simp

lemma progress:
  assumes reach: "reachable g s" and "\<not> idle s" and "\<And>t. \<not> stuck s t" and "\<And>i. \<not> hung s i"
  shows "\<exists>s'. plain_step g s s'"
proof -
  have inv: "base_inv s" "load_inv s"
    using machine.inv_reachable [OF reach] by (auto dest: exec_invD)
  have mark: "\<exists>n. mark_invalid n g x KeepAliveStopped (ts_exec s) \<noteq> None" for x
    using mark_invalid_total [OF dependents_wf [OF reach], of g x] by blast
  show ?thesis
  proof (cases "e_mu s")
    case None
    then show ?thesis
      by (rule progress_free [OF inv(2) reachable_finite [OF reach] _ assms(2) mark assms(4)])
  next
    case (Some h)
    show ?thesis
    proof (cases "\<exists>t. waiting s t")
      case True
      with assms(3) show ?thesis using progress_waiting [OF inv(2) _ _ mark] by blast
    next
      case False
      have "h \<noteq> Planning th ts True" for th ts
        using False Some inv(1) by (cases ts) (auto simp: waiting_def base_inv_def)
      with holder_steps [OF inv(1) Some] show ?thesis by blast
    qed
  qed
qed

text \<open>
  The steps of the executor itself, its events aside, block in two ways only: in a plan that
  waits for a task that has no run to report an exit and no message left in its channel, and
  in the goroutine of a long-lived task that sends to the full invalidation channel when the
  invalidation loop has returned. \<open>Delivery\<close> adds the sends of the events.
\<close>

lemma executor_blocks_only_twice:
  assumes "reachable g s" and "\<not> idle s"
  shows "(\<exists>s'. plain_step g s s') \<or>
    (\<exists>t. waiting s t \<and> ex_terminal (exec_of (ts_exec s) t) = 0 \<and>
       (\<nexists>i r. e_runs s i = Some r \<and> gr_task r = t \<and> unsent r)) \<or>
    (\<exists>i r. e_runs s i = Some r \<and> gr_pc r = G_notify \<and> t_keep_alive (g (gr_task r)) \<and>
       e_inv_ch s \<and> e_loop s = L_exited)"
proof -
  have keep: "t_keep_alive (g (gr_task r))" if "e_runs s i = Some r" "gr_pc r = G_notify" for i r
    using notify.inv_reachable [OF assms(1)] that by (simp add: notify_inv_def)
  from progress [OF assms] consider s' where "plain_step g s s'" | t where "stuck s t"
    | i where "hung s i" by blast
  then show ?thesis
  proof cases
    case (2 t)
    then have "waiting s t \<and> ex_terminal (exec_of (ts_exec s) t) = 0 \<and>
        (\<nexists>i r. e_runs s i = Some r \<and> gr_task r = t \<and> unsent r)"
      by (auto simp: stuck_def live_def)
    then show ?thesis by blast
  next
    case (3 i)
    with keep show ?thesis unfolding hung_def by blast
  qed blast
qed

section \<open>The shutdown that never ends\<close>

text \<open>A goroutine that hangs at its send hangs for ever: nobody reads the channel any more.\<close>

lemma hung_run:
  assumes "hung s i" and "e_runs s j = Some r" and "gr_pc r \<noteq> G_notify"
    and "e_runs s' = (e_runs s)(j := q)" and "e_loop s' = e_loop s" and "e_inv_ch s' = e_inv_ch s"
  shows "hung s' i"
proof -
  have "j \<noteq> i" using assms(1-3) by (auto simp: hung_def)
  with assms show ?thesis by (simp add: hung_def)
qed

lemma hung_same:
  "hung s i \<Longrightarrow> e_runs s' = e_runs s \<Longrightarrow> e_loop s' = e_loop s \<Longrightarrow> e_inv_ch s' = e_inv_ch s \<Longrightarrow>
     hung s' i"
  by (simp add: hung_def)

lemma hung_action:
  assumes hung: "hung s i" and base: "base_inv s" and act: "do_action g a s = Some s'"
  shows "hung s' i"
proof -
  note run = hung_run [OF hung] and same = hung_same [OF hung]
  have loop: "e_loop s = L_exited" "e_inv_ch s" using hung by (simp_all add: hung_def)
  show ?thesis
  proof (cases a)
    case (A_write j)
    then have "op_write j s = Some s'" using act by simp
    then show ?thesis
      by (cases rule: op_write_cases) (auto intro!: run [where q = "Some q" for q])
  next
    case (A_send j)
    then have "op_send j s = Some s'" using act by simp
    then show ?thesis
      by (cases rule: op_send_cases) (auto intro!: run [where q = "Some q" for q])
  next
    case (A_keep n j)
    then have "op_keep g n j s = Some s'" using act by simp
    then show ?thesis
      by (cases rule: op_keep_cases) (auto intro!: run [where q = "Some q" for q])
  next
    case (A_notify j)
    with act loop show ?thesis by (auto simp: op_notify_def at_pc_Some split: if_splits)
  next
    case (A_return j)
    with act show ?thesis
      by (auto simp: op_return_def at_pc_Some intro!: run [where q = None])
  next
    case A_plan_next
    then have "op_plan_next s = Some s'" using act by simp
    then show ?thesis
    proof (cases rule: op_plan_next_cases)
      case (done_run j r)
      with base have "gr_pc r = G_plan" by (auto dest: holder_run)
      with done_run show ?thesis by (intro run [of j r s' "Some (r\<lparr>gr_pc := G_pass\<rparr>)"]) simp_all
    next
      case done_loop
      with base loop show ?thesis by (simp add: base_inv_def thread_plans_def)
    qed (auto intro: same)
  next
    case A_plan_wait
    then have "op_plan_wait s = Some s'" using act by simp
    then show ?thesis by (cases rule: op_plan_wait_cases) (auto intro: same)
  next
    case A_visit
    then have "op_visit s = Some s'" using act by simp
    then show ?thesis
    proof (cases rule: op_visit_cases)
      case (run th t ts)
      have "e_runs s (e_next_run s) = None" using base by (simp add: base_inv_def runs_ok_next)
      with hung have "i \<noteq> e_next_run s" by (auto simp: hung_def)
      with run hung show ?thesis by (simp add: hung_def)
    next
      case (done_run j r)
      with base have "gr_pc r = G_lock" by (auto dest: holder_run)
      with done_run show ?thesis
        by (intro hung_run [OF hung, of j r s' "Some (r\<lparr>gr_pc := G_return\<rparr>)"]) simp_all
    qed (auto intro: same)
  next
    case (A_invalidate n t ev)
    with act have "op_invalidate g n t ev s = Some s'" by simp
    then show ?thesis by (cases rule: op_invalidate_cases) (auto intro: same)
  qed (use act loop in \<open>auto simp: ordered_Some at_pc_Some op_start_def op_body_def op_check_def
      op_publish_def op_pass_test_def op_plan_run_def op_plan_loop_def op_test_pass_def
      op_lock_pass_def op_lock_run_def op_notify_ch_def op_loop_recv_def op_loop_timer_def
      op_loop_exit_def op_shutdown_def begin_plan_Some split: if_splits nat.splits
      intro: same run\<close>)
qed

lemma hung_forever:
  assumes "(exec_step g)\<^sup>*\<^sup>* s s'" and "exec_inv g s" and "hung s i"
  shows "hung s' i"
proof -
  have "hung s' i \<and> exec_inv g s'"
    using assms
  proof (induction rule: rtranclp_induct)
    case (step s1 s2)
    from step(2) obtain a where "do_action g a s1 = Some s2" by (rule exec_stepE)
    with step show ?case using hung_action exec_invD(1) exec_inv_step by blast
  qed simp
  then show ?thesis by blast
qed

text \<open>
  Two long-lived tasks that stop by themselves: the first one's goroutine fills the
  invalidation channel and the second one's waits to send. Then taskrunner is told to stop
  before the invalidation loop has read the channel: the loop's \<open>select\<close> finds both the
  channel and the done context ready, and may choose to return.
\<close>

definition servers :: "tid \<Rightarrow> unit task" where
  "servers t = zero_task\<lparr>t_name := [char_of (65 + t)], t_run := Some (\<lambda>c sh w. Return (None, w)),
     t_keep_alive := True\<rparr>"

definition servers_start :: executor where
  "servers_start = start_executor [0]
     \<lparr>ts_next = 3, ts_cancelled = {},
      ts_exec = [0 \<mapsto> new_execution [1, 0] [], 1 \<mapsto> new_execution [2, 0] []]\<rparr>"

lemma servers_starts: "starts servers servers_start"
proof -
  have "wf (dep_rel servers)" by (rule rank_wf) (simp add: servers_def zero_task_def)
  moreover have "build_task_set 1 servers [''A'' \<mapsto> 0, ''B'' \<mapsto> 1] [0] [''A'', ''B'']
      (empty_task_set 1) = Some (Inr \<lparr>ts_next = 3, ts_cancelled = {},
        ts_exec = [0 \<mapsto> new_execution [1, 0] [], 1 \<mapsto> new_execution [2, 0] []]\<rparr>)"
    by (simp add: eval_nat_numeral servers_def with_cancel_def zero_task_def upd_exec_def
        exec_of_def new_execution_def empty_task_set_def fun_eq_iff)
  ultimately show ?thesis unfolding starts_def servers_start_def by fastforce
qed

definition server_exits :: "nat \<Rightarrow> action list" where
  "server_exits i = [A_start i, A_body i (Some (Err ''exit 1'')), A_check i, A_write i, A_publish i,
     A_send i, A_keep 1 i]"

definition late_stop :: "action list" where
  "late_stop = first_pass @ server_exits 0 @ [A_notify 0] @ server_exits 1 @ [A_shutdown, A_loop_exit]"

lemma late_stop_eval:
  "\<exists>s. do_actions servers late_stop servers_start = Some s \<and> hung s 1 \<and> root_done s \<and>
     ex_state (node s 0) = St_error \<and> ex_state (node s 1) = St_error"
  by (simp add: machine_eval late_stop_def server_exits_def servers_def servers_start_def hung_def)

text \<open>
  C16. A shutdown may never end: two long-lived tasks stop by themselves, taskrunner is told
  to stop before the invalidation loop has read its channel, and the loop returns. From then
  on, whatever anyone does, the goroutine of the second task is blocked in its send to the
  channel, so that the errgroup it belongs to never finishes its wait. No plan is
  involved: this is not one of the windows in which a plan waits in vain.
\<close>

theorem shutdown_can_hang:
  "\<exists>s. reachable_by (starts servers) (calm_step servers) s \<and> root_done s \<and>
     ex_state (exec_of (ts_exec s) 0) = St_error \<and> ex_state (exec_of (ts_exec s) 1) = St_error \<and>
     {u. (exec_step servers)\<^sup>*\<^sup>* s u} \<subseteq> {u. e_runs u 1 \<noteq> None \<and> op_notify 1 u = None}"
proof -
  from late_stop_eval obtain s where s: "do_actions servers late_stop servers_start = Some s"
    "hung s 1" "root_done s" "ex_state (node s 0) = St_error" "ex_state (node s 1) = St_error"
    by blast
  have "A_plan_next \<notin> set late_stop"
    by (simp add: late_stop_def first_pass_def server_exits_def)
  from do_actions_calm [OF s(1) this] servers_starts
  have reach: "reachable_by (starts servers) (calm_step servers) s"
    by (blast intro: reachable_by.initial)
  have inv: "exec_inv servers s" using calm_reachable [OF reach] by (rule machine.inv_reachable)
  have "e_runs u 1 \<noteq> None \<and> op_notify 1 u = None" if u: "(exec_step servers)\<^sup>*\<^sup>* s u" for u
    using hung_forever [OF u inv s(2)] by (auto simp: hung_def op_notify_def at_pc_def)
  with reach s show ?thesis by blast
qed

end
