(* ===== verification/ExecutorMeasure.thy ===== *)
theory ExecutorMeasure
  imports ExecutorInv
begin

text \<open>
  What the measures of the executor's machine share: the sum of the weights of the
  goroutines, each weighted by the statement it is at, and how one goroutine's step, return
  or start changes it.
\<close>

definition runs_weight :: "(run_pc \<Rightarrow> nat) \<Rightarrow> (nat \<rightharpoonup> run) \<Rightarrow> nat \<Rightarrow> nat" where
  "runs_weight w R n = (\<Sum>i<n. case R i of None \<Rightarrow> 0 | Some r \<Rightarrow> w (gr_pc r))"

lemma runs_weight_upd:
  assumes "i < n" and "R i = Some r"
  shows "runs_weight w (R(i \<mapsto> r')) n + w (gr_pc r) =
    runs_weight w R n + w (gr_pc r')"
proof -
  let ?f = "\<lambda>R i. case R i of None \<Rightarrow> 0 | Some r \<Rightarrow> w (gr_pc r)"
  have "runs_weight w Q n = ?f Q i + (\<Sum>j \<in> {..<n} - {i}. ?f Q j)" for Q
    using assms(1) by (simp add: runs_weight_def sum.remove)
  moreover have "(\<Sum>j \<in> {..<n} - {i}. ?f (R(i \<mapsto> r')) j) = (\<Sum>j \<in> {..<n} - {i}. ?f R j)"
    by (rule sum.cong) auto
  ultimately show ?thesis using assms(2) by simp
qed

lemma runs_weight_del:
  assumes "i < n" and "R i = Some r"
  shows "runs_weight w (R(i := None)) n + w (gr_pc r) = runs_weight w R n"
proof -
  let ?f = "\<lambda>R i. case R i of None \<Rightarrow> 0 | Some r \<Rightarrow> w (gr_pc r)"
  have "runs_weight w Q n = ?f Q i + (\<Sum>j \<in> {..<n} - {i}. ?f Q j)" for Q
    using assms(1) by (simp add: runs_weight_def sum.remove)
  moreover have "(\<Sum>j \<in> {..<n} - {i}. ?f (R(i := None)) j) = (\<Sum>j \<in> {..<n} - {i}. ?f R j)"
    by (rule sum.cong) auto
  ultimately show ?thesis using assms(2) by simp
qed

lemma runs_weight_new:
  "runs_weight w (R(n \<mapsto> r)) (Suc n) = runs_weight w R n + w (gr_pc r)"
proof -
  have "(\<Sum>i<n. case (R(n \<mapsto> r)) i of None \<Rightarrow> 0 | Some r \<Rightarrow> w (gr_pc r)) =
      (\<Sum>i<n. case R i of None \<Rightarrow> 0 | Some r \<Rightarrow> w (gr_pc r))"
    by (rule sum.cong) auto
  then show ?thesis by (simp add: runs_weight_def)
qed

lemma runs_weight_le:
  assumes "\<And>i. i \<in> dom R \<Longrightarrow> i < n" and "\<And>pc. w pc \<le> k"
  shows "runs_weight w R n \<le> k * card (dom R)"
proof -
  have "finite (dom R)" using assms(1) by (meson finite_lessThan finite_subset lessThan_iff subsetI)
  have "runs_weight w R n = (\<Sum>i \<in> dom R. case R i of None \<Rightarrow> 0 | Some r \<Rightarrow> w (gr_pc r))"
    unfolding runs_weight_def
    by (rule sum.mono_neutral_right) (use assms(1) in \<open>auto split: option.splits\<close>)
  also have "\<dots> \<le> (\<Sum>i \<in> dom R. k)"
    by (rule sum_mono) (use assms(2) in \<open>auto split: option.splits\<close>)
  finally show ?thesis by (simp add: mult.commute)
qed

lemma is_order_length: "is_order ord m \<Longrightarrow> length ord = card (tasks_of m)"
  by (metis distinct_card is_order_distinct is_order_tasks)

end
