(* ===== verification/ExecutorShutdown.thy ===== *)
theory ExecutorShutdown
  imports ExecutorStuck ExecutorMeasure
begin

text \<open>
  The shutdown. Once the context of the run is cancelled, no pass begins any more, so the
  goroutines that are there, the passes and plans that have begun and the runs they still
  start come to an end: the number of steps the executor can take is bounded, whatever the
  interleaving.
\<close>

section \<open>What is left after the shutdown\<close>

text \<open>
  The weights, for \<open>T\<close> tasks. A pass that holds the lock may still start a run for every
  task it has to visit, and such a run starts no pass. A send to the invalidation channel
  can wake the loop up for one more plan, which takes at most two steps for each task.
\<close>

fun stop_weight :: "nat \<Rightarrow> run_pc \<Rightarrow> nat" where
  "stop_weight T G_return = 1"
| "stop_weight T G_pass = 2"
| "stop_weight T G_plan = 2 * T + 4"
| "stop_weight T G_notify = 4 * T + 10"
| "stop_weight T G_keep = 4 * T + 11"
| "stop_weight T G_send = 4 * T + 12"
| "stop_weight T G_publish = 4 * T + 13"
| "stop_weight T G_write = 4 * T + 14"
| "stop_weight T G_check = 4 * T + 15"
| "stop_weight T G_body = 4 * T + 16"
| "stop_weight T G_start = 4 * T + 17"
| "stop_weight T G_lock = (4 * T + 18) * T + 3"

fun stop_lock :: "nat \<Rightarrow> holder option \<Rightarrow> nat" where
  "stop_lock T None = (4 * T + 18) * T + 2 * T + 3"
| "stop_lock T (Some (Planning th ts w)) = (4 * T + 18) * T + 1 + 2 * length ts + (if w then 0 else 1)"
| "stop_lock T (Some (Passing (Th_run i) ts)) = 2 * T + 2 + (4 * T + 18) * length ts"
| "stop_lock T (Some (Passing th ts)) = (4 * T + 18) * T + 2 * T + 4 + (4 * T + 18) * length ts"

fun stop_loop :: "nat \<Rightarrow> loop_pc \<Rightarrow> nat" where
  "stop_loop T L_exited = 0"
| "stop_loop T L_idle = 1"
| "stop_loop T L_plan = 2 * T + 4"

definition stop_rest :: "nat \<Rightarrow> executor \<Rightarrow> nat" where
  "stop_rest T s = stop_lock T (e_mu s) + stop_loop T (e_loop s) + e_passes s +
     ((4 * T + 18) * T + 2) * e_locks s + (2 * T + 6) * e_senders s +
     (2 * T + 5) * of_bool (e_inv_ch s) + (2 * T + 4) * of_bool (e_timer s)"

definition stop_left :: "executor \<Rightarrow> nat" where
  "stop_left s = (let T = card (tasks_of (ts_exec s)) in
     runs_weight (stop_weight T) (e_runs s) (e_next_run s) + stop_rest T s)"

text \<open>A step of one goroutine, and a step of the lock or the queues.\<close>

lemma stop_run:
  assumes base: "base_inv s" and r: "e_runs s i = Some r" "e_runs s' = (e_runs s)(i \<mapsto> r')"
    and less: "stop_weight (card (tasks_of (ts_exec s))) (gr_pc r') + stop_rest (card (tasks_of (ts_exec s))) s' <
      stop_weight (card (tasks_of (ts_exec s))) (gr_pc r) + stop_rest (card (tasks_of (ts_exec s))) s"
    and same: "e_next_run s' = e_next_run s" "tasks_of (ts_exec s') = tasks_of (ts_exec s)"
  shows "stop_left s' < stop_left s"
proof -
  let ?w = "stop_weight (card (tasks_of (ts_exec s)))"
  have "i < e_next_run s" using base r by (simp add: base_inv_def runs_okD)
  from runs_weight_upd [where R = "e_runs s" and r' = r', OF this r(1), of ?w] less r(2)
  show ?thesis by (simp add: stop_left_def Let_def same)
qed

lemma stop_same:
  assumes "e_runs s' = e_runs s" "e_next_run s' = e_next_run s"
    and "tasks_of (ts_exec s') = tasks_of (ts_exec s)"
    and "stop_rest (card (tasks_of (ts_exec s))) s' < stop_rest (card (tasks_of (ts_exec s))) s"
  shows "stop_left s' < stop_left s"
  using assms by (simp add: stop_left_def Let_def)

lemma stop_step:
  "base_inv s \<Longrightarrow> e_runs s i = Some r \<Longrightarrow> e_runs s' = (e_runs s)(i \<mapsto> r') \<Longrightarrow>
     (\<And>T. stop_weight T (gr_pc r') < stop_weight T (gr_pc r)) \<Longrightarrow>
     (\<And>T. stop_rest T s' = stop_rest T s) \<Longrightarrow> e_next_run s' = e_next_run s \<Longrightarrow>
     tasks_of (ts_exec s') = tasks_of (ts_exec s) \<Longrightarrow> stop_left s' < stop_left s"
  by (rule stop_run) auto

lemma stop_rest_simps [simp]:
  "stop_rest T (set_run i r s) = stop_rest T s" "stop_rest T (publish k t s) = stop_rest T s"
  "stop_rest T (set_state t st s) = stop_rest T s" "stop_rest T (s\<lparr>ts_exec := m\<rparr>) = stop_rest T s"
  by (simp_all add: stop_rest_def)

section \<open>Every step is one of the last\<close>

lemma stop_keep:
  assumes base: "base_inv s" and act: "op_keep g n i s = Some s'"
  shows "stop_left s' < stop_left s"
  using act
proof (cases rule: op_keep_cases)
  case (1 r)
  then show ?thesis
    by (intro stop_step [OF base, of i r s' "after_keep r"]) (auto simp: after_keep_def)
next
  case (2 r b m)
  then show ?thesis
    by (intro stop_step [OF base, of i r s' "if b then r\<lparr>gr_pc := G_notify\<rparr> else after_keep r"])
      (auto simp: after_keep_def mark_invalid_tasks)
qed

lemma stop_plan_next:
  assumes base: "base_inv s" and act: "op_plan_next s = Some s'"
  shows "stop_left s' < stop_left s"
  using act
proof (cases rule: op_plan_next_cases)
  case (skip th t ts)
  then show ?thesis by (intro stop_same) (simp_all add: stop_rest_def)
next
  case (stop th t ts)
  moreover have "t \<in> tasks_of (ts_exec s)" using base stop by (simp add: base_inv_def)
  ultimately show ?thesis by (intro stop_same) (simp_all add: stop_rest_def)
next
  case (done_run i r)
  with base have "gr_pc r = G_plan" by (auto dest: holder_run)
  with done_run show ?thesis
    by (intro stop_run [OF base, of i r s' "r\<lparr>gr_pc := G_pass\<rparr>"]) (simp_all add: stop_rest_def)
next
  case done_loop
  with base have "e_loop s = L_plan" by (simp add: base_inv_def thread_plans_def)
  with done_loop show ?thesis by (intro stop_same) (simp_all add: stop_rest_def)
qed

lemma stop_visit:
  assumes base: "base_inv s" and act: "op_visit s = Some s'"
  shows "stop_left s' < stop_left s"
  using act
proof (cases rule: op_visit_cases)
  case (run th t ts)
  let ?T = "card (tasks_of (ts_exec s))"
  have t: "t \<in> tasks_of (ts_exec s)" using base run by (simp add: base_inv_def)
  have "stop_rest ?T s' + (4 * ?T + 18) = stop_rest ?T s"
    using run by (cases th) (simp_all add: stop_rest_def)
  with run t show ?thesis by (simp add: stop_left_def Let_def runs_weight_new)
next
  case (pass th t ts)
  then show ?thesis by (intro stop_same) (cases th; simp add: stop_rest_def)+
next
  case (done_run i r)
  with base have "gr_pc r = G_lock" by (auto dest: holder_run)
  with done_run show ?thesis
    by (intro stop_run [OF base, of i r s' "r\<lparr>gr_pc := G_return\<rparr>"]) (simp_all add: stop_rest_def)
next
  case done_pass
  then show ?thesis by (intro stop_same) (simp_all add: stop_rest_def)
qed

lemma stop_action:
  assumes base: "base_inv s" and root: "root_done s" and fin: "finite (tasks_of (ts_exec s))"
    and pa: "plain_action a" and act: "do_action g a s = Some s'"
  shows "stop_left s' < stop_left s"
proof -
  note step = stop_step [OF base]
  have short: "length (filter P ord) \<le> card (tasks_of (ts_exec s))" if "is_order ord (ts_exec s)"
    for P ord using length_filter_le [of P ord] is_order_length [OF that] by simp
  show ?thesis
  proof (cases a)
    case (A_start i)
    with act show ?thesis by (auto simp: op_start_def at_pc_Some intro!: step)
  next
    case (A_body i e)
    with act show ?thesis by (auto simp: op_body_def at_pc_Some split: if_splits intro!: step)
  next
    case (A_check i)
    with act show ?thesis by (auto simp: op_check_def at_pc_Some intro!: step)
  next
    case (A_write i)
    then have "op_write i s = Some s'" using act by simp
    then show ?thesis
      by (cases rule: op_write_cases)
        (use base in \<open>auto simp: base_inv_def runs_okD intro!: step\<close>)
  next
    case (A_publish i)
    with act show ?thesis by (auto simp: op_publish_def at_pc_Some intro!: step)
  next
    case (A_send i)
    then have "op_send i s = Some s'" using act by simp
    then show ?thesis
      by (cases rule: op_send_cases)
        (use base in \<open>auto simp: base_inv_def runs_okD intro!: step\<close>)
  next
    case (A_keep n i)
    with act show ?thesis by (auto intro: stop_keep [OF base])
  next
    case (A_notify i)
    with act show ?thesis
      by (auto simp: op_notify_def at_pc_Some after_keep_def stop_rest_def split: if_splits
          intro!: stop_run [OF base])
  next
    case (A_pass_test i)
    with act root show ?thesis by (auto simp: op_pass_test_def at_pc_Some intro!: step)
  next
    case (A_return i)
    with act obtain r where r: "e_runs s i = Some r" "gr_pc r = G_return"
      and s': "e_runs s' = (e_runs s)(i := None)" "ts_exec s' = ts_exec s"
        "e_next_run s' = e_next_run s" "stop_rest T s' = stop_rest T s" for T
      by (auto simp: op_return_def at_pc_Some stop_rest_def)
    have "i < e_next_run s" using base r by (simp add: base_inv_def runs_okD)
    from runs_weight_del [where R = "e_runs s", OF this r(1),
        of "stop_weight (card (tasks_of (ts_exec s)))"] r(2) s'
    show ?thesis by (simp add: stop_left_def Let_def)
  next
    case (A_plan_run i ord)
    with act short [of ord "plan_selects (ts_exec s)"] show ?thesis
      by (auto simp: ordered_Some op_plan_run_def at_pc_Some begin_plan_Some stop_rest_def
          intro!: stop_same)
  next
    case (A_plan_loop ord)
    with act short [of ord "plan_selects (ts_exec s)"] show ?thesis
      by (auto simp: ordered_Some op_plan_loop_def begin_plan_Some stop_rest_def
          split: if_splits intro!: stop_same)
  next
    case A_plan_next
    with act show ?thesis by (auto intro: stop_plan_next [OF base])
  next
    case A_plan_wait
    then have "op_plan_wait s = Some s'" using act by simp
    then show ?thesis
      by (cases rule: op_plan_wait_cases)
        (use base in \<open>auto simp: base_inv_def stop_rest_def intro!: stop_same\<close>)
  next
    case A_test_pass
    with act root show ?thesis
      by (auto simp: op_test_pass_def stop_rest_def split: nat.splits intro!: stop_same)
  next
    case (A_lock_pass ord)
    with act show ?thesis
      by (auto simp: ordered_Some op_lock_pass_def stop_rest_def is_order_length
          split: nat.splits if_splits intro!: stop_same)
  next
    case (A_lock_run i ord)
    with act show ?thesis
      by (auto simp: ordered_Some op_lock_run_def at_pc_Some stop_rest_def is_order_length
          split: if_splits intro!: stop_same)
  next
    case A_visit
    with act show ?thesis by (auto intro: stop_visit [OF base])
  next
    case A_notify_ch
    with act show ?thesis
      by (auto simp: op_notify_ch_def stop_rest_def split: nat.splits if_splits intro!: stop_same)
  next
    case A_loop_recv
    with act show ?thesis
      by (auto simp: op_loop_recv_def stop_rest_def split: if_splits intro!: stop_same)
  next
    case A_loop_timer
    with act show ?thesis
      by (auto simp: op_loop_timer_def stop_rest_def split: if_splits intro!: stop_same)
  next
    case A_loop_exit
    with act show ?thesis
      by (auto simp: op_loop_exit_def stop_rest_def split: if_splits intro!: stop_same)
  qed (use pa in \<open>simp_all add: plain_action_def\<close>)
qed

section \<open>What the holder of the lock has left to do\<close>

definition queue_inv :: "executor \<Rightarrow> bool" where
  "queue_inv s \<longleftrightarrow> (case e_mu s of None \<Rightarrow> True | Some (Planning th ts w) \<Rightarrow> distinct ts
     | Some (Passing th ts) \<Rightarrow> distinct ts)"

lemma queue_same: "queue_inv s \<Longrightarrow> e_mu s' = e_mu s \<or> e_mu s' = None \<Longrightarrow> queue_inv s'"
  by (auto simp: queue_inv_def)

lemma queue_action:
  assumes inv: "queue_inv s" and act: "do_action g a s = Some s'"
  shows "queue_inv s'"
proof -
  note same = queue_same [OF inv]
  have order: "distinct ord" if "is_order ord (ts_exec s)" for ord
    using that by (simp add: is_order_def)
  show ?thesis
  proof (cases a)
    case (A_write i)
    then have "op_write i s = Some s'" using act by simp
    then show ?thesis by (cases rule: op_write_cases) (auto intro!: same)
  next
    case (A_keep n i)
    then have "op_keep g n i s = Some s'" using act by simp
    then show ?thesis by (cases rule: op_keep_cases) (auto intro!: same)
  next
    case (A_return i)
    with act show ?thesis by (auto simp: op_return_def at_pc_Some intro!: same)
  next
    case (A_plan_run i ord)
    with act order show ?thesis
      by (auto simp: ordered_Some op_plan_run_def at_pc_Some begin_plan_Some queue_inv_def)
  next
    case (A_plan_loop ord)
    with act order show ?thesis
      by (auto simp: ordered_Some op_plan_loop_def begin_plan_Some queue_inv_def split: if_splits)
  next
    case A_plan_next
    then have "op_plan_next s = Some s'" using act by simp
    then show ?thesis using inv by (cases rule: op_plan_next_cases) (auto simp: queue_inv_def)
  next
    case A_plan_wait
    then have "op_plan_wait s = Some s'" using act by simp
    then show ?thesis using inv by (cases rule: op_plan_wait_cases) (auto simp: queue_inv_def)
  next
    case (A_lock_pass ord)
    with act order show ?thesis
      by (auto simp: ordered_Some op_lock_pass_def queue_inv_def split: nat.splits if_splits)
  next
    case (A_lock_run i ord)
    with act order show ?thesis
      by (auto simp: ordered_Some op_lock_run_def at_pc_Some queue_inv_def split: if_splits)
  next
    case A_visit
    then have "op_visit s = Some s'" using act by simp
    then show ?thesis using inv by (cases rule: op_visit_cases) (auto simp: queue_inv_def)
  next
    case (A_invalidate n t ev)
    with act have "op_invalidate g n t ev s = Some s'" by simp
    then show ?thesis by (cases rule: op_invalidate_cases) (auto intro!: same)
  qed (use act in \<open>auto simp: at_pc_Some op_start_def op_body_def op_check_def op_publish_def
      op_send_def op_notify_def op_pass_test_def op_test_pass_def op_notify_ch_def op_loop_recv_def
      op_loop_timer_def op_loop_exit_def op_shutdown_def split: if_splits nat.splits
      intro!: same\<close>)
qed

interpretation queue: invariant "starts g" "exec_step g" "\<lambda>s. True" queue_inv for g
proof unfold_locales
  show "queue_inv s" if "starts g s" for s using that by (auto simp: starts_def queue_inv_def)
  show "queue_inv s'" if "queue_inv s" "exec_step g s s'" for s s'
    using that by (auto elim!: exec_stepE intro: queue_action)
qed simp

section \<open>The bound\<close>

lemma root_done_stays:
  assumes "effect g s s'" and "root_done s"
  shows "root_done s'"
  using assms
  by (cases rule: effect.cases) (auto simp: root_done_def ctx_err_def dest!: same_coreD)

text \<open>What happens from outside adds at most one sender.\<close>

lemma stop_outside:
  assumes "do_action g a s = Some s'" and "\<not> plain_action a"
  shows "stop_left s' \<le> stop_left s + (2 * card (tasks_of (ts_exec s)) + 6)"
proof (cases a)
  case (A_invalidate n t ev)
  with assms have "op_invalidate g n t ev s = Some s'" by simp
  then show ?thesis
    by (cases rule: op_invalidate_cases)
      (auto simp: stop_left_def stop_rest_def Let_def mark_invalid_tasks)
next
  case A_shutdown
  with assms show ?thesis by (auto simp: op_shutdown_def stop_left_def stop_rest_def)
qed (use assms in \<open>simp_all add: plain_action_def\<close>)

lemma stop_actions:
  assumes "reachable g s" and "root_done s" and "do_actions g as s = Some s'"
  shows "length (filter plain_action as) + stop_left s' \<le> stop_left s +
    (2 * card (tasks_of (ts_exec s)) + 6) * length (filter (\<lambda>a. \<not> plain_action a) as)"
  using assms
proof (induction as arbitrary: s)
  case Nil
  then show ?case by simp
next
  case (Cons a as)
  from Cons.prems(3) obtain u where u: "do_action g a s = Some u" "do_actions g as u = Some s'"
    by (auto split: option.splits)
  have inv: "exec_inv g s" using Cons.prems(1) by (rule machine.inv_reachable)
  have eff: "effect g s u" using do_action_effect [OF exec_invD(1) [OF inv] u(1)] .
  have "reachable g u" using Cons.prems(1) u(1) by (blast intro: reachable_by.step exec_step.act)
  moreover have "root_done u" using eff Cons.prems(2) by (rule root_done_stays)
  ultimately have IH: "length (filter plain_action as) + stop_left s' \<le> stop_left u +
      (2 * card (tasks_of (ts_exec s)) + 6) * length (filter (\<lambda>a. \<not> plain_action a) as)"
    using Cons.IH [of u] u(2) effect_same_graph [OF exec_invD(1) [OF inv] eff]
    by (simp add: same_graph_def)
  show ?case
  proof (cases "plain_action a")
    case True
    with stop_action [OF exec_invD(1) [OF inv] Cons.prems(2) reachable_finite [OF Cons.prems(1)] _ u(1)]
    have "stop_left u < stop_left s" by blast
    with IH True show ?thesis by simp
  next
    case False
    with stop_outside [OF u(1)] IH show ?thesis by simp
  qed
qed

text \<open>The measure in terms of what the state holds.\<close>

lemma stop_weight_le: "stop_weight T pc \<le> (4 * T + 18) * (T + 1)"
  by (cases pc) (simp_all add: algebra_simps)

lemma stop_lock_le:
  assumes "queue_inv s" and "base_inv s" and fin: "finite (tasks_of (ts_exec s))"
  shows "stop_lock (card (tasks_of (ts_exec s))) (e_mu s) \<le>
    2 * ((4 * card (tasks_of (ts_exec s)) + 18) * (card (tasks_of (ts_exec s)) + 1))"
proof -
  have len: "length ts \<le> card (tasks_of (ts_exec s))"
    if "distinct ts" "set ts \<subseteq> tasks_of (ts_exec s)" for ts
    using card_mono [OF fin that(2)] that(1) by (simp add: distinct_card)
  show ?thesis
  proof (cases "e_mu s")
    case None
    then show ?thesis by (simp add: algebra_simps)
  next
    case (Some h)
    show ?thesis
    proof (cases h)
      case (Planning th ts w)
      with Some assms len [of ts] show ?thesis
        by (simp add: queue_inv_def base_inv_def algebra_simps)
    next
      case (Passing th ts)
      with Some assms len [of ts] have "length ts \<le> card (tasks_of (ts_exec s))"
        by (simp add: queue_inv_def base_inv_def)
      then have "(4 * card (tasks_of (ts_exec s)) + 18) * length ts \<le>
          (4 * card (tasks_of (ts_exec s)) + 18) * card (tasks_of (ts_exec s))" by simp
      with Some Passing show ?thesis by (cases th) (simp_all add: algebra_simps)
    qed
  qed
qed

lemma stop_left_le:
  assumes "reachable g s"
  defines "T \<equiv> card (tasks_of (ts_exec s))"
  shows "stop_left s \<le> (4 * T + 18) * (T + 1) * (card (dom (e_runs s)) + e_locks s + 3) +
    (2 * T + 6) * e_senders s + e_passes s"
proof -
  have base: "base_inv s" using machine.inv_reachable [OF assms(1)] by (rule exec_invD)
  let ?B = "(4 * T + 18) * (T + 1)"
  have "runs_weight (stop_weight T) (e_runs s) (e_next_run s) \<le> ?B * card (dom (e_runs s))"
    using base by (intro runs_weight_le stop_weight_le) (auto simp: base_inv_def runs_okD)
  moreover have "stop_lock T (e_mu s) \<le> 2 * ?B"
    unfolding T_def
    by (rule stop_lock_le [OF queue.inv_reachable [OF assms(1)] base reachable_finite [OF assms(1)]])
  moreover have "stop_loop T (e_loop s) \<le> 2 * T + 4" by (cases "e_loop s") simp_all
  moreover have "((4 * T + 18) * T + 2) * e_locks s \<le> ?B * e_locks s"
    by (intro mult_right_mono) (simp_all add: algebra_simps)
  moreover have "6 * T + 13 \<le> ?B" by (simp add: algebra_simps)
  ultimately show ?thesis
    by (auto simp: stop_left_def Let_def stop_rest_def T_def [symmetric] algebra_simps)
qed

text \<open>
  C17. A shutdown comes to an end: once taskrunner has been told to stop, the executor takes
  a bounded number of steps of its own, whatever the interleaving and whichever tasks fail.
  With \<open>T\<close> tasks, \<open>R\<close> goroutines, \<open>L\<close> calls of \<open>runPass\<close> that have passed its test, \<open>S\<close> pending sends to
  the invalidation channel and \<open>P\<close> calls of \<open>runPass\<close> that have yet to test the context, the number is
  at most \<open>(4 T + 18) (T + 1) (R + L + 3) + (2 T + 6) (S + I) + P\<close>, where \<open>I\<close> counts the
  calls from outside that come after the shutdown.
\<close>

theorem shutdown_winds_down:
  assumes "reachable g s0" and "root_done s0" and "do_actions g as s0 = Some s"
    and "T = card (dom (ts_exec s0))" and "R = card (dom (e_runs s0))"
  shows "length (filter plain_action as) \<le> (4 * T + 18) * (T + 1) * (R + e_locks s0 + 3) +
    (2 * T + 6) * (e_senders s0 + length (filter (\<lambda>a. \<not> plain_action a) as)) + e_passes s0"
  using stop_actions [OF assms(1-3)] stop_left_le [OF assms(1)] assms(4,5)
  by (simp add: tasks_of_def algebra_simps)

definition early_stop :: "action list" where
  "early_stop = first_pass @ [A_start 0, A_shutdown]"

definition winding_down :: "action list" where
  "winding_down = [A_body 0 None, A_check 0, A_write 0, A_publish 0, A_send 0, A_keep 0 0,
     A_plan_run 0 [0, 1], A_plan_next, A_pass_test 0, A_return 0, A_loop_exit]"

lemma early_stop_eval:
  "\<exists>s0 s. do_actions pair early_stop pair_start = Some s0 \<and> root_done s0 \<and>
     dom (ts_exec s0) = {0, 1} \<and> dom (e_runs s0) = {0} \<and> e_locks s0 = 0 \<and> e_senders s0 = 0 \<and>
     e_passes s0 = 0 \<and> do_actions pair winding_down s0 = Some s \<and> idle s \<and>
     ex_state (node s 0) = St_canceled"
  by (simp add: machine_eval early_stop_def winding_down_def idle_def fun_eq_iff)

theorem shutdown_winds_down_witness:
  "length winding_down = 11 \<and> length (filter plain_action winding_down) \<le> 312"
proof -
  from early_stop_eval obtain s0 s where s0: "do_actions pair early_stop pair_start = Some s0"
    "root_done s0" "do_actions pair winding_down s0 = Some s"
    and d: "dom (ts_exec s0) = {0, 1}" "dom (e_runs s0) = {0}"
      "e_locks s0 = 0" "e_senders s0 = 0" "e_passes s0 = 0"
    by blast
  have "2 = card (dom (ts_exec s0))" "1 = card (dom (e_runs s0))" using d by simp_all
  from shutdown_winds_down [OF pair_reachable [OF s0(1)] s0(2,3) this] d
  show ?thesis by (simp add: winding_down_def plain_action_def)
qed

text \<open>
  Without long-lived tasks, and if no plan cancels a run in one of the two windows, the steps
  lead to a state in which no run, pass or plan is left.
\<close>

lemma calm_progress:
  assumes calm: "reachable_by (starts g) (calm_step g) s" and "short_lived g" and "\<not> idle s"
  shows "\<exists>s'. plain_step g s s'"
proof (rule progress [OF calm_reachable [OF calm] assms(3)])
  show "\<not> stuck s t" for t
    using calm_invD(1) [OF calm.inv_reachable [OF calm], of t] by (auto simp: stuck_def heard_def)
  show "\<not> hung s i" for i
    using notify.inv_reachable [OF calm_reachable [OF calm]] assms(2)
    by (auto simp: hung_def notify_inv_def short_lived_def)
qed

end
