(* ===== verification/Delivery.thy ===== *)
theory Delivery
  imports ExecutorStuck
begin

text \<open>
  The delivery of events. \<open>Executor\<close> lists the events in the order in which they are published;
  here a publication is what the code makes of it: one send after the other to the channels of
  the subscribers, each of which waits for room and panics on a closed channel. A goroutine
  whose sends are pending takes no other step. \<open>Run\<close> closes the channels when its own pass and
  all goroutines of the errgroup are over, those of the tasks and, in watch mode, the watcher's.
\<close>

section \<open>State\<close>

datatype sent = Sent_event event_kind tid | Sent_log tid

text \<open>
  \<open>d_chs\<close> has what the channels hold, \<open>d_out\<close> the sends that a goroutine has still to make, each
  to the channel of an index. \<open>d_main\<close>: the pass of \<open>Run\<close> itself is over. All goroutines that only
  call \<open>runPass\<close> are alike, so the first of them to return is taken for the one of \<open>Run\<close>.
  \<open>d_watch\<close>: the watcher runs.
\<close>

record delivery =
  d_exec :: executor
  d_chs :: "sent list list"
  d_out :: "thread \<Rightarrow> (nat \<times> sent) list"
  d_main :: bool
  d_watch :: bool
  d_closed :: bool
  d_panicked :: bool

text \<open>\<open>Subscribe\<close>, once for each of \<open>n\<close> subscribers, before the executor runs.\<close>

definition subscribed :: "nat \<Rightarrow> bool \<Rightarrow> executor \<Rightarrow> delivery" where
  "subscribed n watch s = \<lparr>d_exec = s, d_chs = replicate n [], d_out = (\<lambda>_. []), d_main = False,
     d_watch = watch, d_closed = False, d_panicked = False\<rparr>"

definition event_capacity :: nat where
  "event_capacity = 1024"

section \<open>Steps\<close>

text \<open>The loop of \<open>publishEvent\<close>, as the sends it makes.\<close>

definition publish_sends :: "nat \<Rightarrow> sent list \<Rightarrow> (nat \<times> sent) list" where
  "publish_sends n evs = concat (map (\<lambda>ev. map (\<lambda>k. (k, ev)) [0..<n]) evs)"

text \<open>The goroutine that takes a step of the executor; a call from outside has none of these.\<close>

definition holder_thread :: "holder \<Rightarrow> thread" where
  "holder_thread h = (case h of Planning th _ _ \<Rightarrow> th | Passing th _ \<Rightarrow> th)"

fun actor :: "action \<Rightarrow> executor \<Rightarrow> thread option" where
  "actor (A_start i) s = Some (Th_run i)"
| "actor (A_body i err) s = Some (Th_run i)"
| "actor (A_check i) s = Some (Th_run i)"
| "actor (A_write i) s = Some (Th_run i)"
| "actor (A_publish i) s = Some (Th_run i)"
| "actor (A_send i) s = Some (Th_run i)"
| "actor (A_keep n i) s = Some (Th_run i)"
| "actor (A_notify i) s = Some (Th_run i)"
| "actor (A_pass_test i) s = Some (Th_run i)"
| "actor (A_return i) s = Some (Th_run i)"
| "actor (A_plan_run i ord) s = Some (Th_run i)"
| "actor (A_lock_run i ord) s = Some (Th_run i)"
| "actor (A_plan_loop ord) s = Some Th_loop"
| "actor A_loop_recv s = Some Th_loop"
| "actor A_loop_timer s = Some Th_loop"
| "actor A_loop_exit s = Some Th_loop"
| "actor A_plan_next s = map_option holder_thread (e_mu s)"
| "actor A_plan_wait s = map_option holder_thread (e_mu s)"
| "actor A_visit s = map_option holder_thread (e_mu s)"
| "actor A_test_pass s = None"
| "actor (A_lock_pass ord) s = None"
| "actor (A_invalidate n t ev) s = None"
| "actor A_notify_ch s = None"
| "actor A_shutdown s = None"

definition free_actor :: "action \<Rightarrow> delivery \<Rightarrow> bool" where
  "free_actor a s \<longleftrightarrow> (case actor a (d_exec s) of None \<Rightarrow> True | Some th \<Rightarrow> d_out s th = [])"

definition published :: "executor \<Rightarrow> executor \<Rightarrow> sent list" where
  "published s s' = map (\<lambda>(k, t). Sent_event k t) (drop (length (e_events s)) (e_events s'))"

text \<open>The pass of \<open>Run\<close> returns: at the test of \<open>e.ctx\<close>, or after its last round.\<close>

definition pass_returns :: "action \<Rightarrow> executor \<Rightarrow> bool" where
  "pass_returns a s \<longleftrightarrow> a = A_test_pass \<and> root_done s \<or> a = A_visit \<and> e_mu s = Some (Passing Th_pass [])"

text \<open>A step of the executor, by a goroutine that has nothing left to send.\<close>

definition deliver_act :: "(tid \<Rightarrow> 'w task) \<Rightarrow> action \<Rightarrow> delivery \<Rightarrow> delivery option" where
  "deliver_act g a s =
     (if \<not> free_actor a s then None
      else (case do_action g a (d_exec s) of
              None \<Rightarrow> None
            | Some e \<Rightarrow> Some (s\<lparr>d_exec := e,
                d_out := (case actor a (d_exec s) of None \<Rightarrow> d_out s
                  | Some th \<Rightarrow> (d_out s)(th := publish_sends (length (d_chs s)) (published (d_exec s) e))),
                d_main := d_main s \<or> pass_returns a (d_exec s)\<rparr>)))"

text \<open>A task's body writes to its logger.\<close>

definition deliver_log :: "nat \<Rightarrow> delivery \<Rightarrow> delivery option" where
  "deliver_log i s =
     (case e_runs (d_exec s) i of
        None \<Rightarrow> None
      | Some r \<Rightarrow>
          if gr_pc r = G_body \<and> d_out s (Th_run i) = []
          then Some (s\<lparr>d_out := (d_out s)(Th_run i :=
                 publish_sends (length (d_chs s)) [Sent_log (gr_task r)])\<rparr>)
          else None)"

text \<open>One send of \<open>publishEvent\<close>: it waits while the channel is full.\<close>

definition deliver_send :: "thread \<Rightarrow> delivery \<Rightarrow> delivery option" where
  "deliver_send th s =
     (case d_out s th of
        [] \<Rightarrow> None
      | (k, ev) # rest \<Rightarrow>
          if d_closed s then Some (s\<lparr>d_panicked := True\<rparr>)
          else if event_capacity \<le> length (d_chs s ! k) then None
          else Some (s\<lparr>d_out := (d_out s)(th := rest),
                 d_chs := (d_chs s)[k := (d_chs s ! k) @ [ev]]\<rparr>))"

text \<open>The subscriber \<open>k\<close> receives an event.\<close>

definition deliver_recv :: "nat \<Rightarrow> delivery \<Rightarrow> delivery option" where
  "deliver_recv k s =
     (if k < length (d_chs s) \<and> d_chs s ! k \<noteq> []
      then Some (s\<lparr>d_chs := (d_chs s)[k := tl (d_chs s ! k)]\<rparr>) else None)"

text \<open>The watcher ends, with or without an error.\<close>

definition deliver_unwatch :: "delivery \<Rightarrow> delivery option" where
  "deliver_unwatch s = (if d_watch s then Some (s\<lparr>d_watch := False\<rparr>) else None)"

text \<open>\<open>Run\<close> returns, and its deferred function closes the channels.\<close>

definition deliver_close :: "delivery \<Rightarrow> delivery option" where
  "deliver_close s =
     (if d_main s \<and> e_runs (d_exec s) = Map.empty \<and> \<not> d_watch s \<and> \<not> d_closed s
      then Some (s\<lparr>d_closed := True\<rparr>) else None)"

datatype delivery_action =
  D_act action | D_log nat | D_send thread | D_recv nat | D_unwatch | D_close

fun deliver :: "(tid \<Rightarrow> 'w task) \<Rightarrow> delivery_action \<Rightarrow> delivery \<Rightarrow> delivery option" where
  "deliver g (D_act a) s = deliver_act g a s"
| "deliver g (D_log i) s = deliver_log i s"
| "deliver g (D_send th) s = deliver_send th s"
| "deliver g (D_recv k) s = deliver_recv k s"
| "deliver g D_unwatch s = deliver_unwatch s"
| "deliver g D_close s = deliver_close s"

text \<open>A panic in a goroutine ends the program.\<close>

inductive delivery_step ::
  "(tid \<Rightarrow> 'w task) \<Rightarrow> (delivery_action \<Rightarrow> bool) \<Rightarrow> delivery \<Rightarrow> delivery \<Rightarrow> bool" for g allowed where
  "\<not> d_panicked s \<Longrightarrow> allowed a \<Longrightarrow> deliver g a s = Some s' \<Longrightarrow> delivery_step g allowed s s'"

inductive_cases delivery_stepE: "delivery_step g allowed s s'"

definition delivery_starts :: "(tid \<Rightarrow> 'w task) \<Rightarrow> delivery \<Rightarrow> bool" where
  "delivery_starts g s \<longleftrightarrow> (\<exists>n watch e. starts g e \<and> s = subscribed n watch e)"

abbreviation delivery_reachable :: "(tid \<Rightarrow> 'w task) \<Rightarrow> delivery \<Rightarrow> bool" where
  "delivery_reachable g \<equiv> reachable_by (delivery_starts g) (delivery_step g (\<lambda>_. True))"

lemma deliver_actD:
  assumes "deliver_act g a s = Some s'"
  shows "free_actor a s" "do_action g a (d_exec s) = Some (d_exec s')" "d_chs s' = d_chs s"
    "d_closed s' = d_closed s" "d_panicked s' = d_panicked s"
    "actor a (d_exec s) \<noteq> Some th \<Longrightarrow> d_out s' th = d_out s th"
  using assms by (auto simp: deliver_act_def split: if_splits option.splits)

lemma deliver_exec:
  assumes "deliver g a s = Some s'"
  shows "d_exec s' = d_exec s \<or> (\<exists>b. a = D_act b \<and> do_action g b (d_exec s) = Some (d_exec s'))"
  using assms deliver_actD(2)
  by (cases a) (auto simp: deliver_log_def deliver_send_def deliver_recv_def deliver_unwatch_def
      deliver_close_def split: option.splits if_splits list.splits)

text \<open>The executor of the delivery does what the executor does.\<close>

interpretation delivers: refinement "delivery_starts g" "delivery_step g (\<lambda>_. True)" d_exec
  "starts g" "exec_step g" for g
proof unfold_locales
  show "starts g (d_exec s)" if "delivery_starts g s" for s
    using that by (auto simp: delivery_starts_def subscribed_def)
  show "d_exec s' = d_exec s \<or> exec_step g (d_exec s) (d_exec s')" if "delivery_step g (\<lambda>_. True) s s'" for s s'
    using that by (auto elim!: delivery_stepE dest!: deliver_exec intro: exec_step.act)
qed

section \<open>Progress\<close>

definition own_delivery :: "delivery_action \<Rightarrow> bool" where
  "own_delivery a \<longleftrightarrow> (case a of D_act b \<Rightarrow> plain_action b | D_send _ \<Rightarrow> True | _ \<Rightarrow> False)"

lemma send_possible:
  assumes "d_out s th \<noteq> []" and "\<not> d_panicked s"
  shows "(\<exists>s'. delivery_step g own_delivery s s') \<or>
    (\<exists>ev rest k. d_out s th = (k, ev) # rest \<and> \<not> d_closed s \<and> event_capacity \<le> length (d_chs s ! k))"
proof -
  obtain k ev rest where out: "d_out s th = (k, ev) # rest" using assms(1) by (cases "d_out s th") auto
  show ?thesis
  proof (cases "deliver_send th s")
    case None
    with out show ?thesis by (auto simp: deliver_send_def split: if_splits)
  next
    case (Some s')
    then have "delivery_step g own_delivery s s'"
      using assms(2) by (intro delivery_step.intros [of _ _ "D_send th"]) (simp_all add: own_delivery_def)
    then show ?thesis by blast
  qed
qed

text \<open>
  C15. What the executor can be blocked by. In every state it reaches, whatever has been
  invalidated and whether or not taskrunner is shutting down, as long as a run, a pass or a
  plan is under way or an event is being sent, some goroutine has a next step of its own, one
  that needs no change of a file, no shutdown, no task that writes and no subscriber that
  reads. There are three exceptions: a plan waits for a task that has no run to report an exit
  and no message left in its channel; the goroutine of a long-lived task sends to the full
  invalidation channel when the invalidation loop has returned; or a goroutine sends an
  event to a subscriber whose channel holds 1024 events.
\<close>

theorem executor_blocks_thrice:
  assumes "delivery_reachable g s" and "\<not> d_panicked s"
    and "\<not> idle (d_exec s) \<or> (\<exists>th. d_out s th \<noteq> [])"
  shows "(\<exists>s'. delivery_step g own_delivery s s') \<or>
    (\<exists>t. waiting (d_exec s) t \<and> ex_terminal (exec_of (ts_exec (d_exec s)) t) = 0 \<and>
       (\<nexists>i r. e_runs (d_exec s) i = Some r \<and> gr_task r = t \<and> unsent r)) \<or>
    (\<exists>i r. e_runs (d_exec s) i = Some r \<and> gr_pc r = G_notify \<and> t_keep_alive (g (gr_task r)) \<and>
       e_inv_ch (d_exec s) \<and> e_loop (d_exec s) = L_exited) \<or>
    (\<exists>th k ev rest. d_out s th = (k, ev) # rest \<and> \<not> d_closed s \<and> 1024 \<le> length (d_chs s ! k))"
proof (cases "\<exists>th. d_out s th \<noteq> []")
  case True
  then obtain th where "d_out s th \<noteq> []" by blast
  from send_possible [OF this assms(2), of g] show ?thesis unfolding event_capacity_def by blast
next
  case False
  then have free: "free_actor a s" for a by (simp add: free_actor_def split: option.split)
  have "delivery_step g own_delivery s s'"
    if a: "plain_action a" "deliver_act g a s = Some s'" for a s'
    using that assms(2) by (intro delivery_step.intros [of _ _ "D_act a"]) (simp_all add: own_delivery_def)
  then have "\<exists>s'. delivery_step g own_delivery s s'" if "plain_step g (d_exec s) e" for e
    using that free by (fastforce simp: plain_step_def deliver_act_def)
  with executor_blocks_only_twice [OF delivers.abs_reachable [OF assms(1)]] assms(3) False
  show ?thesis by blast
qed


section \<open>Sequences of steps\<close>

fun deliver_all :: "(tid \<Rightarrow> 'w task) \<Rightarrow> delivery_action list \<Rightarrow> delivery \<Rightarrow> delivery option" where
  "deliver_all g [] s = Some s"
| "deliver_all g (a # as) s =
     (if d_panicked s then None
      else (case deliver g a s of None \<Rightarrow> None | Some s' \<Rightarrow> deliver_all g as s'))"

lemma deliver_all_reachable:
  "deliver_all g as s = Some s' \<Longrightarrow> delivery_reachable g s \<Longrightarrow> delivery_reachable g s'"
proof (induction as arbitrary: s)
  case Nil
  then show ?case by simp
next
  case (Cons a as)
  then obtain s1 where "\<not> d_panicked s" "deliver g a s = Some s1" "deliver_all g as s1 = Some s'"
    by (auto split: option.splits if_splits)
  with Cons show ?case by (blast intro: reachable_by.step delivery_step.intros)
qed

lemmas delivery_eval =
  deliver_act_def deliver_send_def deliver_close_def free_actor_def published_def pass_returns_def
  publish_sends_def holder_thread_def subscribed_def event_capacity_def

lemma pair_delivery_starts: "delivery_reachable pair (subscribed n watch pair_start)"
  by (rule reachable_by.initial) (use pair_starts in \<open>auto simp: delivery_starts_def\<close>)

lemma first_event_eval:
  "\<exists>s. deliver_all pair (map D_act (first_pass @ [A_start 0])) (subscribed 1 False pair_start) = Some s \<and>
     d_out s = (\<lambda>_. [])(Th_run 0 := [(0, Sent_event Ev_started 0)]) \<and> d_chs s = [[]] \<and>
     \<not> d_panicked s \<and> e_mu (d_exec s) = None \<and> e_loop (d_exec s) = L_idle"
  by (simp add: machine_eval delivery_eval fun_eq_iff)

theorem executor_blocks_thrice_witness:
  "\<exists>s s'. delivery_reachable pair s \<and> d_out s (Th_run 0) \<noteq> [] \<and> delivery_step pair own_delivery s s'"
proof -
  obtain s where run: "deliver_all pair (map D_act (first_pass @ [A_start 0])) (subscribed 1 False pair_start) = Some s"
    and s: "d_out s = (\<lambda>_. [])(Th_run 0 := [(0, Sent_event Ev_started 0)])" "d_chs s = [[]]"
      "\<not> d_panicked s" "e_mu (d_exec s) = None" "e_loop (d_exec s) = L_idle"
    using first_event_eval by blast
  have reach: "delivery_reachable pair s"
    using deliver_all_reachable [OF run pair_delivery_starts] .
  have "\<not> waiting (d_exec s) t" for t using s(4) by (simp add: waiting_def)
  moreover have "length (d_chs s ! k) = 0" if "d_out s th = (k, ev) # rest" for th k ev rest
    using that s(1,2) by (simp split: if_splits)
  moreover have "d_out s (Th_run 0) \<noteq> []" using s(1) by simp
  ultimately show ?thesis
    using executor_blocks_thrice [OF reach s(3)] s(5) reach by fastforce
qed

section \<open>A subscriber that does not read\<close>

lemma holder_keeps:
  assumes act: "do_action g a s = Some s'" and mu: "e_mu s = Some h"
    and other: "actor a s \<noteq> Some (holder_thread h)"
  shows "e_mu s' = Some h \<and> e_next_run s' = e_next_run s"
proof (cases a)
  case (A_write i)
  then have "op_write i s = Some s'" using act by simp
  then show ?thesis using mu by (cases rule: op_write_cases) (auto simp: set_state_def)
next
  case (A_send i)
  then have "op_send i s = Some s'" using act by simp
  then show ?thesis using mu by (cases rule: op_send_cases) auto
next
  case (A_keep n i)
  then have "op_keep g n i s = Some s'" using act by simp
  then show ?thesis using mu by (cases rule: op_keep_cases) auto
next
  case (A_invalidate n t ev)
  with act have "op_invalidate g n t ev s = Some s'" by simp
  then show ?thesis using mu by (cases rule: op_invalidate_cases) auto
next
  case A_plan_next
  with mu other show ?thesis by simp
next
  case A_plan_wait
  with mu other show ?thesis by simp
next
  case A_visit
  with mu other show ?thesis by simp
next
  case (A_return i)
  with act mu show ?thesis by (auto simp: op_return_def at_pc_Some)
next
  case (A_check i)
  with act mu show ?thesis by (auto simp: op_check_def at_pc_Some)
next
  case (A_pass_test i)
  with act mu show ?thesis by (auto simp: op_pass_test_def at_pc_Some)
next
  case A_test_pass
  with act mu show ?thesis by (auto simp: op_test_pass_def split: nat.splits if_splits)
qed (use act mu in \<open>auto simp: ordered_Some at_pc_Some op_start_def op_body_def
    op_publish_def publish_def op_notify_def op_plan_run_def op_plan_loop_def
    op_lock_pass_def op_lock_run_def op_notify_ch_def op_loop_recv_def
    op_loop_timer_def op_loop_exit_def op_shutdown_def begin_plan_Some split: if_splits nat.splits\<close>)

definition blocked_by :: "nat \<Rightarrow> holder \<Rightarrow> delivery \<Rightarrow> bool" where
  "blocked_by k h s \<longleftrightarrow> e_mu (d_exec s) = Some h \<and>
     (\<exists>ev rest. d_out s (holder_thread h) = (k, ev) # rest) \<and> event_capacity \<le> length (d_chs s ! k)"

lemma blocked_step:
  assumes "blocked_by k h s" and "delivery_step g (\<lambda>a. a \<noteq> D_recv k) s s'"
  shows "blocked_by k h s' \<and> e_next_run (d_exec s') = e_next_run (d_exec s)"
proof -
  from assms(2) obtain a where a: "a \<noteq> D_recv k" "deliver g a s = Some s'" by (rule delivery_stepE)
  from assms(1) obtain ev rest where b: "e_mu (d_exec s) = Some h"
    "d_out s (holder_thread h) = (k, ev) # rest" "event_capacity \<le> length (d_chs s ! k)"
    by (auto simp: blocked_by_def)
  show ?thesis
  proof (cases a)
    case (D_act x)
    with a have x: "deliver_act g x s = Some s'" by simp
    note d = deliver_actD [OF x]
    have "actor x (d_exec s) \<noteq> Some (holder_thread h)" using d(1) b(2) by (auto simp: free_actor_def)
    with holder_keeps [OF d(2) b(1)] d b show ?thesis by (simp add: blocked_by_def)
  next
    case (D_log i)
    with a b show ?thesis
      by (auto simp: deliver_log_def blocked_by_def split: option.splits if_splits)
  next
    case (D_send th)
    then have "deliver_send th s = Some s'" using a by simp
    then show ?thesis
    proof (cases "d_closed s")
      case False
      with \<open>deliver_send th s = Some s'\<close> obtain j e es where j: "\<not> event_capacity \<le> length (d_chs s ! j)"
        "d_out s th = (j, e) # es" "s' = s\<lparr>d_out := (d_out s)(th := es), d_chs := (d_chs s)[j := (d_chs s ! j) @ [e]]\<rparr>"
        by (cases "d_out s th") (auto simp: deliver_send_def split: if_splits)
      then have "j \<noteq> k" using b(3) by blast
      with j b show ?thesis by (auto simp: blocked_by_def)
    qed (use b in \<open>auto simp: deliver_send_def blocked_by_def split: list.splits\<close>)
  next
    case (D_recv j)
    with a b show ?thesis by (auto simp: deliver_recv_def blocked_by_def split: if_splits)
  next
    case D_unwatch
    with a b show ?thesis by (auto simp: deliver_unwatch_def blocked_by_def split: if_splits)
  next
    case D_close
    with a b show ?thesis by (auto simp: deliver_close_def blocked_by_def split: if_splits)
  qed
qed

text \<open>
  C30. A subscriber that does not read stops the executor. When the goroutine that holds the
  executor's lock, for a plan, has an event to send to a channel that is full, then in every
  continuation in which the subscriber of that channel receives nothing, the lock is never
  released and no task is started any more, whatever else happens: other subscribers read,
  tasks end, files change, taskrunner is told to stop.
\<close>

theorem unread_subscriber_stops_executor:
  assumes "e_mu (d_exec s) = Some h" and "d_out s (holder_thread h) = (k, ev) # rest"
    and "1024 \<le> length (d_chs s ! k)"
    and "(delivery_step g (\<lambda>a. a \<noteq> D_recv k))\<^sup>*\<^sup>* s s'"
  shows "e_mu (d_exec s') = Some h \<and> e_next_run (d_exec s') = e_next_run (d_exec s) \<and>
    d_out s' (holder_thread h) \<noteq> []"
proof -
  have "blocked_by k h s" using assms(1-3) by (simp add: blocked_by_def event_capacity_def)
  with assms(4) have "blocked_by k h s' \<and> e_next_run (d_exec s') = e_next_run (d_exec s)"
    by (induction rule: rtranclp_induct) (auto dest: blocked_step)
  then show ?thesis by (auto simp: blocked_by_def)
qed


text \<open>
  The witness: the run of the first task of the pair writes 1022 lines, which nobody reads. With
  the events of its start and its end the channel is full, and the plan that follows, of a
  change during the run, waits.
\<close>

lemma log_sent:
  assumes "e_runs (d_exec s) i = Some r" and "gr_pc r = G_body" and "d_out s (Th_run i) = []"
    and "\<not> d_closed s" and "\<not> d_panicked s" and "d_chs s = [q]" and "length q < event_capacity"
  shows "deliver_all g (D_log i # D_send (Th_run i) # as) s =
    deliver_all g as (s\<lparr>d_chs := [q @ [Sent_log (gr_task r)]]\<rparr>)"
proof -
  have out: "(d_out s)(Th_run i := []) = d_out s" using assms(3) by (simp add: fun_upd_idem)
  have "deliver_log i s = Some (s\<lparr>d_out := (d_out s)(Th_run i := [(0, Sent_log (gr_task r))])\<rparr>)"
    using assms by (simp add: deliver_log_def publish_sends_def)
  moreover have "deliver_send (Th_run i) (s\<lparr>d_out := (d_out s)(Th_run i := [(0, Sent_log (gr_task r))])\<rparr>) =
      Some (s\<lparr>d_chs := [q @ [Sent_log (gr_task r)]]\<rparr>)"
    using assms out by (simp add: deliver_send_def)
  ultimately show ?thesis using assms(5) by simp
qed

lemma fill_channel:
  assumes "e_runs (d_exec s) i = Some r" and "gr_pc r = G_body" and "d_out s (Th_run i) = []"
    and "\<not> d_closed s" and "\<not> d_panicked s" and "d_chs s = [q]" and "length q + n \<le> event_capacity"
  shows "deliver_all g (concat (replicate n [D_log i, D_send (Th_run i)])) s =
    Some (s\<lparr>d_chs := [q @ replicate n (Sent_log (gr_task r))]\<rparr>)"
  using assms
proof (induction n arbitrary: q s)
  case 0
  then show ?case by simp
next
  case (Suc n)
  from log_sent [OF Suc.prems(1-6), of g] Suc.prems(7) Suc.prems(1-5)
    Suc.IH [of "s\<lparr>d_chs := [q @ [Sent_log (gr_task r)]]\<rparr>" "q @ [Sent_log (gr_task r)]"]
  show ?case by simp
qed

lemma deliver_all_append:
  "deliver_all g (as @ bs) s =
     (case deliver_all g as s of None \<Rightarrow> None | Some s' \<Rightarrow> deliver_all g bs s')"
  by (induction as arbitrary: s) (auto split: option.split)

definition before_lines :: "delivery_action list" where
  "before_lines = map D_act (first_pass @ [A_start 0]) @ [D_send (Th_run 0)]"

definition after_lines :: "delivery_action list" where
  "after_lines = map D_act [A_invalidate (Suc (Suc 0)) 0 changed, A_body 0 None, A_check 0, A_write 0,
     A_publish 0] @ [D_send (Th_run 0)] @
     map D_act [A_send 0, A_keep 0 0, A_plan_run 0 [0, 1]]"

lemma unread_eval:
  "\<exists>s r. deliver_all pair before_lines (subscribed 1 False pair_start) = Some s \<and>
     e_runs (d_exec s) 0 = Some r \<and> gr_pc r = G_body \<and> d_out s (Th_run 0) = [] \<and>
     \<not> d_closed s \<and> \<not> d_panicked s \<and> d_chs s = [[Sent_event Ev_started 0]] \<and>
     (\<forall>q. length q = 1023 \<longrightarrow> (\<exists>s'. deliver_all pair after_lines (s\<lparr>d_chs := [q]\<rparr>) = Some s' \<and>
        e_mu (d_exec s') = Some (Planning (Th_run 0) [0] False) \<and>
        d_out s' (Th_run 0) = [(0, Sent_event Ev_invalidated 0)] \<and> length (d_chs s' ! 0) = 1024))"
  by (simp add: machine_eval delivery_eval before_lines_def after_lines_def changed_def)

theorem unread_subscriber_stops_executor_witness:
  "\<exists>s. delivery_reachable pair s \<and>
     {s'. (delivery_step pair (\<lambda>a. a \<noteq> D_recv 0))\<^sup>*\<^sup>* s s'} \<subseteq>
       {s'. e_mu (d_exec s') = Some (Planning (Th_run 0) [0] False) \<and> d_out s' (Th_run 0) \<noteq> []}"
proof -
  obtain s r where s: "deliver_all pair before_lines (subscribed 1 False pair_start) = Some s"
    "e_runs (d_exec s) 0 = Some r" "gr_pc r = G_body" "d_out s (Th_run 0) = []"
    "\<not> d_closed s" "\<not> d_panicked s" "d_chs s = [[Sent_event Ev_started 0]]"
    and rest: "\<And>q. length q = 1023 \<Longrightarrow> \<exists>s'. deliver_all pair after_lines (s\<lparr>d_chs := [q]\<rparr>) = Some s' \<and>
        e_mu (d_exec s') = Some (Planning (Th_run 0) [0] False) \<and>
        d_out s' (Th_run 0) = [(0, Sent_event Ev_invalidated 0)] \<and> length (d_chs s' ! 0) = 1024"
    using unread_eval by blast
  let ?lines = "concat (replicate 1022 [D_log 0, D_send (Th_run 0)])"
  let ?q = "[Sent_event Ev_started 0] @ replicate 1022 (Sent_log (gr_task r))"
  have fill: "deliver_all pair ?lines s = Some (s\<lparr>d_chs := [?q]\<rparr>)"
    by (rule fill_channel [OF s(2-7)]) (simp add: event_capacity_def)
  have "length ?q = 1023" by simp
  from rest [OF this] obtain s' where s': "deliver_all pair after_lines (s\<lparr>d_chs := [?q]\<rparr>) = Some s'"
    "e_mu (d_exec s') = Some (Planning (Th_run 0) [0] False)"
    "d_out s' (Th_run 0) = [(0, Sent_event Ev_invalidated 0)]" "length (d_chs s' ! 0) = 1024" by blast
  have "delivery_reachable pair s'"
    using deliver_all_reachable [OF s(1) pair_delivery_starts, THEN deliver_all_reachable [OF fill],
        THEN deliver_all_reachable [OF s'(1)]] .
  moreover have out: "d_out s' (holder_thread (Planning (Th_run 0) [0] False)) = [(0, Sent_event Ev_invalidated 0)]"
    using s'(3) by (simp add: holder_thread_def)
  ultimately show ?thesis
    using unread_subscriber_stops_executor [OF s'(2) out, of pair] s'(4)
    by (auto simp: holder_thread_def intro!: exI [of _ s'])
qed

section \<open>A channel that is closed too early\<close>

text \<open>
  All tasks have ended and \<open>Run\<close> closes the channels; but the invalidation loop goes on, and
  its plan for a task that was restarted at that moment publishes an event: a send on a
  closed channel, at which the program panics. Taskrunner is not shutting down.
\<close>

definition closing_run :: "delivery_action list" where
  "closing_run = map D_act (first_pass @ [A_start 0]) @ [D_send (Th_run 0)] @
     map D_act [A_body 0 None, A_check 0, A_write 0, A_publish 0] @ [D_send (Th_run 0)] @
     map D_act [A_send 0, A_keep 0 0, A_plan_run 0 [0, 1], A_plan_next, A_pass_test 0,
       A_lock_run 0 [1, 0], A_visit, A_visit, A_visit, A_return 0, A_start 1] @ [D_send (Th_run 1)] @
     map D_act [A_body 1 None, A_check 1, A_write 1, A_publish 1] @ [D_send (Th_run 1)] @
     map D_act [A_send 1, A_keep 0 1, A_plan_run 1 [0, 1], A_plan_next, A_pass_test 1,
       A_lock_run 1 [1, 0], A_visit, A_visit, A_visit, A_return 1,
       A_invalidate (Suc (Suc 0)) 0 UserRestart, A_notify_ch, A_loop_recv, A_loop_timer] @
     [D_close, D_act (A_plan_loop [0, 1]), D_send Th_loop]"

lemma closing_eval:
  "\<exists>s. deliver_all pair closing_run (subscribed 1 False pair_start) = Some s \<and> d_panicked s \<and>
     \<not> root_done (d_exec s) \<and> e_wg_err (d_exec s) = None"
  by (simp add: machine_eval delivery_eval closing_run_def)

lemma closed_channel_panics:
  "\<exists>s. delivery_reachable pair s \<and> d_panicked s \<and> \<not> root_done (d_exec s) \<and> e_wg_err (d_exec s) = None"
  using closing_eval pair_delivery_starts deliver_all_reachable by blast

text \<open>
  Long-lived tasks are not always restarted. Without watching, when the last of them fails
  while nothing else runs, the errgroup is empty before the invalidation loop has planned the
  restart: \<open>Run\<close> returns with the error, and taskrunner exits.
\<close>

definition servers_end :: "action list" where
  "servers_end = first_pass @ server_exits 0 @ [A_notify 0, A_loop_recv, A_pass_test 0, A_lock_run 0 [0, 1],
     A_visit, A_visit, A_visit, A_return 0] @ server_exits 1 @ [A_notify 1, A_pass_test 1,
     A_lock_run 1 [0, 1], A_visit, A_visit, A_visit, A_return 1]"

lemma servers_end_eval:
  "\<exists>s. deliver_all servers (map D_act servers_end @ [D_close]) (subscribed 0 False servers_start) = Some s \<and>
     d_closed s \<and> \<not> root_done (d_exec s) \<and> e_wg_err (d_exec s) \<noteq> None \<and>
     ex_state (exec_of (ts_exec (d_exec s)) 1) = St_error \<and> ex_pending (exec_of (ts_exec (d_exec s)) 1) \<noteq> {}"
  by (simp add: machine_eval delivery_eval servers_end_def server_exits_def servers_def servers_start_def wrapf_def)

lemma keep_alive_not_restarted:
  "\<exists>s. delivery_reachable servers s \<and> d_closed s \<and> \<not> root_done (d_exec s) \<and> e_wg_err (d_exec s) \<noteq> None \<and>
     ex_state (exec_of (ts_exec (d_exec s)) 1) = St_error \<and> ex_pending (exec_of (ts_exec (d_exec s)) 1) \<noteq> {}"
proof -
  have "delivery_reachable servers (subscribed 0 False servers_start)"
    by (rule reachable_by.initial) (use servers_starts in \<open>auto simp: delivery_starts_def\<close>)
  with servers_end_eval deliver_all_reachable show ?thesis by blast
qed

end
