(* ===== verification/ExecutorSpec.thy ===== *)
theory ExecutorSpec
  imports ExecutorRaces
begin

text \<open>
  The scheduler as its documentation describes it: a state for each task, and transitions
  that look at nothing else. The executor with its goroutines, locks and channels refines it.
\<close>

section \<open>The specification\<close>

record sched =
  sc_state :: "tid \<Rightarrow> task_state"
  sc_down :: bool

text \<open>
  A task is started when all it depends on is done, ends, is reset by a plan, or is cancelled
  in a shutdown. With \<open>late\<close> a run may also record its end on a task that was reset before.
\<close>

inductive sched_step :: "(tid \<Rightarrow> 'w task) \<Rightarrow> bool \<Rightarrow> sched \<Rightarrow> sched \<Rightarrow> bool" for g late where
  sched_start: "sc_state a t = St_invalid \<Longrightarrow> (\<forall>d \<in> deps_of g t. sc_state a d = St_done) \<Longrightarrow>
    sched_step g late a (a\<lparr>sc_state := (sc_state a)(t := St_running)\<rparr>)"
| sched_exit: "sc_state a t = St_running \<or> late \<and> sc_state a t = St_invalid \<Longrightarrow>
    st \<in> {St_done, St_error} \<Longrightarrow>
    sched_step g late a (a\<lparr>sc_state := (sc_state a)(t := st)\<rparr>)"
| sched_cancel: "sc_down a \<Longrightarrow> sc_state a t \<in> {St_running, St_invalid} \<Longrightarrow>
    sched_step g late a (a\<lparr>sc_state := (sc_state a)(t := St_canceled)\<rparr>)"
| sched_reset: "sc_state a t \<in> {St_running, St_error, St_done} \<Longrightarrow>
    sched_step g late a (a\<lparr>sc_state := (sc_state a)(t := St_invalid)\<rparr>)"
| sched_shutdown: "sched_step g late a (a\<lparr>sc_down := True\<rparr>)"

inductive_cases sched_stepE: "sched_step g late a b"

definition sched_init :: "sched \<Rightarrow> bool" where
  "sched_init a \<longleftrightarrow> a = \<lparr>sc_state = (\<lambda>_. St_invalid), sc_down = False\<rparr>"

lemma sched_late: "sched_step g late a b \<Longrightarrow> sched_step g True a b"
  by (erule sched_step.cases) (auto intro: sched_step.intros)

text \<open>Of the specification alone: only a shutdown leaves cancelled tasks.\<close>

lemma sched_canceled:
  "reachable_by sched_init (sched_step g late) a \<Longrightarrow> sc_state a t = St_canceled \<Longrightarrow> sc_down a"
proof (induction arbitrary: t rule: reachable_by.induct)
  case (initial a)
  then show ?case by (simp add: sched_init_def)
next
  case (step a b)
  from step(2,3,4) show ?case by (auto elim!: sched_stepE split: if_splits)
qed

section \<open>The refinement\<close>

definition sched_of :: "executor \<Rightarrow> sched" where
  "sched_of s = \<lparr>sc_state = (\<lambda>t. ex_state (exec_of (ts_exec s) t)), sc_down = root_done s\<rparr>"

lemma sched_of_write:
  assumes "\<And>x. ex_state (node s' x) = (if x = t then st else ex_state (node s x))"
    and "root_done s' = root_done s"
  shows "sched_of s' = (sched_of s)\<lparr>sc_state := (sc_state (sched_of s))(t := st)\<rparr>"
  using assms by (simp add: sched_of_def fun_eq_iff)

lemma sched_of_same:
  "(\<And>x. ex_state (node s' x) = ex_state (node s x)) \<Longrightarrow> root_done s' = root_done s \<Longrightarrow>
     sched_of s' = sched_of s"
  by (simp add: sched_of_def)

lemma same_core_root: "same_core s s' \<Longrightarrow> root_done s' = root_done s"
  by (simp add: same_core_def root_done_def)

text \<open>A plan that resets a node does not cancel the context of the executor.\<close>

lemma stop_keeps_root:
  assumes "exec_inv g s" and "ctx_inv g c0 N s" and "e_mu s = Some (Planning th (t # ts) False)"
  shows "hd (ex_ctx (node s t)) \<notin> set (e_root s)"
proof -
  have t: "t \<in> tasks_of (ts_exec s)"
    using exec_invD(1) [OF assms(1)] assms(3) by (simp add: base_inv_def)
  from assms(2) have births: "births g c0 N (e_root s) (tasks_of (ts_exec s))"
    and ids: "ctx_ids c0 N s" unfolding ctx_inv_def by blast+
  show ?thesis
  proof (cases "reset c0 s t")
    case True
    with ids t obtain i where "N \<le> i" "ex_ctx (node s t) = i # e_root s"
      unfolding ctx_ids_def by blast
    moreover have "\<forall>i \<in> set (e_root s). i < N" using births unfolding births_def by blast
    ultimately show ?thesis by fastforce
  next
    case False
    with births_below(2) [OF births t] show ?thesis by (simp add: reset_def)
  qed
qed

text \<open>
  The race: a run that found its context intact is about to record its end on a task that a
  plan has reset in the meantime, and the plan waits for it.
\<close>

definition overtaken :: "executor \<Rightarrow> tid \<Rightarrow> bool" where
  "overtaken s t \<longleftrightarrow> ex_state (exec_of (ts_exec s) t) = St_invalid \<and> waiting s t \<and>
     (\<exists>i r. e_runs s i = Some r \<and> gr_task r = t \<and> gr_pc r = G_write \<and> gr_verdict r \<noteq> V_canceled)"

definition late_exit :: "executor \<Rightarrow> executor \<Rightarrow> bool" where
  "late_exit s s' \<longleftrightarrow> (\<exists>t st. overtaken s t \<and> st \<in> {St_done, St_error} \<and>
     sched_of s' = (sched_of s)\<lparr>sc_state := (sc_state (sched_of s))(t := st)\<rparr>)"

lemma late_exit_step: "late_exit s s' \<Longrightarrow> sched_step g True (sched_of s) (sched_of s')"
  unfolding late_exit_def
  by (elim exE conjE) (simp, rule sched_exit, simp_all add: overtaken_def sched_of_def)

lemma sched_effect:
  assumes inv: "exec_inv g s" and ctx: "ctx_inv g c0 N s" and order: "order_inv g s"
    and eff: "effect g s s'"
  shows "sched_of s' = sched_of s \<or> sched_step g False (sched_of s) (sched_of s') \<or> late_exit s s'"
  using eff
proof cases
  case (mark n t ev b)
  then show ?thesis
    by (intro disjI1 sched_of_same) (auto simp: mark_invalid_fields same_core_root)
next
  case (write_state i r st)
  let ?t = "gr_task r"
  have a: "active_at s ?t i" using write_state by (auto intro: active_atI simp: active_def)
  then have st: "ex_state (node s ?t) \<in> {St_running, St_invalid}"
    using order unfolding order_inv_alt by blast
  have eq: "sched_of s' = (sched_of s)\<lparr>sc_state := (sc_state (sched_of s))(?t := st)\<rparr>"
    by (rule sched_of_write) (simp_all add: write_state root_done_def)
  show ?thesis
  proof (cases "gr_verdict r = V_canceled")
    case True
    with write_state(3) have "st = St_canceled" "root_done s" by auto
    with st have "sched_step g False (sched_of s) (sched_of s')"
      unfolding eq \<open>st = St_canceled\<close> by (intro sched_cancel) (auto simp: sched_of_def)
    then show ?thesis by blast
  next
    case False
    then have ends: "st \<in> {St_done, St_error}" using write_state(3) by auto
    show ?thesis
    proof (cases "ex_state (node s ?t) = St_running")
      case True
      then have "sched_step g False (sched_of s) (sched_of s')"
        unfolding eq using ends by (intro sched_exit) (simp_all add: sched_of_def)
      then show ?thesis by blast
    next
      case invalid: False
      with st have "ex_state (node s ?t) = St_invalid" by simp
      moreover from this have "waiting s ?t"
        using idle_not_active [OF exec_invD(2) [OF inv]] a by blast
      ultimately have "overtaken s ?t" using write_state(1,2) False unfolding overtaken_def by blast
      with eq ends show ?thesis unfolding late_exit_def by blast
    qed
  qed
next
  case (stop th t ts)
  have "root_done s' = root_done s"
    using stop_keeps_root [OF inv ctx stop(1)] stop by (auto simp: root_done_def ctx_err_def)
  then have eq: "sched_of s' = (sched_of s)\<lparr>sc_state := (sc_state (sched_of s))(t := St_invalid)\<rparr>"
    by (intro sched_of_write) (simp_all add: stop)
  have "ex_state (node s t) \<in> {St_running, St_error, St_done}"
    using stop by (cases "ex_state (node s t)") (auto simp: invalidate_skips_def)
  then show ?thesis unfolding eq by (intro disjI2 disjI1 sched_reset) (simp add: sched_of_def)
next
  case (spawned th t ts)
  then have t: "t \<in> tasks_of (ts_exec s)" using exec_invD(1) [OF inv] by (simp add: base_inv_def)
  have eq: "sched_of s' = (sched_of s)\<lparr>sc_state := (sc_state (sched_of s))(t := St_running)\<rparr>"
    by (rule sched_of_write) (simp_all add: spawned root_done_def)
  have "ex_state (node s t) = St_invalid" "\<forall>d \<in> deps_of g t. ex_state (node s d) = St_done"
    using spawned exec_invD(3) [OF inv] t by (auto simp: should_execute_iff graph_inv_def)
  then show ?thesis unfolding eq by (intro disjI2 disjI1 sched_start) (simp_all add: sched_of_def)
next
  case shutdown
  have "root_done s'"
    using shutdown exec_invD(1) [OF inv] by (auto simp: root_done_def ctx_err_def base_inv_def)
  then have "sched_of s' = (sched_of s)\<lparr>sc_down := True\<rparr>" using shutdown by (simp add: sched_of_def)
  then show ?thesis by (auto intro: sched_shutdown)
qed (auto intro!: disjI1 sched_of_same simp: same_core_def root_done_def)

lemma starts_sched:
  assumes "starts g s"
  shows "sched_init (sched_of s)"
proof -
  from assms obtain n reg root names k ts where "build_task_set n g reg root names (empty_task_set k) = Some (Inr ts)"
    and b: "built g root (empty_task_set k) ts" and s: "s = start_executor root ts"
    by (rule starts_built)
  have "ex_state (node s x) = St_invalid" for x
    using starts_order_inv [OF assms] by (simp add: order_inv_def s)
  moreover have "\<not> root_done s"
    using builtD [OF b] by (simp add: s root_done_def ctx_err_def empty_task_set_def grows_def)
  ultimately show ?thesis by (simp add: sched_init_def sched_of_def)
qed

text \<open>Without the races, no run is overtaken.\<close>

lemma calm_not_overtaken: "calm_inv s \<Longrightarrow> \<not> overtaken s t"
  by (auto simp: overtaken_def told_to_stop_def dest: calm_invD(3))

text \<open>Then an exit is recorded on a running node.\<close>

definition exit_timely :: "executor \<Rightarrow> bool" where
  "exit_timely s \<longleftrightarrow> (\<forall>i r. e_runs s i = Some r \<longrightarrow> gr_pc r = G_write \<longrightarrow>
     gr_verdict r \<noteq> V_canceled \<longrightarrow> ex_state (node s (gr_task r)) = St_running)"

lemma calm_exit_timely:
  assumes "exec_inv g s" and "order_inv g s" and "calm_inv s"
  shows "exit_timely s"
  unfolding exit_timely_def
proof (intro allI impI)
  fix i r assume r: "e_runs s i = Some r" "gr_pc r = G_write" "gr_verdict r \<noteq> V_canceled"
  then have a: "active_at s (gr_task r) i" by (auto intro: active_atI simp: active_def)
  have "\<not> waiting s (gr_task r)"
    using calm_invD(3) [OF assms(3) r(1)] r by (auto simp: told_to_stop_def)
  then have "ex_state (node s (gr_task r)) \<noteq> St_invalid"
    using idle_not_active [OF exec_invD(2) [OF assms(1)]] a by blast
  with a assms(2) show "ex_state (node s (gr_task r)) = St_running" unfolding order_inv_alt by blast
qed

interpretation scheduler: refinement "starts g" "exec_step g" sched_of sched_init "sched_step g True" for g
proof unfold_locales
  show "sched_init (sched_of s)" if "starts g s" for s using that by (rule starts_sched)
  fix s s' assume s: "reachable g s" "exec_step g s s'"
  then obtain c0 N where "exec_inv g s" "ctx_inv g c0 N s" using contexts.both_reachable by blast
  with order.inv_reachable [OF s(1)] step_effect [OF _ s(2)]
  have "sched_of s' = sched_of s \<or> sched_step g False (sched_of s) (sched_of s') \<or> late_exit s s'"
    by (intro sched_effect) simp_all
  then show "sched_of s' = sched_of s \<or> sched_step g True (sched_of s) (sched_of s')"
    using sched_late late_exit_step by blast
qed

interpretation calm_scheduler:
  refinement "starts g" "calm_step g" sched_of sched_init "sched_step g False" for g
proof unfold_locales
  show "sched_init (sched_of s)" if "starts g s" for s using that by (rule starts_sched)
  fix s s' assume s: "reachable_by (starts g) (calm_step g) s" "calm_step g s s'"
  from calm.both_reachable [OF s(1)] obtain c0 N where
    "exec_inv g s" "ctx_inv g c0 N s" "order_inv g s" "calm_inv s" by blast
  moreover from this have "\<not> late_exit s s'" using calm_not_overtaken unfolding late_exit_def by blast
  ultimately show "sched_of s' = sched_of s \<or> sched_step g False (sched_of s) (sched_of s')"
    using sched_effect [of g s c0 N s'] step_effect [of g s s'] s(2) unfolding calm_step_def by blast
qed


text \<open>
  C34. Without the race the executor implements the strict specification: when no plan cancels
  a run in the windows around the reading of its context, each step leaves the states of the
  tasks alone or is a transition of the strict state machine, where the end of a task is
  recorded on a running task only, so that no invalidation is overwritten.
\<close>

theorem calm_executor_refines_strictly:
  assumes "reachable_by (starts g) (calm_step g) s" and "calm_step g s s'"
  shows "reachable_by sched_init (sched_step g False) (sched_of s) \<and>
    (sched_of s' = sched_of s \<or> sched_step g False (sched_of s) (sched_of s'))"
  using calm_scheduler.abs_reachable [OF assms(1)] calm_scheduler.refines_step [OF assms] by blast

lemma visit_eval:
  "\<exists>s s'. do_actions pair [A_test_pass, A_lock_pass [0, 1]] pair_start = Some s \<and>
     do_action pair A_visit s = Some s' \<and> sc_state (sched_of s) 0 = St_invalid \<and>
     sc_state (sched_of s') 0 = St_running \<and> e_mu s = Some (Passing Th_pass [0, 1])"
  by (simp add: machine_eval sched_of_def)


theorem calm_executor_refines_strictly_witness:
  "\<exists>s s'. calm_step pair s s' \<and> sched_step pair False (sched_of s) (sched_of s')"
proof -
  from visit_eval obtain s s' where run: "do_actions pair [A_test_pass, A_lock_pass [0, 1]] pair_start = Some s"
    and visit: "do_action pair A_visit s = Some s'"
    and st: "sc_state (sched_of s) 0 = St_invalid" "sc_state (sched_of s') 0 = St_running" by blast
  have calm: "reachable_by (starts pair) (calm_step pair) s"
    by (rule do_actions_calm [OF run]) (auto intro: reachable_by.initial pair_starts)
  have "exec_step pair s s'" using visit by (rule exec_step.act)
  then have step: "calm_step pair s s'"
    using waiting_new [OF visit] by (auto simp: calm_step_def)
  from st have "sched_of s' \<noteq> sched_of s" by auto
  with calm_executor_refines_strictly [OF calm step] step show ?thesis by blast
qed

text \<open>What the specification guarantees holds of the executor: a cancelled task means a shutdown.\<close>

lemma canceled_only_at_shutdown:
  assumes "reachable g s" and "ex_state (exec_of (ts_exec s) t) = St_canceled"
  shows "root_done s"
  using sched_canceled [OF scheduler.abs_reachable [OF assms(1)], of t] assms(2)
  by (simp add: sched_of_def)

end
