(* ===== verification/Config.thy ===== *)
theory Config
  imports Prelude
begin

text \<open>
  \<open>config/config.go\<close>: the configuration file, what extends it, and the resolved
  configuration. The file system, the JSON decoder and the order in which Go ranges over a
  map are the environment \<open>config_env\<close>; the functions of package \<open>filepath\<close> that
  the code calls are modelled, on Unix paths.
\<close>

section \<open>Paths\<close>

text \<open>
  \<open>clean_parts\<close> keeps the elements of the cleaned path in reverse; \<open>path_clean\<close> is
  \<open>filepath.Clean\<close>.
\<close>

abbreviation slash :: char where
  "slash \<equiv> CHR ''/''"

fun clean_parts :: "bool \<Rightarrow> string list \<Rightarrow> string list \<Rightarrow> string list" where
  "clean_parts rooted acc [] = rev acc"
| "clean_parts rooted acc (p # ps) =
     (if p = '''' \<or> p = ''.'' then clean_parts rooted acc ps
      else if p = ''..'' then
        (case acc of
           [] \<Rightarrow> clean_parts rooted (if rooted then [] else [''..'']) ps
         | q # qs \<Rightarrow> if q = ''..'' then clean_parts rooted (p # acc) ps
                    else clean_parts rooted qs ps)
      else clean_parts rooted (p # acc) ps)"

definition path_is_abs :: "string \<Rightarrow> bool" where
  "path_is_abs p \<longleftrightarrow> has_prefix p [slash]"

definition render_path :: "bool \<Rightarrow> string list \<Rightarrow> string" where
  "render_path rooted ps =
     (if rooted then slash # join_with [slash] ps
      else if ps = [] then ''.'' else join_with [slash] ps)"

definition path_clean :: "string \<Rightarrow> string" where
  "path_clean p = render_path (path_is_abs p) (clean_parts (path_is_abs p) [] (split_on slash p))"

definition path_join2 :: "string \<Rightarrow> string \<Rightarrow> string" where
  "path_join2 a b =
     (if a \<noteq> '''' then path_clean (a @ [slash] @ b)
      else if b \<noteq> '''' then path_clean b else '''')"

definition path_dir :: "string \<Rightarrow> string" where
  "path_dir p = path_clean (rev (dropWhile (\<lambda>c. c \<noteq> slash) (rev p)))"

section \<open>The environment\<close>

record config_file =
  cf_config_path :: string
  cf_extends :: "string option"
  cf_path :: "string option"
  cf_desired_tasks :: "string list option"

record config =
  c_working_dir :: string
  c_config_path :: string
  c_desired_tasks :: "string list"

record config_env =
  ce_getwd :: "go_error + string"
  ce_symlinks :: "string \<Rightarrow> go_error + string"      \<comment> \<open>\<open>filepath.EvalSymlinks\<close>\<close>
  ce_read_file :: "string \<Rightarrow> go_error + string"     \<comment> \<open>\<open>ioutil.ReadFile\<close>\<close>
  ce_decode :: "string \<Rightarrow> go_error + (string option \<times> string option \<times> string list option)"
    \<comment> \<open>\<open>json.Unmarshal\<close>: the fields extends, path and desiredTasks\<close>
  ce_exists :: "string \<Rightarrow> bool"                    \<comment> \<open>\<open>os.Stat\<close> has no error\<close>
  ce_range :: "string list \<Rightarrow> string list"         \<comment> \<open>the order of a range over a map with these keys\<close>

definition path_abs :: "config_env \<Rightarrow> string \<Rightarrow> go_error + string" where
  "path_abs env p =
     (if path_is_abs p then Inr (path_clean p)
      else (case ce_getwd env of Inl e \<Rightarrow> Inl e | Inr wd \<Rightarrow> Inr (path_join2 wd p)))"

section \<open>Reading\<close>

definition resolve_working_dir :: "config_env \<Rightarrow> string \<Rightarrow> string \<Rightarrow> go_error + string" where
  "resolve_working_dir env file opt =
     (case path_abs env file of
        Inl e \<Rightarrow> Inl (Wrapped (''unable to find config file '' @ file) e)
      | Inr p \<Rightarrow>
          (case ce_symlinks env p of
             Inl e \<Rightarrow> Inl (Wrapped (''failed to evaluate symlinks for config file: '' @ file) e)
           | Inr q \<Rightarrow> Inr (path_join2 (path_dir q) opt)))"

definition or_empty :: "'a list option \<Rightarrow> 'a list" where
  "or_empty x = (case x of None \<Rightarrow> [] | Some xs \<Rightarrow> xs)"

definition to_config :: "config_env \<Rightarrow> config_file \<Rightarrow> go_error + config" where
  "to_config env cf =
     (case cf_path cf of
        None \<Rightarrow> Inl (Err (''config must specify path: '' @ cf_config_path cf))
      | Some p \<Rightarrow>
          (case resolve_working_dir env (cf_config_path cf) p of
             Inl e \<Rightarrow> Inl (Wrapped (''failed to resolve path for '' @ p) e)
           | Inr d \<Rightarrow> Inr \<lparr>c_working_dir = d, c_config_path = cf_config_path cf,
                            c_desired_tasks = or_empty (cf_desired_tasks cf)\<rparr>))"

definition config_with :: "config_env \<Rightarrow> config \<Rightarrow> config_file \<Rightarrow> go_error + config" where
  "config_with env c cf =
     (case (case cf_path cf of
              None \<Rightarrow> Inr (c_working_dir c)
            | Some p \<Rightarrow>
                (case resolve_working_dir env (cf_config_path cf) p of
                   Inl e \<Rightarrow> Inl (Wrapped (''failed to resolve path for '' @ p) e)
                 | Inr d \<Rightarrow> Inr d)) of
        Inl e \<Rightarrow> Inl e
      | Inr d \<Rightarrow>
          Inr (c\<lparr>c_working_dir := d,
                 c_desired_tasks := (case cf_desired_tasks cf of
                     None \<Rightarrow> c_desired_tasks c
                   | Some ts \<Rightarrow> ce_range env (remdups (c_desired_tasks c @ ts))),
                 c_config_path := cf_config_path cf\<rparr>))"

definition read_config_file :: "config_env \<Rightarrow> string \<Rightarrow> go_error + config_file" where
  "read_config_file env p =
     (case path_abs env p of
        Inl e \<Rightarrow> Inl (Wrapped ''unable to resolve config file path'' e)
      | Inr ap \<Rightarrow>
          (case ce_read_file env ap of
             Inl e \<Rightarrow> Inl (Wrapped ''unable to read file'' e)
           | Inr content \<Rightarrow>
               (case ce_decode env content of
                  Inl e \<Rightarrow> Inl (Wrapped ''unable to parse json'' e)
                | Inr (ext, path, tasks) \<Rightarrow>
                    Inr \<lparr>cf_config_path = ap, cf_extends = ext, cf_path = path,
                         cf_desired_tasks = tasks\<rparr>)))"

text \<open>
  \<open>ReadConfig\<close> recurses on the extended file; it does not return when the files extend each
  other in a cycle, so it has fuel.
\<close>

definition extends_path :: "config_env \<Rightarrow> string \<Rightarrow> string \<Rightarrow> go_error + string" where
  "extends_path env p ext = path_abs env (path_join2 (path_dir p) ext)"

primrec read_config :: "nat \<Rightarrow> config_env \<Rightarrow> string \<Rightarrow> (go_error + config) option" where
  "read_config 0 env = (\<lambda>p. None)"
| "read_config (Suc n) env = (\<lambda>p.
     (case read_config_file env p of
        Inl e \<Rightarrow> Some (Inl (Wrapped (''failed to read config file at '' @ p) e))
      | Inr cf \<Rightarrow>
          (case cf_extends cf of
             None \<Rightarrow>
               (case to_config env cf of
                  Inl e \<Rightarrow> Some (Inl (Wrapped (''failed to build config from '' @ cf_config_path cf) e))
                | Inr c \<Rightarrow> Some (Inr c))
           | Some ext \<Rightarrow>
               (case extends_path env p ext of
                  Inl e \<Rightarrow> Some (Inl (Wrapped (''failed to resolve base config at '' @ ext) e))
                | Inr base \<Rightarrow>
                    (case read_config n env base of
                       None \<Rightarrow> None
                     | Some (Inl e) \<Rightarrow> Some (Inl (Wrapped (''failed to read base config at '' @ base) e))
                     | Some (Inr c) \<Rightarrow>
                         (case config_with env c cf of
                            Inl e \<Rightarrow> Some (Inl (Wrapped (''failed to read base config at '' @ base) e))
                          | Inr c' \<Rightarrow> Some (Inr c')))))))"

definition read_default_config :: "nat \<Rightarrow> config_env \<Rightarrow> (go_error + config) option" where
  "read_default_config n env =
     (if ce_exists env ''./user.taskrunner.json'' then read_config n env ''./user.taskrunner.json''
      else read_config n env ''./workspace.taskrunner.json'')"

section \<open>Cleaning is stable\<close>

text \<open>
  The elements of a cleaned path: none empty or a dot, and dot-dots only at the start of a
  path that is not rooted.
\<close>

definition proper_part :: "string \<Rightarrow> bool" where
  "proper_part p \<longleftrightarrow> p \<noteq> '''' \<and> p \<noteq> ''.'' \<and> slash \<notin> set p"

definition cleaned :: "bool \<Rightarrow> string list \<Rightarrow> bool" where
  "cleaned rooted ps \<longleftrightarrow> (\<forall>p \<in> set ps. proper_part p) \<and>
     ''..'' \<notin> set (dropWhile (\<lambda>p. p = ''..'') ps) \<and> (rooted \<longrightarrow> ''..'' \<notin> set ps)"

lemma cleaned_Nil [simp]: "cleaned rooted []"
  by (simp add: cleaned_def)

lemma cleaned_snoc:
  assumes "cleaned rooted ps" and "proper_part p" and "p \<noteq> ''..''"
  shows "cleaned rooted (ps @ [p])"
proof -
  have "dropWhile (\<lambda>p. p = ''..'') (ps @ [p]) = dropWhile (\<lambda>p. p = ''..'') ps @ [p]"
    using assms(3) by (rule dropWhile_append3)
  with assms show ?thesis by (auto simp: cleaned_def)
qed

lemma cleaned_butlast:
  assumes "cleaned rooted (ps @ qs)"
  shows "cleaned rooted ps"
proof -
  have "set (dropWhile P ps) \<subseteq> set (dropWhile P (ps @ qs))" for P
    by (induction ps) auto
  with assms show ?thesis unfolding cleaned_def set_append by blast
qed

lemma cleaned_dots:
  assumes "cleaned rooted (ps @ ''..'' # qs)"
  shows "\<forall>p \<in> set ps. p = ''..''" and "\<not> rooted"
  using assms by (auto simp: cleaned_def dropWhile_append split: if_splits)

lemma cleaned_more_dots:
  assumes "cleaned rooted (ps @ [''..''])"
  shows "cleaned rooted (ps @ [''..'', ''..''])"
  using cleaned_dots [OF assms] assms by (auto simp: cleaned_def dropWhile_append)

lemma clean_parts_cleaned:
  "cleaned rooted (rev acc) \<Longrightarrow> \<forall>p \<in> set ps. slash \<notin> set p \<Longrightarrow>
     cleaned rooted (clean_parts rooted acc ps)"
proof (induction rooted acc ps rule: clean_parts.induct)
  case (1 rooted acc)
  then show ?case by simp
next
  case (2 rooted acc p ps)
  show ?case
  proof (cases "p = '''' \<or> p = ''.''")
    case True
    with 2 show ?thesis by auto
  next
    case False
    note ne = this
    show ?thesis
    proof (cases "p = ''..''")
      case False
      with ne 2 have "cleaned rooted (rev (p # acc))" by (simp add: cleaned_snoc proper_part_def)
      with ne False 2 show ?thesis by auto
    next
      case True
      note dots = this
      show ?thesis
      proof (cases acc)
        case Nil
        have "cleaned False [''..'']"
          by (simp add: cleaned_def proper_part_def)
        with Nil dots 2 show ?thesis by (cases rooted) auto
      next
        case (Cons q qs)
        show ?thesis
        proof (cases "q = ''..''")
          case True
          with Cons "2.prems"(1) have "cleaned rooted (rev (''..'' # acc))"
            using cleaned_more_dots [of rooted "rev qs"] by simp
          with True Cons dots 2 show ?thesis by auto
        next
          case False
          with Cons "2.prems"(1) have "cleaned rooted (rev qs)" using cleaned_butlast [of rooted "rev qs" "[q]"] by simp
          with False Cons dots 2 show ?thesis by auto
        qed
      qed
    qed
  qed
qed

lemma clean_parts_fixed:
  "cleaned rooted (rev acc @ ps) \<Longrightarrow> clean_parts rooted acc ps = rev acc @ ps"
proof (induction rooted acc ps rule: clean_parts.induct)
  case (1 rooted acc)
  then show ?case by simp
next
  case (2 rooted acc p ps)
  from "2.prems" have "proper_part p" by (simp add: cleaned_def)
  then have p: "p \<noteq> '''' \<and> p \<noteq> ''.''" by (simp add: proper_part_def)
  show ?case
  proof (cases "p = ''..''")
    case False
    with p 2 show ?thesis by simp
  next
    case True
    with "2.prems" have "cleaned rooted (rev acc @ ''..'' # ps)" by simp
    note d = cleaned_dots [OF this]
    show ?thesis
    proof (cases acc)
      case Nil
      with p True d 2 show ?thesis by simp
    next
      case (Cons q qs)
      with p True d 2 show ?thesis by simp
    qed
  qed
qed

lemma proper_split: "\<forall>p \<in> set ps. proper_part p \<Longrightarrow> ps \<noteq> [] \<Longrightarrow> split_on slash (join_with [slash] ps) = ps"
  by (rule split_join) (auto simp: proper_part_def)

lemma render_abs:
  assumes "cleaned rooted ps"
  shows "path_is_abs (render_path rooted ps) = rooted"
proof (cases rooted)
  case True
  then show ?thesis by (simp add: path_is_abs_def render_path_def)
next
  case False
  show ?thesis
  proof (cases ps)
    case Nil
    with False show ?thesis by (simp add: path_is_abs_def render_path_def)
  next
    case (Cons q qs)
    with assms have "proper_part q" by (simp add: cleaned_def)
    then obtain c cs where "q = c # cs" "c \<noteq> slash" by (cases q) (auto simp: proper_part_def)
    with Cons False show ?thesis by (cases qs) (auto simp: path_is_abs_def render_path_def)
  qed
qed

lemma render_parts:
  assumes "cleaned rooted ps"
  shows "clean_parts rooted [] (split_on slash (render_path rooted ps)) = ps"
proof (cases "ps = []")
  case True
  then show ?thesis by (cases rooted) (auto simp: render_path_def)
next
  case False
  from assms have "split_on slash (join_with [slash] ps) = ps"
    using False by (intro proper_split) (simp_all add: cleaned_def)
  moreover have "clean_parts rooted [] ps = ps" using clean_parts_fixed [of rooted "[]" ps] assms by simp
  ultimately show ?thesis using False by (cases rooted) (auto simp: render_path_def)
qed

definition clean_path :: "string \<Rightarrow> bool" where
  "clean_path p \<longleftrightarrow> (\<exists>rooted ps. cleaned rooted ps \<and> p = render_path rooted ps)"

lemma clean_path_fixed: "clean_path p \<Longrightarrow> path_clean p = p"
  unfolding clean_path_def by (auto simp: path_clean_def render_abs render_parts)

lemma path_clean_clean: "clean_path (path_clean p)"
  unfolding clean_path_def path_clean_def
  by (intro exI conjI, rule clean_parts_cleaned) (auto dest: split_on_parts)

text \<open>
  Cleaning a path is idempotent: the paths of the configuration that \<open>filepath.Join\<close>
  and \<open>filepath.Abs\<close> build do not change when they are cleaned again.
\<close>

lemma path_clean_idempotent: "path_clean (path_clean p) = path_clean p"
  by (rule clean_path_fixed, rule path_clean_clean)

section \<open>The chain of extended files\<close>

text \<open>\<open>base\<close> is the path that the file at \<open>p\<close> extends.\<close>

definition extends_file :: "config_env \<Rightarrow> string \<Rightarrow> string \<Rightarrow> bool" where
  "extends_file env base p \<longleftrightarrow> (\<exists>cf ext. read_config_file env p = Inr cf \<and>
     cf_extends cf = Some ext \<and> extends_path env p ext = Inr base)"

inductive extends_chain :: "config_env \<Rightarrow> string \<Rightarrow> config_file list \<Rightarrow> bool"
  for env :: config_env
where
  last_file: "read_config_file env p = Inr cf \<Longrightarrow> cf_extends cf = None \<Longrightarrow> extends_chain env p [cf]"
| next_file: "read_config_file env p = Inr cf \<Longrightarrow> cf_extends cf = Some ext \<Longrightarrow>
     extends_path env p ext = Inr base \<Longrightarrow> extends_chain env base cfs \<Longrightarrow>
     extends_chain env p (cf # cfs)"

lemma chain_ne: "extends_chain env p cfs \<Longrightarrow> cfs \<noteq> []"
  by (cases rule: extends_chain.cases) auto

lemma read_config_acc:
  "read_config n env p = Some r \<Longrightarrow> Wellfounded.accp (extends_file env) p"
proof (induction n arbitrary: p r)
  case 0
  then show ?case by simp
next
  case (Suc n)
  show ?case
  proof (rule accpI)
    fix base assume "extends_file env base p"
    then obtain cf ext where e: "read_config_file env p = Inr cf" "cf_extends cf = Some ext"
      "extends_path env p ext = Inr base"
      unfolding extends_file_def by blast
    with Suc.prems obtain r' where "read_config n env base = Some r'"
      by (simp split: option.splits)
    then show "Wellfounded.accp (extends_file env) base" by (rule Suc.IH)
  qed
qed

lemma acc_read_config:
  "Wellfounded.accp (extends_file env) p \<Longrightarrow> \<exists>n r. read_config n env p = Some r"
proof (induction rule: accp.induct)
  case (accI p)
  show ?case
  proof (cases "\<exists>base. extends_file env base p")
    case True
    then obtain base where b: "extends_file env base p" by blast
    then obtain n r where "read_config n env base = Some r" using accI by blast
    with b have "read_config (Suc n) env p \<noteq> None"
      unfolding extends_file_def by (auto split: sum.splits)
    then show ?thesis by blast
  next
    case False
    then have "read_config (Suc 0) env p \<noteq> None"
      unfolding extends_file_def by (auto split: sum.splits option.splits)
    then show ?thesis by blast
  qed
qed

text \<open>
  C22. \<open>ReadConfig\<close> returns, with a configuration or an error, exactly on the files from
  which following \<open>extends\<close> does not go on for ever; files that extend each other in a cycle
  make it recurse until the stack overflows.
\<close>

theorem read_config_returns_iff:
  "(\<exists>n r. read_config n env p = Some r) \<longleftrightarrow> Wellfounded.accp (extends_file env) p"
  using read_config_acc acc_read_config by blast

text \<open>
  The first file of a chain that sets a path, and the tasks that the files name.
\<close>

definition resolved :: "config_env \<Rightarrow> config_file list \<Rightarrow> go_error + string" where
  "resolved env cfs =
     (case filter (\<lambda>cf. cf_path cf \<noteq> None) cfs of
        [] \<Rightarrow> Inl (Err ''no path'')
      | cf # _ \<Rightarrow> resolve_working_dir env (cf_config_path cf) (the (cf_path cf)))"

definition chain_tasks :: "config_file list \<Rightarrow> string set" where
  "chain_tasks cfs = (\<Union>cf \<in> set cfs. set (or_empty (cf_desired_tasks cf)))"

lemma resolved_Cons:
  "resolved env (cf # cfs) =
     (case cf_path cf of None \<Rightarrow> resolved env cfs
      | Some p \<Rightarrow> resolve_working_dir env (cf_config_path cf) p)"
  by (auto simp: resolved_def split: option.splits)

lemma chain_tasks_Cons:
  "chain_tasks (cf # cfs) = set (or_empty (cf_desired_tasks cf)) \<union> chain_tasks cfs"
  by (simp add: chain_tasks_def)

lemma to_config_Inr:
  "to_config env cf = Inr c \<Longrightarrow>
     resolved env [cf] = Inr (c_working_dir c) \<and> c_config_path c = cf_config_path cf \<and>
     set (c_desired_tasks c) = chain_tasks [cf] \<and> cf_path cf \<noteq> None"
  by (auto simp: to_config_def resolved_def chain_tasks_def split: option.splits sum.splits)

lemma config_with_Inr:
  assumes "config_with env c cf = Inr c'" and "resolved env cfs = Inr (c_working_dir c)"
    and "set (c_desired_tasks c) = chain_tasks cfs"
    and "\<And>xs. distinct xs \<Longrightarrow> set (ce_range env xs) = set xs"
  shows "resolved env (cf # cfs) = Inr (c_working_dir c') \<and> c_config_path c' = cf_config_path cf \<and>
     set (c_desired_tasks c') = chain_tasks (cf # cfs)"
  using assms by (auto simp: config_with_def resolved_Cons chain_tasks_Cons or_empty_def
      split: option.splits sum.splits)

text \<open>
  C23. A configuration that \<open>ReadConfig\<close> returns is the merge of the whole chain of extended
  files: its path is the first file's, its working directory that of the file nearest to the
  first that sets a path, resolved against that file's own location, and its desired tasks
  are those of all the files; the last file sets a path.
\<close>

theorem read_config_merges_chain:
  assumes "read_config n env p = Some (Inr c)"
    and "\<And>xs. distinct xs \<Longrightarrow> set (ce_range env xs) = set xs"
  shows "\<exists>cfs. extends_chain env p cfs \<and> cf_path (last cfs) \<noteq> None \<and>
    c_config_path c = cf_config_path (hd cfs) \<and>
    resolved env cfs = Inr (c_working_dir c) \<and>
    set (c_desired_tasks c) = chain_tasks cfs"
  using assms(1)
proof (induction n arbitrary: p c)
  case 0
  then show ?case by simp
next
  case (Suc n)
  from Suc.prems obtain cf where cf: "read_config_file env p = Inr cf"
    by (auto split: sum.splits)
  show ?case
  proof (cases "cf_extends cf")
    case None
    with Suc.prems cf have "to_config env cf = Inr c" by (auto split: sum.splits)
    from to_config_Inr [OF this] extends_chain.last_file [OF cf None] show ?thesis
      by (intro exI [of _ "[cf]"]) simp
  next
    case (Some ext)
    with Suc.prems cf obtain base c0 where b: "extends_path env p ext = Inr base"
      "read_config n env base = Some (Inr c0)" "config_with env c0 cf = Inr c"
      by (auto split: sum.splits option.splits)
    from Suc.IH [OF b(2)] obtain cfs where chain: "extends_chain env base cfs"
      "cf_path (last cfs) \<noteq> None" "resolved env cfs = Inr (c_working_dir c0)"
      "set (c_desired_tasks c0) = chain_tasks cfs" by blast
    from config_with_Inr [OF b(3) chain(3,4) assms(2)] extends_chain.next_file [OF cf Some b(1) chain(1)]
      chain(2) chain_ne [OF chain(1)]
    show ?thesis by (intro exI [of _ "cf # cfs"]) simp
  qed
qed

text \<open>A file system with a workspace file, and a user file that extends it.\<close>

definition demo_env :: config_env where
  "demo_env = \<lparr>ce_getwd = Inr ''/w'', ce_symlinks = (\<lambda>p. Inr p),
     ce_read_file = (\<lambda>p. if p = ''/w/u'' \<or> p = ''/w/b'' then Inr p else Inl (Err ''absent'')),
     ce_decode = (\<lambda>c. if c = ''/w/u'' then Inr (Some ''./b'', None, Some [''lint''])
                      else Inr (None, Some ''../x'', Some [''go''])),
     ce_exists = (\<lambda>p. True), ce_range = rev\<rparr>"


lemma demo_read: "read_config 2 demo_env ''./u'' =
    Some (Inr \<lparr>c_working_dir = ''/x'', c_config_path = ''/w/u'', c_desired_tasks = [''lint'', ''go'']\<rparr>)"
  by code_simp

theorem read_config_merges_chain_witness:
  "\<exists>cfs. extends_chain demo_env ''./u'' cfs \<and> cf_path (last cfs) \<noteq> None \<and>
    ''/w/u'' = cf_config_path (hd cfs) \<and> resolved demo_env cfs = Inr ''/x'' \<and>
    {''lint'', ''go''} = chain_tasks cfs"
  using read_config_merges_chain [OF demo_read] by (simp add: demo_env_def)

end
