(* ===== verification/Registry.thy ===== *)
theory Registry
  imports Task "HOL-Library.List_Lexorder" "HOL-Library.Char_ord"
begin

text \<open>
  \<open>registry.go\<close>: the registry of task definitions and of the flags each task supports. Its
  checks panic, so \<open>Add\<close> has an outcome. Names are ordered as Go orders strings, byte by
  byte.
\<close>

record registry =
  reg_definitions :: "string \<rightharpoonup> tid"
  reg_flags :: "string \<rightharpoonup> (string \<rightharpoonup> task_flag)"

definition new_registry :: registry where
  "new_registry = \<lparr>reg_definitions = Map.empty, reg_flags = Map.empty\<rparr>"

text \<open>
  A \<open>TaskOption\<close> takes a task's pointer and returns one; it may write the store.
\<close>

type_synonym 'w task_option = "tid \<Rightarrow> (tid \<Rightarrow> 'w task) \<Rightarrow> tid \<times> (tid \<Rightarrow> 'w task)"

definition apply_task_options ::
  "'w task_option list \<Rightarrow> tid \<Rightarrow> (tid \<Rightarrow> 'w task) \<Rightarrow> tid \<times> (tid \<Rightarrow> 'w task)" where
  "apply_task_options opts t g = fold (\<lambda>opt (t, g). opt t g) opts (t, g)"

section \<open>The flags of a task\<close>

definition flag_name :: "task_flag \<Rightarrow> string" where
  "flag_name f = (if f_long_name f \<noteq> '''' then f_long_name f else rune_string (f_short_name f))"

text \<open>The checks on one flag, in the order of the code.\<close>

definition check_flag :: "string \<Rightarrow> task_flag \<Rightarrow> unit outcome" where
  "check_flag name f =
     (if name = f_long_name f then
        Panics (''Task name `'' @ name @ ''` and flag LongName `'' @ f_long_name f @
                ''` are currently duplicates. Please de-depulicate their names.'')
      else if name = rune_string (f_short_name f) then
        Panics (''Task name `'' @ name @ ''` and flag ShortName `'' @ rune_string (f_short_name f) @
                ''` are currently duplicates. Please de-depulicate their names.'')
      else if f_long_name f = '''' \<and> f_short_name f = 0 then
        Panics (''Neither LongName nor ShortName are defined for a flag on `'' @ name @
                ''`. At least one name must be defined.'')
      else if f_long_name f = ''help'' then Panics ''The LongFlag name `help` is reserved.''
      else if rune_string (f_short_name f) = ''h'' then Panics ''The ShortFlag name `h` is reserved.''
      else if f_description f = '''' then
        Panics (''Please provide a description for the `'' @ flag_name f @ ''` flag.'')
      else if f_value_type f \<noteq> StringTypeFlag \<and> f_value_type f \<noteq> BoolTypeFlag \<and>
        f_value_type f \<noteq> IntTypeFlag \<and> f_value_type f \<noteq> Float64TypeFlag \<and>
        f_value_type f \<noteq> DurationTypeFlag
      then Panics ''Please set the flag ValueType with `taskrunner.StringTypeFlag`, `taskrunner.BoolTypeFlag`, `taskrunner.DurationTypeFlag`, `taskrunner.Float64TypeFlag` or `taskrunner.IntTypeFlag`.''
      else Return ())"

definition add_long_name :: "task_flag \<Rightarrow> (string \<rightharpoonup> task_flag) \<Rightarrow> (string \<rightharpoonup> task_flag) outcome" where
  "add_long_name f m =
     (if f_long_name f \<noteq> '''' then
        (if m (f_long_name f) \<noteq> None
         then Panics (''Duplicate flag LongName registered: `'' @ f_long_name f @ ''`.'')
         else Return (m(f_long_name f \<mapsto> f)))
      else Return m)"

definition add_short_name :: "task_flag \<Rightarrow> (string \<rightharpoonup> task_flag) \<Rightarrow> (string \<rightharpoonup> task_flag) outcome" where
  "add_short_name f m =
     (if f_short_name f \<noteq> 0 then
        (if m (rune_string (f_short_name f)) \<noteq> None
         then Panics (''Duplicate flag ShortName registered: `'' @ rune_string (f_short_name f) @ ''`.'')
         else Return (m(rune_string (f_short_name f) \<mapsto> f)))
      else Return m)"

fun add_flags :: "string \<Rightarrow> task_flag list \<Rightarrow> (string \<rightharpoonup> task_flag) \<Rightarrow> (string \<rightharpoonup> task_flag) outcome" where
  "add_flags name [] m = Return m"
| "add_flags name (f # fs) m =
     bind_outcome (check_flag name f) (\<lambda>_.
     bind_outcome (add_long_name f m) (\<lambda>m1.
     bind_outcome (add_short_name f m1) (\<lambda>m2. add_flags name fs m2)))"

section \<open>Add, Group and Tasks\<close>

text \<open>
  A panic of \<open>Add\<close> ends the program (\<open>Add\<close> is called before \<open>Run\<close>, and nothing recovers it), so
  the flags that it entered before the panic are not kept.
\<close>

definition registry_add ::
  "'w task \<Rightarrow> tid \<Rightarrow> registry \<Rightarrow> registry outcome" where
  "registry_add task t reg =
     (if reg_definitions reg (t_name task) \<noteq> None then
        Panics (''Duplicate task registered: '' @ t_name task)
      else if t_run task \<noteq> None \<and> t_run_with_flags task \<noteq> None then
        Panics (''Both `Run` and `RunWithFlags` are defined on the `'' @ t_name task @
          ''` task. `Run` is deprecated, please prefer using `RunWithFlags`.'')
      else bind_outcome (add_flags (t_name task) (t_flags task) Map.empty) (\<lambda>fm.
        Return (reg\<lparr>reg_definitions := (reg_definitions reg)(t_name task \<mapsto> t),
                    reg_flags := (reg_flags reg)(t_name task \<mapsto> fm)\<rparr>)))"

definition registry_add_opts ::
  "'w task_option list \<Rightarrow> tid \<Rightarrow> (tid \<Rightarrow> 'w task) \<Rightarrow> registry
    \<Rightarrow> (tid \<times> (tid \<Rightarrow> 'w task) \<times> registry) outcome" where
  "registry_add_opts opts t g reg =
     (let (t', g') = apply_task_options opts t g in
      bind_outcome (registry_add (g' t') t' reg) (\<lambda>reg'. Return (t', g', reg')))"

definition group_task :: "string \<Rightarrow> tid list \<Rightarrow> 'w task" where
  "group_task name tasks = zero_task\<lparr>t_name := name, t_dependencies := tasks, t_is_group := True\<rparr>"

text \<open>\<open>Group\<close> allocates the group's task, here at the unused pointer \<open>new\<close>.\<close>

definition registry_group ::
  "string \<Rightarrow> tid list \<Rightarrow> tid \<Rightarrow> (tid \<Rightarrow> 'w task) \<Rightarrow> registry
    \<Rightarrow> ((tid \<Rightarrow> 'w task) \<times> registry) outcome" where
  "registry_group name tasks new g reg =
     (let g' = g(new := group_task name tasks) in
      bind_outcome (registry_add (g' new) new reg) (\<lambda>reg'. Return (g', reg')))"

text \<open>\<open>Tasks\<close> ranges over the definitions in the order \<open>ord\<close> and sorts by name.\<close>

definition registry_tasks :: "(tid \<Rightarrow> 'w task) \<Rightarrow> string list \<Rightarrow> registry \<Rightarrow> tid list" where
  "registry_tasks g ord reg =
     sort_key (\<lambda>t. t_name (g t)) (map (\<lambda>n. the (reg_definitions reg n)) ord)"

section \<open>What the checks ensure\<close>

definition flag_keys :: "task_flag \<Rightarrow> string list" where
  "flag_keys f = (if f_long_name f \<noteq> '''' then [f_long_name f] else []) @
     (if f_short_name f \<noteq> 0 then [rune_string (f_short_name f)] else [])"

definition flag_valid :: "string \<Rightarrow> task_flag \<Rightarrow> bool" where
  "flag_valid name f \<longleftrightarrow> name \<noteq> f_long_name f \<and> name \<noteq> rune_string (f_short_name f) \<and>
     flag_keys f \<noteq> [] \<and> f_long_name f \<noteq> ''help'' \<and> rune_string (f_short_name f) \<noteq> ''h'' \<and>
     f_description f \<noteq> '''' \<and> f_value_type f \<in> set flag_types"

lemma check_flag_Return: "check_flag name f = Return u \<longleftrightarrow> flag_valid name f"
  by (auto simp: check_flag_def flag_valid_def flag_keys_def flag_types_def)

definition all_keys :: "task_flag list \<Rightarrow> string list" where
  "all_keys fs = concat (map flag_keys fs)"

lemma all_keys_simps [simp]:
  "all_keys [] = []" "all_keys (f # fs) = flag_keys f @ all_keys fs"
  by (simp_all add: all_keys_def)

text \<open>The index a list of flags builds: each key to its flag.\<close>

definition flag_index :: "task_flag list \<Rightarrow> string \<rightharpoonup> task_flag" where
  "flag_index fs k = find (\<lambda>f. k \<in> set (flag_keys f)) fs"

lemma flag_index_simps [simp]:
  "flag_index [] = Map.empty"
  "flag_index (f # fs) k = (if k \<in> set (flag_keys f) then Some f else flag_index fs k)"
  by (auto simp: flag_index_def)

lemma dom_flag_index: "dom (flag_index fs) = set (all_keys fs)"
  by (induction fs) (auto simp: dom_def split: if_splits)

lemma add_long_name_Return:
  "add_long_name f m = Return m' \<longleftrightarrow>
     (f_long_name f \<noteq> '''' \<longrightarrow> m (f_long_name f) = None) \<and>
     m' = (if f_long_name f \<noteq> '''' then m(f_long_name f \<mapsto> f) else m)"
  by (auto simp: add_long_name_def)

lemma add_short_name_Return:
  "add_short_name f m = Return m' \<longleftrightarrow>
     (f_short_name f \<noteq> 0 \<longrightarrow> m (rune_string (f_short_name f)) = None) \<and>
     m' = (if f_short_name f \<noteq> 0 then m(rune_string (f_short_name f) \<mapsto> f) else m)"
  by (auto simp: add_short_name_def)

definition add_names :: "task_flag \<Rightarrow> (string \<rightharpoonup> task_flag) \<Rightarrow> (string \<rightharpoonup> task_flag) outcome" where
  "add_names f m = bind_outcome (add_long_name f m) (add_short_name f)"

lemma add_names_Return:
  "add_names f m = Return m' \<longleftrightarrow>
     distinct (flag_keys f) \<and> (\<forall>k \<in> set (flag_keys f). m k = None) \<and>
     m' = (\<lambda>k. if k \<in> set (flag_keys f) then Some f else m k)"
proof -
  have "add_names f m = Return m' \<longleftrightarrow> (f_long_name f \<noteq> '''' \<longrightarrow> m (f_long_name f) = None) \<and>
      (let m1 = if f_long_name f \<noteq> '''' then m(f_long_name f \<mapsto> f) else m in
       (f_short_name f \<noteq> 0 \<longrightarrow> m1 (rune_string (f_short_name f)) = None) \<and>
       m' = (if f_short_name f \<noteq> 0 then m1(rune_string (f_short_name f) \<mapsto> f) else m1))"
    unfolding add_names_def bind_outcome_Return_iff add_long_name_Return add_short_name_Return
      Let_def by blast
  note unfolded = this
  have upd1: "m(l \<mapsto> f) = (\<lambda>k. if k = l then Some f else m k)" for l by auto
  have upd2: "m(l \<mapsto> f, k \<mapsto> f) = (\<lambda>x. if x = l \<or> x = k then Some f else m x)" for l k by auto
  show ?thesis
  proof (cases "f_long_name f = ''''")
    case True
    then show ?thesis
      unfolding unfolded by (cases "f_short_name f = 0") (simp_all add: flag_keys_def upd1)
  next
    case False
    then show ?thesis
      unfolding unfolded
      by (cases "f_short_name f = 0";
          cases "f_long_name f = rune_string (f_short_name f)")
        (simp_all add: flag_keys_def upd1 [symmetric] upd2 [symmetric] Let_def)
  qed
qed

lemma add_flags_names:
  "add_flags name (f # fs) m = Return m' \<longleftrightarrow> flag_valid name f \<and>
     (\<exists>m2. add_names f m = Return m2 \<and> add_flags name fs m2 = Return m')"
  by (auto simp: bind_outcome_Return_iff check_flag_Return add_names_def)

lemma add_flags_Return:
  "add_flags name fs m = Return m' \<longleftrightarrow>
     (\<forall>f \<in> set fs. flag_valid name f) \<and> distinct (all_keys fs) \<and>
     (\<forall>k \<in> set (all_keys fs). m k = None) \<and> m' = m ++ flag_index fs"
proof (induction fs arbitrary: m)
  case Nil
  then show ?case by auto
next
  case (Cons f fs)
  let ?m2 = "\<lambda>k. if k \<in> set (flag_keys f) then Some f else m k"
  have eq: "?m2 ++ flag_index fs = m ++ flag_index (f # fs)"
    if "distinct (flag_keys f @ all_keys fs)"
  proof
    fix k
    have "flag_index fs k = None" if "k \<in> set (flag_keys f)"
      using \<open>distinct (flag_keys f @ all_keys fs)\<close> that dom_flag_index [of fs] by auto
    then show "(?m2 ++ flag_index fs) k = (m ++ flag_index (f # fs)) k"
      by (auto simp: map_add_def split: option.splits)
  qed
  have none: "(\<forall>k \<in> set (all_keys fs). ?m2 k = None) \<longleftrightarrow>
      (\<forall>k \<in> set (all_keys fs). m k = None) \<and> set (flag_keys f) \<inter> set (all_keys fs) = {}"
    by (auto split: if_splits)
  have "add_flags name (f # fs) m = Return m' \<longleftrightarrow> flag_valid name f \<and> distinct (flag_keys f) \<and>
      (\<forall>k \<in> set (flag_keys f). m k = None) \<and> add_flags name fs ?m2 = Return m'"
    unfolding add_flags_names add_names_Return by blast
  then show ?case
    unfolding Cons.IH none using eq by (auto simp del: flag_index_simps add_flags.simps)
qed

section \<open>Well-formed registries\<close>

definition task_fine :: "'w task \<Rightarrow> bool" where
  "task_fine task \<longleftrightarrow> (t_run task = None \<or> t_run_with_flags task = None) \<and>
     (\<forall>f \<in> set (t_flags task). flag_valid (t_name task) f) \<and> distinct (all_keys (t_flags task))"

definition reg_wf :: "(tid \<Rightarrow> 'w task) \<Rightarrow> registry \<Rightarrow> bool" where
  "reg_wf g reg \<longleftrightarrow> dom (reg_flags reg) = dom (reg_definitions reg) \<and>
     (\<forall>n t. reg_definitions reg n = Some t \<longrightarrow> t_name (g t) = n \<and> task_fine (g t) \<and>
        reg_flags reg n = Some (flag_index (t_flags (g t))))"

lemma reg_wf_new: "reg_wf g new_registry"
  by (simp add: reg_wf_def new_registry_def)

lemma registry_add_Return:
  "registry_add task t reg = Return reg' \<longleftrightarrow>
     reg_definitions reg (t_name task) = None \<and> task_fine task \<and>
     reg' = reg\<lparr>reg_definitions := (reg_definitions reg)(t_name task \<mapsto> t),
       reg_flags := (reg_flags reg)(t_name task \<mapsto> flag_index (t_flags task))\<rparr>"
  by (auto simp: registry_add_def bind_outcome_Return_iff add_flags_Return task_fine_def)

lemma registry_add_wf:
  assumes "reg_wf g reg" and "registry_add (g t) t reg = Return reg'"
  shows "reg_wf g reg'"
  using assms by (auto simp: reg_wf_def registry_add_Return split: if_splits)

lemma reg_wf_store:
  assumes "reg_wf g reg" and "\<And>n t. reg_definitions reg n = Some t \<Longrightarrow> g' t = g t"
  shows "reg_wf g' reg"
  using assms unfolding reg_wf_def by simp

section \<open>The lookup of flags\<close>

definition reg_find :: "registry \<Rightarrow> string \<Rightarrow> string \<Rightarrow> task_flag option" where
  "reg_find reg task key = Option.bind (reg_flags reg task) (\<lambda>fm. fm key)"

text \<open>What the parsing of flags relies on: a flag is found under all its names, and is valid.\<close>

locale flag_source =
  fixes invar :: "'r \<Rightarrow> bool" and find_flag :: "'r \<Rightarrow> string \<Rightarrow> string \<Rightarrow> task_flag option"
  assumes found_named: "invar r \<Longrightarrow> find_flag r t k = Some f \<Longrightarrow> k \<in> set (flag_keys f)"
    and found_all: "invar r \<Longrightarrow> find_flag r t k = Some f \<Longrightarrow> k' \<in> set (flag_keys f) \<Longrightarrow>
      find_flag r t k' = Some f"
    and found_valid: "invar r \<Longrightarrow> find_flag r t k = Some f \<Longrightarrow> flag_valid t f"
begin

lemma found_long: "invar r \<Longrightarrow> find_flag r t k = Some f \<Longrightarrow> f_long_name f \<noteq> '''' \<Longrightarrow>
    find_flag r t (f_long_name f) = Some f"
  by (rule found_all) (simp_all add: flag_keys_def)

lemma found_short: "invar r \<Longrightarrow> find_flag r t k = Some f \<Longrightarrow> f_short_name f \<noteq> 0 \<Longrightarrow>
    find_flag r t (rune_string (f_short_name f)) = Some f"
  by (rule found_all) (simp_all add: flag_keys_def)

lemma same_key_same_flag: "invar r \<Longrightarrow> find_flag r t k = Some f \<Longrightarrow> find_flag r t k' = Some f' \<Longrightarrow>
    k \<in> set (flag_keys f') \<Longrightarrow> f = f'"
  using found_all [of r t k' f' k] by simp

lemma found_key_cases: "invar r \<Longrightarrow> find_flag r t k = Some f \<Longrightarrow>
    k = f_long_name f \<and> k \<noteq> '''' \<or> k = rune_string (f_short_name f) \<and> f_short_name f \<noteq> 0"
  using found_named [of r t k f] by (auto simp: flag_keys_def split: if_splits)

end

lemma flag_index_Some: "flag_index fs k = Some f \<Longrightarrow> f \<in> set fs \<and> k \<in> set (flag_keys f)"
  by (auto simp: flag_index_def find_Some_iff)

lemma flag_index_keys:
  "distinct (all_keys fs) \<Longrightarrow> f \<in> set fs \<Longrightarrow> k \<in> set (flag_keys f) \<Longrightarrow> flag_index fs k = Some f"
proof (induction fs)
  case Nil
  then show ?case by simp
next
  case (Cons f' fs)
  have "set (flag_keys f) \<subseteq> set (all_keys fs)" if "f \<in> set fs"
    using that by (auto simp: all_keys_def)
  with Cons show ?case by auto
qed

lemma reg_find_Some:
  assumes "reg_wf g reg" and "reg_find reg n k = Some f"
  obtains t where "reg_definitions reg n = Some t" "t_name (g t) = n" "task_fine (g t)"
    "f \<in> set (t_flags (g t))" "k \<in> set (flag_keys f)" "\<And>k'. reg_find reg n k' = flag_index (t_flags (g t)) k'"
proof -
  from assms(2) obtain fm where fm: "reg_flags reg n = Some fm" "fm k = Some f"
    by (auto simp: reg_find_def bind_eq_Some_conv)
  with assms(1) obtain t where t: "reg_definitions reg n = Some t"
    unfolding reg_wf_def by (metis domD domI)
  with assms(1) fm have "t_name (g t) = n" "task_fine (g t)" "fm = flag_index (t_flags (g t))"
    unfolding reg_wf_def by auto
  with that [OF t] fm flag_index_Some show thesis by (fastforce simp: reg_find_def)
qed

interpretation flags: flag_source "reg_wf g" reg_find for g
proof unfold_locales
  fix r t k f
  assume r: "reg_wf g r" "reg_find r t k = Some f"
  obtain tk where tk: "t_name (g tk) = t" "task_fine (g tk)" "f \<in> set (t_flags (g tk))"
    "k \<in> set (flag_keys f)" "\<And>k'. reg_find r t k' = flag_index (t_flags (g tk)) k'"
    using reg_find_Some [OF r] by blast
  show "k \<in> set (flag_keys f)" by (rule tk(4))
  show "flag_valid t f" using tk by (auto simp: task_fine_def)
  show "reg_find r t k' = Some f" if "k' \<in> set (flag_keys f)" for k'
    using tk that flag_index_keys by (simp add: task_fine_def)
qed

section \<open>Properties\<close>

text \<open>
  C19. \<open>Add\<close> accepts exactly the tasks it means to: it returns, and does not panic, if and
  only if the name is free, not both \<open>Run\<close> and \<open>RunWithFlags\<close> are set, every flag has a
  name, a description and a known type, none is called as its task or as the reserved help
  flags, and no two names of flags of the task are equal. Then the task is registered under
  its name, and each of its flags under every name it has.
\<close>

theorem registry_add_exact:
  "registry_add task t reg = Return reg' \<longleftrightarrow>
     reg_definitions reg (t_name task) = None \<and>
     (t_run task = None \<or> t_run_with_flags task = None) \<and>
     (\<forall>f \<in> set (t_flags task). flag_valid (t_name task) f) \<and>
     distinct (concat (map flag_keys (t_flags task))) \<and>
     reg' = reg\<lparr>reg_definitions := (reg_definitions reg)(t_name task \<mapsto> t),
       reg_flags := (reg_flags reg)(t_name task \<mapsto>
         (\<lambda>k. find (\<lambda>f. k \<in> set (flag_keys f)) (t_flags task)))\<rparr>"
proof -
  have "flag_index (t_flags task) = (\<lambda>k. find (\<lambda>f. k \<in> set (flag_keys f)) (t_flags task))"
    by (simp add: flag_index_def fun_eq_iff)
  then show ?thesis by (auto simp: registry_add_Return task_fine_def all_keys_def)
qed

text \<open>A task with two flags, for the witnesses.\<close>

definition demo_flag :: task_flag where
  "demo_flag = \<lparr>f_description = ''which mode'', f_short_name = 109, f_long_name = ''mode'',
     f_default = '''', f_value_type = ''string''\<rparr>"

definition demo_bool :: task_flag where
  "demo_bool = \<lparr>f_description = ''more output'', f_short_name = 0, f_long_name = ''verbose'',
     f_default = ''false'', f_value_type = ''bool''\<rparr>"

definition demo_tasks :: "tid \<Rightarrow> unit task" where
  "demo_tasks t = zero_task\<lparr>t_name := (if t = 0 then ''build'' else ''all''),
     t_flags := (if t = 0 then [demo_flag, demo_bool] else []), t_hidden := t = 1\<rparr>"

lemma demo_fine: "task_fine (demo_tasks t)"
  by (simp add: task_fine_def demo_tasks_def zero_task_def demo_flag_def demo_bool_def
      flag_valid_def flag_keys_def all_keys_def flag_types_def flag_type_defs rune_string_def
      utf8_bytes_def char_of_def)

definition demo_registry :: registry where
  "demo_registry = \<lparr>reg_definitions = [''build'' \<mapsto> 0, ''all'' \<mapsto> 1],
     reg_flags = [''build'' \<mapsto> flag_index [demo_flag, demo_bool], ''all'' \<mapsto> Map.empty]\<rparr>"

lemma demo_registry_wf: "reg_wf demo_tasks demo_registry"
  using demo_fine by (auto simp: reg_wf_def demo_registry_def demo_tasks_def zero_task_def)

theorem registry_add_exact_witness:
  "registry_add (demo_tasks 0) 0 new_registry = Return (new_registry\<lparr>
     reg_definitions := [''build'' \<mapsto> 0],
     reg_flags := [''build'' \<mapsto> (\<lambda>k. find (\<lambda>f. k \<in> set (flag_keys f)) [demo_flag, demo_bool])]\<rparr>)"
  unfolding registry_add_exact
  using demo_fine [of 0]
  by (simp add: task_fine_def all_keys_def new_registry_def)
    (simp add: demo_tasks_def zero_task_def)

text \<open>
  \<open>Tasks\<close> returns every registered task once, in strictly ascending order of the names,
  whatever the order in which the map of definitions is ranged over.
\<close>

lemma registry_tasks_sorted:
  assumes "reg_wf g reg" and "is_order ord (reg_definitions reg)"
  shows "set (registry_tasks g ord reg) = ran (reg_definitions reg) \<and>
    sorted_wrt (<) (map (\<lambda>t. t_name (g t)) (registry_tasks g ord reg)) \<and>
    (\<forall>ord'. is_order ord' (reg_definitions reg) \<longrightarrow>
       registry_tasks g ord' reg = registry_tasks g ord reg)"
proof -
  let ?d = "\<lambda>n. the (reg_definitions reg n)" and ?key = "\<lambda>t. t_name (g t)"
  have name: "?key (?d n) = n" if "n \<in> dom (reg_definitions reg)" for n
    using assms(1) that by (auto simp: reg_wf_def)
  have names: "map ?key (map ?d o1) = o1" if "is_order o1 (reg_definitions reg)" for o1
    using that name by (auto simp: is_order_def intro: map_idI)
  have sorted: "sorted_wrt (<) (map ?key (registry_tasks g o1 reg)) \<and>
      set (registry_tasks g o1 reg) = ran (reg_definitions reg)"
    if o1: "is_order o1 (reg_definitions reg)" for o1
  proof
    have "distinct (map ?key (map ?d o1))" using names [OF o1] o1 by (simp add: is_order_def)
    then have "inj_on ?key (set (map ?d o1))" "distinct (map ?d o1)"
      by (simp_all only: distinct_map)
    then have "distinct (map ?key (registry_tasks g o1 reg))"
      unfolding registry_tasks_def distinct_map set_sort distinct_sort by blast
    moreover have "sorted (map ?key (registry_tasks g o1 reg))"
      unfolding registry_tasks_def by (rule sorted_sort_key)
    ultimately show "sorted_wrt (<) (map ?key (registry_tasks g o1 reg))"
      by (simp add: strict_sorted_iff)
    show "set (registry_tasks g o1 reg) = ran (reg_definitions reg)"
      using o1 by (auto simp: registry_tasks_def is_order_def ran_def dom_def image_def)
  qed
  have inj: "inj_on ?key (ran (reg_definitions reg))"
    using assms(1) by (auto simp: reg_wf_def ran_def inj_on_def)
  have "registry_tasks g ord' reg = registry_tasks g ord reg"
    if o': "is_order ord' (reg_definitions reg)" for ord'
  proof -
    have "map ?key (registry_tasks g ord' reg) = map ?key (registry_tasks g ord reg)"
      using sorted [OF o'] sorted [OF assms(2)]
      by (intro strict_sorted_equal) (auto simp: image_def)
    moreover have "inj_on ?key (set (registry_tasks g ord' reg) \<union> set (registry_tasks g ord reg))"
      using sorted [OF o'] sorted [OF assms(2)] inj by simp
    ultimately show ?thesis by (simp only: inj_on_map_eq_map)
  qed
  with sorted [OF assms(2)] show ?thesis by simp
qed

lemma registry_tasks_sorted_example:
  "registry_tasks demo_tasks [''build'', ''all''] demo_registry = [1, 0] \<and>
   sorted_wrt (<) (map (\<lambda>t. t_name (demo_tasks t))
     (registry_tasks demo_tasks [''build'', ''all''] demo_registry))"
proof -
  have ord: "is_order [''build'', ''all''] (reg_definitions demo_registry)"
    by (auto simp: is_order_def demo_registry_def split: if_splits)
  have "registry_tasks demo_tasks [''build'', ''all''] demo_registry = [1, 0]"
    by (simp add: registry_tasks_def demo_registry_def demo_tasks_def zero_task_def less_char_def less_eq_char_def)
  with registry_tasks_sorted [OF demo_registry_wf ord] show ?thesis by blast
qed

end
