(* ===== verification/Flags.thy ===== *)
theory Flags
  imports Registry "HOL-Library.Signed_Division"
begin

text \<open>
  The parsing of the flags passed to a task (\<open>executor.go\<close>, lines 339 to 584): the check of
  a flag's name, the defaults, the passed values with their typed getters, and the two
  entries a flag with two names gets. \<open>strconv.ParseBool\<close> and \<open>strconv.Atoi\<close> are modelled;
  \<open>strconv.ParseFloat\<close>, \<open>time.ParseDuration\<close> and the texts of parse errors are parameters.
\<close>

section \<open>Values\<close>

text \<open>
  \<open>parse_bool\<close> is \<open>strconv.ParseBool\<close>; \<open>atoi\<close> is \<open>strconv.Atoi\<close>: an optional sign, at
  least one digit, and the range of a 64-bit int.
\<close>

definition parse_bool :: "string \<Rightarrow> bool option" where
  "parse_bool s =
     (if s \<in> {''1'', ''t'', ''T'', ''TRUE'', ''true'', ''True''} then Some True
      else if s \<in> {''0'', ''f'', ''F'', ''FALSE'', ''false'', ''False''} then Some False
      else None)"

definition digit_value :: "char \<Rightarrow> int option" where
  "digit_value c = (let n = (of_char c :: int) in if 48 \<le> n \<and> n \<le> 57 then Some (n - 48) else None)"

fun parse_digits :: "int \<Rightarrow> string \<Rightarrow> int option" where
  "parse_digits acc [] = Some acc"
| "parse_digits acc (c # cs) =
     (case digit_value c of None \<Rightarrow> None | Some d \<Rightarrow> parse_digits (10 * acc + d) cs)"

definition parse_unsigned :: "string \<Rightarrow> int option" where
  "parse_unsigned s = (if s = '''' then None else parse_digits 0 s)"

definition int_range :: "int \<Rightarrow> int option" where
  "int_range n = (if - (2 ^ 63) \<le> n \<and> n < 2 ^ 63 then Some n else None)"

fun atoi :: "string \<Rightarrow> int option" where
  "atoi (CHR ''+'' # s) = Option.bind (parse_unsigned s) int_range"
| "atoi (CHR ''-'' # s) = Option.bind (map_option uminus (parse_unsigned s)) int_range"
| "atoi s = Option.bind (parse_unsigned s) int_range"

record parsers =
  pr_float :: "string \<Rightarrow> 64 word option"
  pr_duration :: "string \<Rightarrow> 64 word option"
  pr_error :: "string \<Rightarrow> string \<Rightarrow> string" \<comment> \<open>the text of a type's parse error\<close>

section \<open>Getters\<close>

definition getter_name :: "string \<Rightarrow> string" where
  "getter_name ty =
     (if ty = StringTypeFlag then ''StringVal'' else if ty = BoolTypeFlag then ''BoolVal''
      else if ty = IntTypeFlag then ''IntVal'' else if ty = Float64TypeFlag then ''Float64Val''
      else if ty = DurationTypeFlag then ''DurationVal'' else '''')"

definition type_message :: "string \<Rightarrow> task_flag \<Rightarrow> string" where
  "type_message key f = ''The type for the `'' @ key @ ''` flag is `'' @ f_value_type f @
     ''`. Please use `'' @ getter_name (f_value_type f) @ ''`''"

text \<open>A getter panics on a flag of another type; \<open>value\<close> says what it reads.\<close>

definition getter :: "string \<Rightarrow> string \<Rightarrow> task_flag \<Rightarrow> 'a option outcome \<Rightarrow> 'a option outcome" where
  "getter ty key f value = (if f_value_type f \<noteq> ty then Panics (type_message key f) else value)"

definition parsed :: "string \<Rightarrow> (string \<Rightarrow> 'a option) \<Rightarrow> (string \<Rightarrow> string) \<Rightarrow> string \<Rightarrow> 'a option outcome" where
  "parsed what parse err s = (case parse s of
     None \<Rightarrow> Panics (''Please pass '' @ what @ '' as the value. Err: '' @ err s)
   | Some v \<Rightarrow> Return (Some v))"

text \<open>The entry of a flag that was not passed: its getters read the default.\<close>

definition or_nil :: "string \<Rightarrow> 'a option outcome \<Rightarrow> 'a option outcome" where
  "or_nil s value = (if s \<noteq> '''' then value else Return None)"

definition default_arg :: "parsers \<Rightarrow> string \<Rightarrow> task_flag \<Rightarrow> flag_arg" where
  "default_arg p key f =
     \<lparr>fa_value = None,
      fa_string_val = getter StringTypeFlag key f (or_nil (f_default f) (Return (Some (f_default f)))),
      fa_bool_val = getter BoolTypeFlag key f
        (or_nil (f_default f) (parsed ''a bool'' parse_bool (pr_error p BoolTypeFlag) (f_default f))),
      fa_int_val = getter IntTypeFlag key f
        (or_nil (f_default f) (parsed ''an int'' atoi (pr_error p IntTypeFlag) (f_default f))),
      fa_float64_val = getter Float64TypeFlag key f
        (or_nil (f_default f) (parsed ''a float64'' (pr_float p) (pr_error p Float64TypeFlag) (f_default f))),
      fa_duration_val = getter DurationTypeFlag key f
        (or_nil (f_default f) (parsed ''a duration'' (pr_duration p) (pr_error p DurationTypeFlag) (f_default f)))\<rparr>"

definition default_flag_map :: "parsers \<Rightarrow> registry \<Rightarrow> string \<Rightarrow> string \<rightharpoonup> flag_arg" where
  "default_flag_map p reg task key = map_option (default_arg p key) (reg_find reg task key)"

definition strip_quotes :: "string \<Rightarrow> string" where
  "strip_quotes s =
     (if 2 \<le> length s \<and> has_prefix s [dquote] \<and> has_suffix s [dquote]
      then take (length s - 2) (drop 1 s) else s)"

text \<open>The entry of a flag that was passed with the value \<open>v\<close>.\<close>

definition passed_arg :: "parsers \<Rightarrow> string \<Rightarrow> task_flag \<Rightarrow> string \<Rightarrow> flag_arg" where
  "passed_arg p key f v =
     (let s = strip_quotes v in
      \<lparr>fa_value = Some v,
       fa_string_val = getter StringTypeFlag key f (Return (Some s)),
       fa_bool_val = getter BoolTypeFlag key f (parsed ''a bool'' parse_bool (pr_error p BoolTypeFlag) s),
       fa_int_val = getter IntTypeFlag key f (parsed ''an int'' atoi (pr_error p IntTypeFlag) s),
       fa_float64_val = getter Float64TypeFlag key f
         (parsed ''a float64'' (pr_float p) (pr_error p Float64TypeFlag) s),
       fa_duration_val = getter DurationTypeFlag key f
         (parsed ''a duration'' (pr_duration p) (pr_error p DurationTypeFlag) s)\<rparr>)"

section \<open>Names and the loop over the flags\<close>

definition supported_key :: "registry \<Rightarrow> string \<Rightarrow> string \<Rightarrow> string \<Rightarrow> (string \<times> string) + string" where
  "supported_key reg task flag key =
     (if reg_find reg task key \<noteq> None then Inr key
      else Inl (flag, ''Unsupported flag: '' @ flag))"

definition verified_key :: "registry \<Rightarrow> string \<Rightarrow> string \<Rightarrow> (string \<times> string) + string" where
  "verified_key reg task flag =
     (if has_prefix flag ''--'' then
        (let key = drop 2 flag in
         if length key \<le> 1 then Inl (flag, ''Unknown flag: `'' @ key @ ''`'')
         else supported_key reg task flag key)
      else if has_prefix flag ''-'' then
        (let key = drop 1 flag in
         if length key \<noteq> 1 then Inl (flag, ''Did you mean `--'' @ key @ ''` (with two dashes)?'')
         else supported_key reg task flag key)
      else Inl (flag, ''LongName flags must be prefixed with `--`. ShortName flags must be prefixed with `-`''))"

definition other_key :: "task_flag \<Rightarrow> string \<Rightarrow> string option" where
  "other_key f key =
     (if length key = 1 \<and> key \<noteq> f_long_name f \<and> f_long_name f \<noteq> '''' then Some (f_long_name f)
      else if 1 < length key \<and> key = f_long_name f \<and> f_short_name f \<noteq> 0
      then Some (rune_string (f_short_name f)) else None)"

definition set_flag ::
  "parsers \<Rightarrow> registry \<Rightarrow> string \<Rightarrow> string \<Rightarrow> (string \<rightharpoonup> flag_arg) \<Rightarrow> (string \<rightharpoonup> flag_arg) outcome" where
  "set_flag p reg task flag m =
     (let parts = split_on (CHR ''='') flag in
      case verified_key reg task (hd parts) of
        Inl (key, err) \<Rightarrow>
          Panics (''Unsupported flag passed to '' @ task @ '': `'' @ key @ ''`. See error: '' @ err)
      | Inr key \<Rightarrow>
          if 2 < length parts \<or> length parts = 0
          then Panics (''Invalid flag syntax for '' @ task @ '': `'' @ flag @ ''`'')
          else
            (let v = (if length parts = 2 then parts ! 1 else '''');
                 f = the (reg_find reg task key) in
             if v = '''' then Return m
             else
               (let a = passed_arg p key f v; m1 = m(key \<mapsto> a) in
                Return (case other_key f key of None \<Rightarrow> m1 | Some k \<Rightarrow> m1(k \<mapsto> a)))))"

fun set_flags ::
  "parsers \<Rightarrow> registry \<Rightarrow> string \<Rightarrow> string list \<Rightarrow> (string \<rightharpoonup> flag_arg) \<Rightarrow> (string \<rightharpoonup> flag_arg) outcome" where
  "set_flags p reg task [] m = Return m"
| "set_flags p reg task (flag # flags) m =
     bind_outcome (set_flag p reg task flag m) (set_flags p reg task flags)"

definition parse_flags ::
  "parsers \<Rightarrow> registry \<Rightarrow> string \<Rightarrow> string list \<Rightarrow> (string \<rightharpoonup> flag_arg) outcome" where
  "parse_flags p reg task flags = set_flags p reg task flags (default_flag_map p reg task)"

section \<open>The entries of the result\<close>

text \<open>Client facts of the lookup's interface: the second entry belongs to the same flag.\<close>

context flag_source
begin

lemma other_key_found:
  assumes "invar r" and "find_flag r t k = Some f" and "other_key f k = Some k'"
  shows "find_flag r t k' = Some f"
  using found_long [OF assms(1,2)] found_short [OF assms(1,2)] assms(3)
  by (auto simp: other_key_def split: if_splits)

lemma other_key_sym:
  assumes "invar r" and "find_flag r t k = Some f" and "unat (f_short_name f) < 128"
    and "length (f_long_name f) \<noteq> 1"
  shows "other_key f k = Some k' \<longleftrightarrow> k' \<in> set (flag_keys f) \<and> k' \<noteq> k"
proof -
  have short: "length (rune_string (f_short_name f)) = 1"
    using assms(3) by (simp add: length_rune_string_ascii)
  moreover have "1 < length (f_long_name f)" if "f_long_name f \<noteq> ''''"
    using that assms(4) by (cases "f_long_name f") auto
  ultimately show ?thesis
    using found_key_cases [OF assms(1,2)] assms(4)
    by (auto simp: other_key_def flag_keys_def split: if_splits)
qed

end

text \<open>
  \<open>flag_parts\<close>: the key, the flag and the value of an argument that is accepted;
  \<open>last_passed\<close>: the last argument that sets the entry of \<open>k\<close>.
\<close>

definition flag_parts :: "registry \<Rightarrow> string \<Rightarrow> string \<Rightarrow> (string \<times> string) option" where
  "flag_parts reg task arg =
     (let parts = split_on (CHR ''='') arg in
      case verified_key reg task (hd parts) of
        Inl e \<Rightarrow> None
      | Inr key \<Rightarrow>
          if length parts = 1 then Some (key, '''')
          else if length parts = 2 then Some (key, parts ! 1) else None)"

definition sets_entry :: "registry \<Rightarrow> string \<Rightarrow> string \<Rightarrow> string \<Rightarrow> bool" where
  "sets_entry reg task key k \<longleftrightarrow> k = key \<or> other_key (the (reg_find reg task key)) key = Some k"

fun last_passed :: "registry \<Rightarrow> string \<Rightarrow> string list \<Rightarrow> string \<Rightarrow> (string \<times> string) option" where
  "last_passed reg task [] k = None"
| "last_passed reg task (arg # args) k =
     (case last_passed reg task args k of
        Some kv \<Rightarrow> Some kv
      | None \<Rightarrow>
          (case flag_parts reg task arg of
             None \<Rightarrow> None
           | Some (key, v) \<Rightarrow> if v \<noteq> '''' \<and> sets_entry reg task key k then Some (key, v) else None))"

lemma set_flag_parts:
  "set_flag p reg task arg m = Return m' \<longleftrightarrow>
     (\<exists>key v. flag_parts reg task arg = Some (key, v) \<and>
        m' = (\<lambda>k. if v \<noteq> '''' \<and> sets_entry reg task key k
                   then Some (passed_arg p key (the (reg_find reg task key)) v) else m k))"
proof -
  define P where "P = split_on (CHR ''='') arg"
  have ne: "P \<noteq> []" by (simp add: P_def)
  have upd: "(case other_key f key of None \<Rightarrow> m(key \<mapsto> a) | Some k \<Rightarrow> m(key \<mapsto> a, k \<mapsto> a)) =
      (\<lambda>k. if k = key \<or> other_key f key = Some k then Some a else m k)" for f key a
    by (auto split: option.splits)
  show ?thesis
  proof (cases "verified_key reg task (hd P)")
    case (Inl e)
    then show ?thesis
      by (cases e) (simp add: set_flag_def flag_parts_def P_def [symmetric])
  next
    case (Inr key)
    note unf = set_flag_def flag_parts_def P_def [symmetric] Let_def Inr
    from ne consider x where "P = [x]" | x v where "P = [x, v]" | "2 < length P"
      by (cases P; cases "tl P"; cases "tl (tl P)") auto
    then show ?thesis
    proof cases
      case 1
      with Inr show ?thesis unfolding unf by auto
    next
      case 2
      with Inr show ?thesis unfolding unf by (auto simp: upd sets_entry_def)
    next
      case 3
      with Inr show ?thesis unfolding unf by simp
    qed
  qed
qed

lemma set_flags_last:
  "set_flags p reg task args m = Return m' \<Longrightarrow>
     m' k = (case last_passed reg task args k of
       Some (key, v) \<Rightarrow> Some (passed_arg p key (the (reg_find reg task key)) v) | None \<Rightarrow> m k)"
proof (induction args arbitrary: m)
  case Nil
  then show ?case by simp
next
  case (Cons arg args)
  then obtain m1 where m1: "set_flag p reg task arg m = Return m1"
    and rest: "set_flags p reg task args m1 = Return m'"
    by (auto simp: bind_outcome_Return_iff)
  from m1 obtain key v where parts: "flag_parts reg task arg = Some (key, v)"
    and "m1 k = (if v \<noteq> '''' \<and> sets_entry reg task key k
      then Some (passed_arg p key (the (reg_find reg task key)) v) else m k)"
    unfolding set_flag_parts by auto
  with Cons.IH [OF rest] show ?case by (auto split: option.splits)
qed

lemma set_flag_panics:
  "(\<exists>msg. set_flag p reg task arg m = Panics msg) \<longleftrightarrow> flag_parts reg task arg = None"
proof (cases "flag_parts reg task arg")
  case None
  then have "set_flag p reg task arg m \<noteq> Return m'" for m' by (simp add: set_flag_parts)
  with None show ?thesis by (cases "set_flag p reg task arg m") auto
next
  case (Some kv)
  then obtain m' where "set_flag p reg task arg m = Return m'"
    by (cases kv) (auto simp: set_flag_parts)
  with Some show ?thesis by simp
qed

lemma set_flags_panics:
  "(\<exists>msg. set_flags p reg task args m = Panics msg) \<longleftrightarrow>
     (\<exists>arg \<in> set args. flag_parts reg task arg = None)"
proof (induction args arbitrary: m)
  case Nil
  then show ?case by simp
next
  case (Cons arg args)
  show ?case
  proof (cases "set_flag p reg task arg m")
    case (Return m1)
    moreover from this have "flag_parts reg task arg \<noteq> None" by (auto simp: set_flag_parts)
    ultimately show ?thesis using Cons.IH by auto
  next
    case (Panics msg)
    then have "flag_parts reg task arg = None" using set_flag_panics by blast
    with Panics show ?thesis by simp
  qed
qed

lemma verified_key_Inr:
  "verified_key reg task s = Inr k \<longleftrightarrow> reg_find reg task k \<noteq> None \<and>
     (s = ''--'' @ k \<and> 1 < length k \<or> s = ''-'' @ k \<and> length k = 1 \<and> k \<noteq> ''-'')"
proof (cases "has_prefix s ''--''")
  case True
  then obtain r where r: "s = ''--'' @ r" by (auto simp: prefix_def)
  then show ?thesis
    by (auto simp: verified_key_def supported_key_def Let_def)
next
  case False
  show ?thesis
  proof (cases "has_prefix s ''-''")
    case True
    then obtain r where r: "s = ''-'' @ r" by (auto simp: prefix_def)
    with False have "r \<noteq> ''-''" by auto
    with r False show ?thesis
      by (cases r) (auto simp: verified_key_def supported_key_def Let_def)
  next
    case False
    with \<open>\<not> has_prefix s ''--''\<close> show ?thesis
      by (auto simp: verified_key_def)
  qed
qed

section \<open>Properties\<close>

text \<open>
  C20. The parsing of a task's flags succeeds exactly on well-formed arguments: it panics if
  and only if some argument is not of the form \<open>--key\<close>, \<open>-k\<close>, \<open>--key=value\<close> or \<open>-k=value\<close>
  with a key of two or more bytes after two dashes or of one byte after one dash, the key
  one the task supports, and no second equals sign.
\<close>

theorem parse_flags_panics_iff:
  "(\<exists>msg. parse_flags p reg task args = Panics msg) \<longleftrightarrow>
     (\<exists>arg \<in> set args. \<not> (\<exists>key. reg_find reg task key \<noteq> None \<and> CHR ''='' \<notin> set key \<and>
        (\<exists>name. (name = ''--'' @ key \<and> 1 < length key \<or>
                 name = ''-'' @ key \<and> length key = 1 \<and> key \<noteq> ''-'') \<and>
           (arg = name \<or> (\<exists>v. CHR ''='' \<notin> set v \<and> arg = name @ ''='' @ v)))))"
proof -
  have "flag_parts reg task arg \<noteq> None \<longleftrightarrow>
      (\<exists>key. reg_find reg task key \<noteq> None \<and> CHR ''='' \<notin> set key \<and>
        (\<exists>name. (name = ''--'' @ key \<and> 1 < length key \<or>
                 name = ''-'' @ key \<and> length key = 1 \<and> key \<noteq> ''-'') \<and>
           (arg = name \<or> (\<exists>v. CHR ''='' \<notin> set v \<and> arg = name @ ''='' @ v))))"
    (is "?L \<longleftrightarrow> ?R") for arg
  proof
    assume ?L
    then obtain key where key: "verified_key reg task (hd (split_on (CHR ''='') arg)) = Inr key"
      and len: "length (split_on (CHR ''='') arg) = 1 \<or> length (split_on (CHR ''='') arg) = 2"
      by (auto simp: flag_parts_def Let_def split: sum.splits if_splits)
    define name where "name = hd (split_on (CHR ''='') arg)"
    have ne: "CHR ''='' \<notin> set name"
      unfolding name_def by (intro split_on_parts [of _ _ arg] hd_in_set) simp
    from len consider "split_on (CHR ''='') arg = [name]"
      | v where "split_on (CHR ''='') arg = [name, v]"
      unfolding name_def by (auto simp: length_Suc_conv numeral_2_eq_2)
    then have "arg = name \<or> (\<exists>v. CHR ''='' \<notin> set v \<and> arg = name @ ''='' @ v)"
    proof cases
      case 1
      then show ?thesis using join_split [of "CHR ''=''" arg] by simp
    next
      case (2 v)
      then have "CHR ''='' \<notin> set v" using split_on_parts [of v "CHR ''=''" arg] by simp
      with 2 show ?thesis using join_split [of "CHR ''=''" arg] by auto
    qed
    moreover from key have "reg_find reg task key \<noteq> None \<and> (name = ''--'' @ key \<and> 1 < length key \<or>
        name = ''-'' @ key \<and> length key = 1 \<and> key \<noteq> ''-'')"
      unfolding name_def verified_key_Inr .
    ultimately show ?R using ne by auto
  next
    assume ?R
    then obtain key name where key: "reg_find reg task key \<noteq> None" "CHR ''='' \<notin> set key"
      and name: "name = ''--'' @ key \<and> 1 < length key \<or>
        name = ''-'' @ key \<and> length key = 1 \<and> key \<noteq> ''-''"
      and arg: "arg = name \<or> (\<exists>v. CHR ''='' \<notin> set v \<and> arg = name @ ''='' @ v)"
      by blast
    have "CHR ''='' \<notin> set name" using key(2) name by auto
    with arg have "split_on (CHR ''='') arg = [name] \<or> (\<exists>v. split_on (CHR ''='') arg = [name, v])"
      using split_on_append [of "CHR ''=''" name] by (auto simp: split_on_no_sep)
    moreover have "verified_key reg task name = Inr key"
      using key(1) name unfolding verified_key_Inr by blast
    ultimately show ?L by (auto simp: flag_parts_def)
  qed
  then have "flag_parts reg task arg = None \<longleftrightarrow> \<not> (\<exists>key. reg_find reg task key \<noteq> None \<and> CHR ''='' \<notin> set key \<and>
        (\<exists>name. (name = ''--'' @ key \<and> 1 < length key \<or>
                 name = ''-'' @ key \<and> length key = 1 \<and> key \<noteq> ''-'') \<and>
           (arg = name \<or> (\<exists>v. CHR ''='' \<notin> set v \<and> arg = name @ ''='' @ v))))" for arg
    by (metis (no_types))
  then show ?thesis unfolding parse_flags_def set_flags_panics by (simp only:)
qed

text \<open>
  C21. What the parsing returns: the entry of a key comes from the last argument that passes
  a non-empty value for the flag's key, or for its other name; a key no argument passes a
  value for keeps the entry of the flag's default, and a key that is not supported has none.
\<close>

theorem parse_flags_entries:
  assumes "parse_flags p reg task args = Return m"
  shows "m k = (case last_passed reg task args k of
      Some (key, v) \<Rightarrow> Some (passed_arg p key (the (reg_find reg task key)) v)
    | None \<Rightarrow> map_option (default_arg p k) (reg_find reg task k))"
  using set_flags_last [OF assms [unfolded parse_flags_def], of k]
  by (simp add: default_flag_map_def split: option.splits)

definition demo_parsers :: parsers where
  "demo_parsers = \<lparr>pr_float = (\<lambda>_. None), pr_duration = (\<lambda>_. None), pr_error = (\<lambda>_ _. '''')\<rparr>"

lemma rune_m: "rune_string 109 = ''m''"
  by code_simp

lemma rune_zero: "rune_string 0 = [CHR 0x00]"
  by code_simp

lemmas flags_eval =
  parse_flags_def set_flag_def verified_key_def supported_key_def Let_def reg_find_def
  demo_registry_def demo_flag_def demo_bool_def flag_keys_def rune_m rune_zero other_key_def
  default_flag_map_def

lemma demo_parse:
  "\<exists>m. parse_flags demo_parsers demo_registry ''build'' [''--mode=a'', ''-m=b''] = Return m"
  by (simp add: flags_eval)

theorem parse_flags_entries_witness:
  "\<exists>m a. parse_flags demo_parsers demo_registry ''build'' [''--mode=a'', ''-m=b''] = Return m \<and>
     m ''mode'' = Some a \<and> fa_value a = Some ''b''"
proof -
  obtain m where m: "parse_flags demo_parsers demo_registry ''build'' [''--mode=a'', ''-m=b''] = Return m"
    using demo_parse by blast
  have "last_passed demo_registry ''build'' [''--mode=a'', ''-m=b''] ''mode'' = Some (''m'', ''b'')"
    by (simp add: flags_eval flag_parts_def sets_entry_def)
  with parse_flags_entries [OF m, of "''mode''"] m show ?thesis
    by (simp add: passed_arg_def Let_def)
qed

lemma flag_parts_found:
  assumes "flag_parts reg task arg = Some (key, v)"
  shows "reg_find reg task key \<noteq> None"
  using assms verified_key_Inr [of reg task _ key]
  by (auto simp: flag_parts_def Let_def split: sum.splits if_splits)

lemma sets_entry_keys:
  assumes wf: "reg_wf g reg" and f: "reg_find reg task k = Some f" and k': "k' \<in> set (flag_keys f)"
    and ascii: "unat (f_short_name f) < 128" "length (f_long_name f) \<noteq> 1"
    and key: "reg_find reg task key = Some f0"
  shows "sets_entry reg task key k \<longleftrightarrow> sets_entry reg task key k'"
proof -
  have f': "reg_find reg task k' = Some f" by (rule flags.found_all [OF wf f k'])
  have k: "k \<in> set (flag_keys f)" by (rule flags.found_named [OF wf f])
  have "f0 = f \<and> x \<in> set (flag_keys f)"
    if "sets_entry reg task key x" "reg_find reg task x = Some f" for x
    using that key flags.other_key_found [OF wf key] flags.found_named [OF wf that(2)]
    by (auto simp: sets_entry_def)
  moreover have "sets_entry reg task key x" if "f0 = f" "x \<in> set (flag_keys f)" for x
    using that key flags.other_key_sym [OF wf key] ascii by (auto simp: sets_entry_def)
  ultimately show ?thesis using f f' k k' by blast
qed

text \<open>
  A flag can be read under either of its names, whichever name it was passed under: when
  an argument passes a value for a flag with an ASCII short name and a long name of two or
  more bytes, the entries of all its names in the result are the same.
\<close>

lemma flag_names_agree:
  assumes "reg_wf g reg" and "parse_flags p reg task args = Return m"
    and "reg_find reg task k = Some f" and "k' \<in> set (flag_keys f)"
    and "unat (f_short_name f) < 128" and "length (f_long_name f) \<noteq> 1"
    and "last_passed reg task args k \<noteq> None"
  shows "m k' = m k"
proof -
  have "last_passed reg task args k' = last_passed reg task args k"
  proof (induction args)
    case Nil
    then show ?case by simp
  next
    case (Cons arg args)
    have "sets_entry reg task key k \<longleftrightarrow> sets_entry reg task key k'"
      if "flag_parts reg task arg = Some (key, v)" for key v
      using flag_parts_found [OF that] sets_entry_keys [OF assms(1,3-6)] by blast
    with Cons.IH show ?case by (auto split: option.splits)
  qed
  with assms(7) set_flags_last [OF assms(2) [unfolded parse_flags_def]] show ?thesis
    by (auto split: option.splits)
qed

lemma flag_names_agree_example:
  "\<exists>m. parse_flags demo_parsers demo_registry ''build'' [''--mode=a'', ''-m=b''] = Return m \<and>
     m ''m'' = m ''mode''"
proof -
  obtain m where m: "parse_flags demo_parsers demo_registry ''build'' [''--mode=a'', ''-m=b''] = Return m"
    using demo_parse by blast
  have f: "reg_find demo_registry ''build'' ''mode'' = Some demo_flag"
    by (simp add: reg_find_def demo_registry_def demo_flag_def flag_keys_def)
  have l: "last_passed demo_registry ''build'' [''--mode=a'', ''-m=b''] ''mode'' \<noteq> None"
    by (simp add: flags_eval flag_parts_def sets_entry_def)
  have "''m'' \<in> set (flag_keys demo_flag)" "unat (f_short_name demo_flag) < 128"
    "length (f_long_name demo_flag) \<noteq> 1"
    by (simp_all add: demo_flag_def flag_keys_def rune_m)
  from flag_names_agree [OF demo_registry_wf m f this l] m show ?thesis by blast
qed

text \<open>
  A flag that is passed without a value changes nothing: an accepted argument without an
  equals sign, or with nothing after it, leaves the result as it was. So a boolean flag that
  is passed bare reads as its default, not as true, although the documentation of the flags
  of a task lists \<open>-bool\<close> among the forms of a flag.
\<close>

lemma bare_flag_ignored:
  "set_flag p reg task (''--'' @ key) m = Return m' \<Longrightarrow> CHR ''='' \<notin> set key \<Longrightarrow> m' = m"
  by (auto simp: set_flag_parts flag_parts_def Let_def split_on_no_sep split: sum.splits if_splits)

lemma demo_bare: "set_flag demo_parsers demo_registry ''build'' (''--'' @ ''verbose'') m = Return m"
  by (simp add: flags_eval)

lemma bare_flag_ignored_example:
  "\<exists>m. set_flag demo_parsers demo_registry ''build'' (''--'' @ ''verbose'')
       (default_flag_map demo_parsers demo_registry ''build'') = Return m \<and>
     fa_bool_val (the (m ''verbose'')) = Return (Some False)"
proof -
  let ?m = "default_flag_map demo_parsers demo_registry ''build''"
  have "fa_bool_val (the (?m ''verbose'')) = Return (Some False)"
    by (simp add: flags_eval default_arg_def getter_def flag_type_defs or_nil_def parsed_def parse_bool_def)
  then show ?thesis
    using bare_flag_ignored [OF demo_bare [of ?m]] demo_bare [of ?m] by auto
qed

lemma strip_quotes_quoted: "strip_quotes (dquote # s @ [dquote]) = s"
  by (simp add: strip_quotes_def suffix_def)

lemma strip_quotes_plain: "\<not> has_prefix s [dquote] \<Longrightarrow> strip_quotes s = s"
  by (simp add: strip_quotes_def)

text \<open>
  The typed getters: the entry of a flag that was passed with a value, quoted or not,
  reads as that value through the getter of the flag's type, and every other getter panics.
\<close>

lemma passed_string_getters:
  assumes "f_value_type f = ''string''" and "dquote \<notin> set v"
  shows "fa_string_val (passed_arg p key f v) = Return (Some v) \<and>
    fa_string_val (passed_arg p key f (dquote # v @ [dquote])) = Return (Some v) \<and>
    fa_bool_val (passed_arg p key f v) = Panics (type_message key f) \<and>
    fa_int_val (passed_arg p key f v) = Panics (type_message key f) \<and>
    fa_float64_val (passed_arg p key f v) = Panics (type_message key f) \<and>
    fa_duration_val (passed_arg p key f v) = Panics (type_message key f)"
proof -
  have "strip_quotes v = v" using assms(2) by (intro strip_quotes_plain) (cases v, auto)
  then show ?thesis
    using assms(1)
    by (simp add: passed_arg_def Let_def getter_def flag_type_defs strip_quotes_quoted)
qed

lemma passed_string_getters_example:
  "fa_string_val (passed_arg demo_parsers ''mode'' demo_flag ''dev'') = Return (Some ''dev'')"
  using passed_string_getters [of demo_flag "''dev''" demo_parsers "''mode''"]
  by (simp add: demo_flag_def)

end
