(* ===== verification/Format.thy ===== *)
theory Format
  imports Prelude
begin

text \<open>
  The conversions of Go's package \<open>fmt\<close> that the messages of the program use: a
  non-negative number in decimal, and a boolean.
\<close>

definition digit_char :: "nat \<Rightarrow> char" where
  "digit_char d = char_of (48 + d)"

fun nat_string :: "nat \<Rightarrow> string" where
  "nat_string n = (if n < 10 then [digit_char n] else nat_string (n div 10) @ [digit_char (n mod 10)])"

declare nat_string.simps [simp del]

definition string_nat :: "string \<Rightarrow> nat" where
  "string_nat s = foldl (\<lambda>n c. 10 * n + (of_char c - 48)) 0 s"

lemma of_digit_char: "d < 10 \<Longrightarrow> (of_char (digit_char d) :: nat) = 48 + d"
  by (simp add: digit_char_def)

lemma string_nat_string [simp]: "string_nat (nat_string n) = n"
proof (induction n rule: nat_string.induct)
  case (1 n)
  show ?case
    by (subst nat_string.simps) (use 1 in \<open>auto simp: string_nat_def of_digit_char\<close>)
qed

lemma nat_string_inj [simp]: "nat_string m = nat_string n \<longleftrightarrow> m = n"
  by (metis string_nat_string)

lemma nat_string_ne [simp]: "nat_string n \<noteq> []"
  by (subst nat_string.simps) simp

lemma nat_string_digits: "c \<in> set (nat_string n) \<Longrightarrow> 48 \<le> (of_char c :: nat) \<and> (of_char c :: nat) \<le> 57"
proof (induction n arbitrary: c rule: nat_string.induct)
  case (1 n)
  show ?case
  proof (cases "n < 10")
    case True
    with 1 show ?thesis by (auto simp: nat_string.simps of_digit_char)
  next
    case False
    then have "nat_string n = nat_string (n div 10) @ [digit_char (n mod 10)]"
      by (subst nat_string.simps) simp
    with False 1 show ?thesis by (auto simp: of_digit_char)
  qed
qed

end
