(* ===== verification/Watch.thy ===== *)
theory Watch
  imports Config Flags Format
begin

text \<open>
  \<open>watch.go\<close> and \<open>watcher/watcher.go\<close>: the events that the programs fswatch and inotifywait
  report line by line, their paths relative to the working directory, and the tasks that an
  event invalidates. The matching of globs (package zglob) is the parameter \<open>glob\<close>; the
  time at which an event is received is not modelled. \<open>log.Fatalf\<close> ends the program, as
  a panic does.
\<close>

section \<open>Sources of a task\<close>

text \<open>The two loops of \<open>IsTaskSource\<close> set the result to \<open>v\<close> where a pattern matches.\<close>

type_synonym globber = "string \<Rightarrow> string \<Rightarrow> go_error + bool"

fun glob_loop :: "globber \<Rightarrow> bool \<Rightarrow> string list \<Rightarrow> string \<Rightarrow> bool \<Rightarrow> bool outcome" where
  "glob_loop glob v [] path matches = Return matches"
| "glob_loop glob v (p # ps) path matches =
     (case glob p path of
        Inl e \<Rightarrow> Panics (''invalid glob ('' @ path @ '')'')
      | Inr ok \<Rightarrow> glob_loop glob v ps path (if ok then v else matches))"

definition is_task_source :: "globber \<Rightarrow> 'w task \<Rightarrow> string \<Rightarrow> bool outcome" where
  "is_task_source glob task path =
     bind_outcome (glob_loop glob True (t_sources task) path False)
       (glob_loop glob False (t_ignore task) path)"

lemma glob_loop_Return:
  "glob_loop glob v ps path m = Return b \<longleftrightarrow>
     (\<forall>p \<in> set ps. glob p path \<in> range Inr) \<and>
     b = (if \<exists>p \<in> set ps. glob p path = Inr True then v else m)"
  by (induction ps arbitrary: m) (auto split: sum.splits)

text \<open>
  A path is a source of a task exactly when one of its source globs matches it and none of
  its ignore globs does; the program ends exactly when one of the task's globs is invalid,
  whether or not an earlier one decides.
\<close>

lemma is_task_source_iff:
  "is_task_source glob task path = Return b \<longleftrightarrow>
     (\<forall>p \<in> set (t_sources task) \<union> set (t_ignore task). glob p path \<in> range Inr) \<and>
     b = ((\<exists>p \<in> set (t_sources task). glob p path = Inr True) \<and>
          (\<forall>p \<in> set (t_ignore task). glob p path \<noteq> Inr True))"
  by (auto simp: is_task_source_def bind_outcome_Return_iff glob_loop_Return split: if_splits)

definition suffix_glob :: globber where
  "suffix_glob p path = (if p = '''' then Inl (Err ''bad pattern'') else Inr (has_suffix path p))"

definition go_task :: "unit task" where
  "go_task = zero_task\<lparr>t_name := ''go'', t_sources := [''.go''], t_ignore := [''_test.go'']\<rparr>"

lemma is_task_source_iff_example:
  "is_task_source suffix_glob go_task ''a.go'' = Return True \<and>
   is_task_source suffix_glob go_task ''a_test.go'' = Return False"
  unfolding is_task_source_iff
  by (auto simp: suffix_glob_def go_task_def zero_task_def suffix_def)

text \<open>
  What the loop of \<open>runWatch\<close> does with an event: one call of \<open>Invalidate\<close> for every task of
  the graph (in the order \<open>ord\<close>) that has the file as a source.
\<close>

fun event_invalidations ::
  "globber \<Rightarrow> (tid \<Rightarrow> 'w task) \<Rightarrow> tid list \<Rightarrow> string \<Rightarrow> (tid \<times> invalidation_event) list outcome" where
  "event_invalidations glob g [] file = Return []"
| "event_invalidations glob g (t # ts) file =
     bind_outcome (is_task_source glob (g t) file) (\<lambda>b.
     bind_outcome (event_invalidations glob g ts file) (\<lambda>rest.
     Return (if b then (t, FileChange file) # rest else rest)))"

lemma event_invalidations_set:
  "event_invalidations glob g ts file = Return calls \<Longrightarrow>
     set calls = {(t, FileChange file) |t. t \<in> set ts \<and> is_task_source glob (g t) file = Return True}"
  by (induction ts arbitrary: calls) (auto simp: bind_outcome_Return_iff split: if_splits)

text \<open>The error of the watcher counts unless the run was cancelled.\<close>

definition watch_error :: "bool \<Rightarrow> go_error option \<Rightarrow> go_error option" where
  "watch_error cancelled err = (if err \<noteq> None \<and> \<not> cancelled then err else None)"

section \<open>Relative paths\<close>

text \<open>\<open>filepath.Rel\<close>, on paths that are both rooted or both not (and not a dot).\<close>

fun strip_common :: "string list \<Rightarrow> string list \<Rightarrow> string list \<times> string list" where
  "strip_common (b # bs) (t # ts) = (if b = t then strip_common bs ts else (b # bs, t # ts))"
| "strip_common bs ts = (bs, ts)"

definition path_parts :: "string \<Rightarrow> string list" where
  "path_parts p = clean_parts (path_is_abs p) [] (split_on slash p)"

definition path_rel :: "string \<Rightarrow> string \<Rightarrow> go_error + string" where
  "path_rel base targ =
     (if path_clean base = path_clean targ then Inr ''.''
      else if path_is_abs base \<noteq> path_is_abs targ
      then Inl (Err (''Rel: can't make '' @ targ @ '' relative to '' @ base))
      else
        (let (bs, ts) = strip_common (path_parts base) (path_parts targ) in
         if bs \<noteq> [] \<and> hd bs = ''..''
         then Inl (Err (''Rel: can't make '' @ targ @ '' relative to '' @ base))
         else Inr (join_with [slash] (map (\<lambda>_. ''..'') bs @ ts))))"

lemma strip_common_append [simp]: "strip_common bs (bs @ ts) = ([], ts)"
  by (induction bs; cases ts) auto

lemma split_on_snoc: "split_on c (a @ c # b) = split_on c a @ split_on c b"
  by (induction a) (auto split: list.splits)

lemma clean_parts_append:
  "clean_parts r acc (xs @ ys) = clean_parts r (rev (clean_parts r acc xs)) ys"
  by (induction r acc xs rule: clean_parts.induct) (auto split: list.splits)

lemma clean_parts_proper:
  "\<forall>p \<in> set ps. proper_part p \<and> p \<noteq> ''..'' \<Longrightarrow> clean_parts r acc ps = rev acc @ ps"
  by (induction ps arbitrary: acc) (auto simp: proper_part_def)

section \<open>The output of the watchers\<close>

record watch_event =
  we_flags :: "64 word"
  we_file :: string

text \<open>\<open>NumericEventFlag\<close>, an unsigned number of 64 bits.\<close>

definition NumericEventFlagInvalid :: "64 word" where
  "NumericEventFlagInvalid = 0"

definition NumericEventFlagPlatformSpecific :: "64 word" where
  "NumericEventFlagPlatformSpecific = 1"

definition NumericEventFlagCreated :: "64 word" where
  "NumericEventFlagCreated = 2"

definition NumericEventFlagUpdated :: "64 word" where
  "NumericEventFlagUpdated = 4"

definition NumericEventFlagRemoved :: "64 word" where
  "NumericEventFlagRemoved = 8"

definition NumericEventFlagRenamed :: "64 word" where
  "NumericEventFlagRenamed = 16"

definition NumericEventFlagOwnerModified :: "64 word" where
  "NumericEventFlagOwnerModified = 32"

definition NumericEventFlagAttributeModified :: "64 word" where
  "NumericEventFlagAttributeModified = 64"

definition NumericEventFlagMovedFrom :: "64 word" where
  "NumericEventFlagMovedFrom = 128"

definition NumericEventFlagMovedTo :: "64 word" where
  "NumericEventFlagMovedTo = 256"

definition NumericEventFlagIsFile :: "64 word" where
  "NumericEventFlagIsFile = 512"

definition NumericEventFlagIsDir :: "64 word" where
  "NumericEventFlagIsDir = 1024"

definition NumericEventFlagIsSymLink :: "64 word" where
  "NumericEventFlagIsSymLink = 2048"

definition NumericEventFlagIsLink :: "64 word" where
  "NumericEventFlagIsLink = 4096"

lemmas numeric_flag_defs =
  NumericEventFlagInvalid_def NumericEventFlagPlatformSpecific_def NumericEventFlagCreated_def
  NumericEventFlagUpdated_def NumericEventFlagRemoved_def NumericEventFlagRenamed_def
  NumericEventFlagOwnerModified_def NumericEventFlagAttributeModified_def NumericEventFlagMovedFrom_def
  NumericEventFlagMovedTo_def NumericEventFlagIsFile_def NumericEventFlagIsDir_def
  NumericEventFlagIsSymLink_def NumericEventFlagIsLink_def

definition parse_uint64 :: "string \<Rightarrow> 64 word option" where
  "parse_uint64 s = (case parse_unsigned s of
     Some n \<Rightarrow> if n < 2 ^ 64 then Some (word_of_int n) else None | None \<Rightarrow> None)"

text \<open>
  A line of fswatch: a path and a number. A malformed line is skipped, a number that does
  not parse is an error.
\<close>

definition fswatch_line :: "string \<Rightarrow> string \<Rightarrow> go_error + watch_event list" where
  "fswatch_line dir text =
     (let line = split_on (CHR '' '') text in
      if length line < 2 then Inr []
      else
        (case path_rel dir (line ! 0) of
           Inl e \<Rightarrow> Inl (Wrapped (''filepath.Rel: '' @ dir @ '', '' @ line ! 0) e)
         | Inr file \<Rightarrow>
             (case parse_uint64 (line ! 1) of
                None \<Rightarrow> Inl (Wrapped (''strconv.ParseUint: '' @ line ! 1) (Err ''invalid syntax''))
              | Some n \<Rightarrow> Inr [\<lparr>we_flags = n, we_file = file\<rparr>])))"

text \<open>A line of inotifywait: a directory, the names of events, and a file in it.\<close>

definition event_flag :: "string \<Rightarrow> 64 word" where
  "event_flag name =
     (if name = ''ATTRIB'' then NumericEventFlagAttributeModified
      else if name = ''CREATE'' then NumericEventFlagCreated
      else if name = ''DELETE'' then NumericEventFlagRemoved
      else if name = ''MOVED_TO'' then NumericEventFlagMovedTo
      else if name = ''MOVED_FROM'' then NumericEventFlagMovedFrom
      else if name = ''MODIFY'' then NumericEventFlagUpdated
      else NumericEventFlagInvalid)"

definition inotify_line :: "string \<Rightarrow> string \<Rightarrow> (go_error + watch_event list) outcome" where
  "inotify_line dir text =
     (let line = split_on (CHR '' '') text in
      if length line < 3 then Panics ''index out of range''
      else
        Return (case path_rel dir (path_join2 (line ! 0) (line ! 2)) of
           Inl e \<Rightarrow> Inl (Wrapped (''filepath.Rel: '' @ dir @ '', '' @ line ! 0 @ '', '' @ line ! 2) e)
         | Inr file \<Rightarrow>
             Inr (map (\<lambda>name. \<lparr>we_flags = event_flag name, we_file = file\<rparr>)
                   (filter (\<lambda>name. event_flag name \<noteq> NumericEventFlagInvalid) (split_on (CHR '','') (line ! 1))))))"

text \<open>
  The loop over the lines: the events that were sent, and the error it ends with; \<open>scan\<close> is
  the error of the scanner at the end of its input.
\<close>

fun watch_lines ::
  "(string \<Rightarrow> (go_error + watch_event list) outcome) \<Rightarrow> string list \<Rightarrow> go_error option \<Rightarrow>
   (watch_event list \<times> go_error option) outcome" where
  "watch_lines parse [] scan = Return ([], wrapf ''scanner.Err()'' scan)"
| "watch_lines parse (l # ls) scan =
     bind_outcome (parse l) (\<lambda>r.
       (case r of
          Inl e \<Rightarrow> Return ([], Some e)
        | Inr evs \<Rightarrow> bind_outcome (watch_lines parse ls scan) (\<lambda>(rest, err).
            Return (evs @ rest, err))))"

definition fswatch_run :: "string \<Rightarrow> string list \<Rightarrow> go_error option \<Rightarrow>
  (watch_event list \<times> go_error option) outcome" where
  "fswatch_run dir = watch_lines (\<lambda>l. Return (fswatch_line dir l))"

definition inotify_run :: "string \<Rightarrow> string list \<Rightarrow> go_error option \<Rightarrow>
  (watch_event list \<times> go_error option) outcome" where
  "inotify_run dir = watch_lines (inotify_line dir)"

section \<open>What is reported is the file\<close>

lemma digit_value_char:
  assumes "d < 10"
  shows "digit_value (digit_char d) = Some (int d)"
proof -
  have "(of_char (digit_char d) :: int) = int (of_char (digit_char d))"
    by (simp only: of_nat_of_char)
  with assms show ?thesis by (simp add: digit_value_def of_digit_char)
qed

lemma parse_digits_append:
  "parse_digits a (xs @ ys) = Option.bind (parse_digits a xs) (\<lambda>b. parse_digits b ys)"
  by (induction a xs rule: parse_digits.induct) (auto split: option.splits)

lemma parse_digits_nat_string: "parse_digits 0 (nat_string n) = Some (int n)"
proof (induction n rule: nat_string.induct)
  case (1 n)
  show ?case
    by (subst nat_string.simps)
      (use 1 in \<open>auto simp: digit_value_char parse_digits_append zmod_int zdiv_int\<close>)
qed

lemma parse_nat_string: "parse_unsigned (nat_string n) = Some (int n)"
  by (simp add: parse_unsigned_def parse_digits_nat_string)

text \<open>A directory, and a file below it: rooted paths without spaces.\<close>

definition plain_parts :: "string list \<Rightarrow> bool" where
  "plain_parts ps \<longleftrightarrow> (\<forall>p \<in> set ps. proper_part p \<and> p \<noteq> ''..'' \<and> CHR '' '' \<notin> set p)"

lemma plain_parts_append [simp]: "plain_parts (ps @ qs) \<longleftrightarrow> plain_parts ps \<and> plain_parts qs"
  by (auto simp: plain_parts_def)

lemma plain_cleaned: "plain_parts ps \<Longrightarrow> cleaned True ps"
  by (auto simp: plain_parts_def cleaned_def dest: set_dropWhileD)

lemma plain_clean_parts: "plain_parts ps \<Longrightarrow> clean_parts r acc ps = rev acc @ ps"
  by (rule clean_parts_proper) (auto simp: plain_parts_def)

lemma plain_render:
  assumes "plain_parts ps"
  shows "path_is_abs (render_path True ps)" "path_parts (render_path True ps) = ps"
    "path_clean (render_path True ps) = render_path True ps"
  using plain_cleaned [OF assms] render_abs [of True ps] render_parts [of True ps]
    clean_path_fixed [of "render_path True ps"]
  by (auto simp: path_parts_def clean_path_def)

lemma plain_path_rel:
  assumes "plain_parts ds" and "plain_parts fs" and "fs \<noteq> []"
  shows "path_rel (render_path True ds) (render_path True (ds @ fs)) = Inr (join_with [slash] fs)"
proof -
  have "render_path True ds \<noteq> render_path True (ds @ fs)"
    using plain_render(2) [of ds] plain_render(2) [of "ds @ fs"] assms by auto
  with assms plain_render [of ds] plain_render [of "ds @ fs"] show ?thesis
    by (simp add: path_rel_def)
qed

lemma plain_join:
  assumes "plain_parts ps" and "plain_parts [f]"
  shows "path_join2 (render_path True ps @ [slash]) f = render_path True (ps @ [f])"
proof -
  have f: "slash \<notin> set f" using assms(2) by (simp add: plain_parts_def proper_part_def)
  have "split_on slash (render_path True ps @ slash # slash # f) =
      split_on slash (render_path True ps) @ [[], f]"
    using f by (simp add: split_on_snoc split_on_no_sep)
  moreover have "path_is_abs (render_path True ps @ slash # slash # f)"
    by (simp add: path_is_abs_def render_path_def)
  ultimately show ?thesis
    using assms plain_render(1,2) [OF assms(1)] plain_clean_parts [OF assms(2), of True "rev ps"]
    by (simp add: path_join2_def path_clean_def path_parts_def clean_parts_append)
qed

lemma set_join_with: "set (join_with sep ps) \<subseteq> set sep \<union> (\<Union>p \<in> set ps. set p)"
  by (induction sep ps rule: join_with.induct) auto

lemma join_no_char: "\<forall>p \<in> set ps. c \<notin> set p \<Longrightarrow> c \<notin> set sep \<Longrightarrow> c \<notin> set (join_with sep ps)"
  using set_join_with [of sep ps] by blast

lemma render_no_space: "plain_parts ps \<Longrightarrow> CHR '' '' \<notin> set (render_path True ps)"
  using join_no_char [of ps "CHR '' ''" "[slash]"] by (auto simp: render_path_def plain_parts_def)

text \<open>
  inotifywait's lines are read back as what they say: for a file below the watched
  directory, in names without spaces, a line yields one event for each of its event names
  that the program knows, in order, with the file's path relative to the directory.
\<close>

lemma inotify_roundtrip:
  assumes "plain_parts ds" and "plain_parts sub" and "plain_parts [file]"
    and "names \<noteq> []" and "\<forall>n \<in> set names. CHR '','' \<notin> set n \<and> CHR '' '' \<notin> set n"
  shows "inotify_line (render_path True ds)
      (render_path True (ds @ sub) @ [slash] @ '' '' @ join_with '','' names @ '' '' @ file) =
    Return (Inr (map (\<lambda>n. \<lparr>we_flags = event_flag n, we_file = join_with [slash] (sub @ [file])\<rparr>)
      (filter (\<lambda>n. event_flag n \<noteq> NumericEventFlagInvalid) names)))"
proof -
  let ?d = "render_path True (ds @ sub) @ [slash]" and ?e = "join_with '','' names"
  have "CHR '' '' \<notin> set ?d" using render_no_space [of "ds @ sub"] assms by simp
  moreover have "CHR '' '' \<notin> set ?e" using assms(5) by (intro join_no_char) auto
  moreover have "CHR '' '' \<notin> set file" using assms(3) by (simp add: plain_parts_def)
  ultimately have line: "split_on (CHR '' '') (?d @ '' '' @ ?e @ '' '' @ file) = [?d, ?e, file]"
    using split_on_append [of "CHR '' ''" ?d] split_on_append [of "CHR '' ''" ?e]
      split_on_no_sep [of "CHR '' ''" "file"] by simp
  have rel: "path_rel (render_path True ds) (path_join2 ?d file) = Inr (join_with [slash] (sub @ [file]))"
    using plain_join [of "ds @ sub" "file"] plain_path_rel [of ds "sub @ [file]"] assms by simp
  have "split_on (CHR '','') ?e = names" using assms(4,5) by (intro split_join) auto
  with line rel show ?thesis by (simp add: inotify_line_def Let_def)
qed

lemma inotify_roundtrip_example:
  "inotify_line ''/w'' ''/w/src/ MOVED_TO,ISDIR a.go'' =
     Return (Inr [\<lparr>we_flags = 256, we_file = ''src/a.go''\<rparr>])"
  using inotify_roundtrip [of "[''w'']" "[''src'']" "''a.go''" "[''MOVED_TO'', ''ISDIR'']"]
  by (simp add: plain_parts_def proper_part_def render_path_def event_flag_def numeric_flag_defs)

text \<open>
  fswatch's lines likewise: the path of a file below the directory and a number below
  2 to the 64 give one event, with the number as its flags, unchanged.
\<close>

lemma fswatch_roundtrip:
  assumes "plain_parts ds" and "plain_parts fs" and "fs \<noteq> []" and "n < 2 ^ 64"
  shows "fswatch_line (render_path True ds) (render_path True (ds @ fs) @ '' '' @ nat_string n) =
    Inr [\<lparr>we_flags = of_nat n, we_file = join_with [slash] fs\<rparr>]"
proof -
  have "CHR '' '' \<notin> set (render_path True (ds @ fs))" using render_no_space [of "ds @ fs"] assms by simp
  moreover have "CHR '' '' \<notin> set (nat_string n)"
    using nat_string_digits [of "CHR '' ''" n] by auto
  ultimately have "split_on (CHR '' '') (render_path True (ds @ fs) @ '' '' @ nat_string n) =
      [render_path True (ds @ fs), nat_string n]"
    using split_on_append [of "CHR '' ''" "render_path True (ds @ fs)"]
      split_on_no_sep [of "CHR '' ''" "nat_string n"] by simp
  moreover have "parse_uint64 (nat_string n) = Some (of_nat n)"
    using assms(4) by (simp add: parse_uint64_def parse_nat_string)
  ultimately show ?thesis
    using plain_path_rel [OF assms(1,2,3)] by (simp add: fswatch_line_def Let_def)
qed

lemma fswatch_roundtrip_example:
  "fswatch_line ''/w'' ''/w/src/a.go 514'' = Inr [\<lparr>we_flags = 514, we_file = ''src/a.go''\<rparr>]"
proof -
  have "nat_string 514 = ''514''" by code_simp
  then show ?thesis
    using fswatch_roundtrip [of "[''w'']" "[''src'', ''a.go'']" 514]
    by (simp add: plain_parts_def proper_part_def render_path_def)
qed

section \<open>A whole run of a watcher\<close>

text \<open>
  The interface that the two watchers share: the lines \<open>line r\<close> that a program prints for
  a report \<open>r\<close> are parsed into the events \<open>events r\<close>. Then all events arrive, in order.
\<close>

locale line_watcher =
  fixes parse :: "string \<Rightarrow> (go_error + watch_event list) outcome"
    and line :: "'r \<Rightarrow> string" and events :: "'r \<Rightarrow> watch_event list" and sound :: "'r \<Rightarrow> bool"
  assumes parse_line: "sound r \<Longrightarrow> parse (line r) = Return (Inr (events r))"
begin

lemma run_append:
  "\<forall>r \<in> set rs. sound r \<Longrightarrow> watch_lines parse (map line rs @ ls) scan =
     bind_outcome (watch_lines parse ls scan) (\<lambda>(evs, err). Return (concat (map events rs) @ evs, err))"
proof (induction rs)
  case Nil
  then show ?case by (cases "watch_lines parse ls scan") simp_all
next
  case (Cons r rs)
  then show ?case by (cases "watch_lines parse ls scan") (auto simp: parse_line)
qed

lemma run_reports:
  "\<forall>r \<in> set rs. sound r \<Longrightarrow> watch_lines parse (map line rs) scan =
     Return (concat (map events rs), wrapf ''scanner.Err()'' scan)"
  using run_append [of rs "[]" scan] by simp

end

text \<open>A report of inotifywait: the directories below the watched one, event names, a file.\<close>

type_synonym inotify_report = "string list \<times> string list \<times> string"

definition inotify_text :: "string list \<Rightarrow> inotify_report \<Rightarrow> string" where
  "inotify_text ds = (\<lambda>(sub, names, name).
     render_path True (ds @ sub) @ [slash] @ '' '' @ join_with '','' names @ '' '' @ name)"

definition inotify_events :: "inotify_report \<Rightarrow> watch_event list" where
  "inotify_events = (\<lambda>(sub, names, name).
     map (\<lambda>n. \<lparr>we_flags = event_flag n, we_file = join_with [slash] (sub @ [name])\<rparr>)
       (filter (\<lambda>n. event_flag n \<noteq> NumericEventFlagInvalid) names))"

definition inotify_sound :: "string list \<Rightarrow> inotify_report \<Rightarrow> bool" where
  "inotify_sound ds = (\<lambda>(sub, names, name). plain_parts ds \<and> plain_parts sub \<and> plain_parts [name] \<and>
     names \<noteq> [] \<and> (\<forall>n \<in> set names. CHR '','' \<notin> set n \<and> CHR '' '' \<notin> set n))"

text \<open>A report of fswatch: a file below the watched directory, and a number.\<close>

definition fswatch_text :: "string list \<Rightarrow> string list \<times> nat \<Rightarrow> string" where
  "fswatch_text ds = (\<lambda>(fs, n). render_path True (ds @ fs) @ '' '' @ nat_string n)"

definition fswatch_events :: "string list \<times> nat \<Rightarrow> watch_event list" where
  "fswatch_events = (\<lambda>(fs, n). [\<lparr>we_flags = of_nat n, we_file = join_with [slash] fs\<rparr>])"

definition fswatch_sound :: "string list \<Rightarrow> string list \<times> nat \<Rightarrow> bool" where
  "fswatch_sound ds = (\<lambda>(fs, n). plain_parts ds \<and> plain_parts fs \<and> fs \<noteq> [] \<and> n < 2 ^ 64)"

interpretation inotify: line_watcher "inotify_line (render_path True ds)" "inotify_text ds"
  inotify_events "inotify_sound ds" for ds
  by unfold_locales
    (auto simp: inotify_text_def inotify_events_def inotify_sound_def intro!: inotify_roundtrip
      [unfolded append.simps])

interpretation fswatch: line_watcher "\<lambda>l. Return (fswatch_line (render_path True ds) l)"
  "fswatch_text ds" fswatch_events "fswatch_sound ds" for ds
  by unfold_locales
    (auto simp: fswatch_text_def fswatch_events_def fswatch_sound_def dest: fswatch_roundtrip)

lemma fswatch_run_reports:
  "\<forall>r \<in> set rs. fswatch_sound ds r \<Longrightarrow>
     fswatch_run (render_path True ds) (map (fswatch_text ds) rs) scan =
       Return (concat (map fswatch_events rs), wrapf ''scanner.Err()'' scan)"
  unfolding fswatch_run_def by (rule fswatch.run_reports)

text \<open>
  C35. Where no directory, file or event name has a space in it, a run of the inotify watcher
  reports what inotifywait saw: from lines for files below the watched directory it sends for
  each line one event for each event name that the program knows, in order, with the file's
  path relative to the directory, and nothing else; it ends with the scanner's error only. A
  line for a file with a space in its name is read as another file's, see \<open>inotify_space_cut\<close>.
\<close>

theorem inotify_run_reports:
  assumes "\<forall>r \<in> set rs. inotify_sound ds r"
  shows "inotify_run (render_path True ds) (map (inotify_text ds) rs) scan =
    Return (concat (map inotify_events rs), wrapf ''scanner.Err()'' scan)"
  unfolding inotify_run_def using assms by (rule inotify.run_reports)

theorem inotify_run_reports_witness:
  "inotify_run ''/w'' [''/w/src/ MOVED_TO,ISDIR a.go'', ''/w/ MODIFY,ATTRIB b''] None =
     Return ([\<lparr>we_flags = 256, we_file = ''src/a.go''\<rparr>, \<lparr>we_flags = 4, we_file = ''b''\<rparr>,
       \<lparr>we_flags = 64, we_file = ''b''\<rparr>], None)"
  using inotify_run_reports [of "[([''src''], [''MOVED_TO'', ''ISDIR''], ''a.go''),
      ([], [''MODIFY'', ''ATTRIB''], ''b'')]" "[''w'']" None]
  by (simp add: inotify_sound_def inotify_text_def inotify_events_def plain_parts_def proper_part_def
      render_path_def event_flag_def numeric_flag_defs)

text \<open>A name is cut at its first space: the change of \<open>a b.go\<close> is reported as one of \<open>a\<close>.\<close>

lemma inotify_space_cut:
  assumes "CHR '' '' \<notin> set d" and "CHR '' '' \<notin> set e" and "CHR '' '' \<notin> set a"
  shows "inotify_line dir (d @ '' '' @ e @ '' '' @ a @ '' '' @ b) = inotify_line dir (d @ '' '' @ e @ '' '' @ a)"
  using assms split_on_append [of "CHR '' ''"]
  by (simp add: inotify_line_def Let_def split_on_no_sep cong: sum.case_cong)

lemma inotify_space_example:
  "inotify_line ''/w'' ''/w/src/ MODIFY a b.go'' = Return (Inr [\<lparr>we_flags = 4, we_file = ''src/a''\<rparr>])"
  using inotify_space_cut [of "''/w/src/''" "''MODIFY''" "''a''" "''/w''" "''b.go''"]
    inotify_roundtrip [of "[''w'']" "[''src'']" "''a''" "[''MODIFY'']"]
  by (simp add: plain_parts_def proper_part_def render_path_def event_flag_def numeric_flag_defs)

text \<open>A line of inotifywait without a file ends the program.\<close>

lemma inotify_short_line:
  "CHR '' '' \<notin> set a \<Longrightarrow> CHR '' '' \<notin> set b \<Longrightarrow>
     inotify_line dir (a @ '' '' @ b) = Panics ''index out of range''"
  using split_on_append [of "CHR '' ''" a b] by (simp add: inotify_line_def split_on_no_sep)

end
