(* ===== verification/WatchRun.thy ===== *)
theory WatchRun
  imports Watch
begin

text \<open>
  A watcher from its start to its end (\<open>watcher/watcher.go\<close>) and what \<open>runWatch\<close> (\<open>watch.go\<close>) makes
  of it: the commands that are run, the result of its two goroutines, the choice by the build
  target, the enhancers, and the calls of \<open>Invalidate\<close> for the events of the channel. What the child
  process prints and how it ends are parameters.
\<close>

section \<open>The commands\<close>

definition fswatch_command :: "string \<Rightarrow> string list" where
  "fswatch_command directory = [''fswatch'', ''-n'', ''-interval'', ''0.1'', directory]"

definition inotify_command :: "string \<Rightarrow> string list" where
  "inotify_command directory =
     [''inotifywait'', ''-q'', ''-m'', ''--exclude'', ''(node_modules|npm-packages-offline-cache)'', ''-r'',
      ''-e'', ''modify'', ''-e'', ''create'', ''-e'', ''delete'', ''-e'', ''move'', directory]"

section \<open>A run\<close>

text \<open>
  What the world gives to a run: the error of the pipe, the lines of the output with the
  scanner's error, the error of the command, and which of the two goroutines returns first.
\<close>

record child =
  ch_pipe :: "go_error option"
  ch_lines :: "string list"
  ch_scan :: "go_error option"
  ch_exit :: "go_error option"
  ch_parser_first :: bool

text \<open>\<open>errgroup.Wait\<close> gives the first error that a goroutine returned.\<close>

fun first_error :: "go_error option list \<Rightarrow> go_error option" where
  "first_error [] = None"
| "first_error (Some e # errs) = Some e"
| "first_error (None # errs) = first_error errs"

text \<open>
  \<open>Run\<close> with the loop \<open>parse\<close> over the lines: the events that were sent before the channel is
  closed, and the error.
\<close>

definition watcher_run ::
  "(string list \<Rightarrow> go_error option \<Rightarrow> (watch_event list \<times> go_error option) outcome) \<Rightarrow> child \<Rightarrow>
   (watch_event list \<times> go_error option) outcome" where
  "watcher_run parse c =
     (case ch_pipe c of
        Some err \<Rightarrow> Return ([], wrapf '''' (Some err))
      | None \<Rightarrow>
          bind_outcome (parse (ch_lines c) (ch_scan c)) (\<lambda>(evs, perr).
            let cerr = wrapf '''' (ch_exit c) in
            Return (evs, first_error (if ch_parser_first c then [perr, cerr] else [cerr, perr]))))"

text \<open>The files with build constraints: which watcher \<open>NewWatcher\<close> gives.\<close>

datatype target_os = Darwin | Linux

definition fs_events_watcher :: "string \<Rightarrow> child \<Rightarrow> (watch_event list \<times> go_error option) outcome" where
  "fs_events_watcher directory = watcher_run (fswatch_run directory)"

definition inotify_watcher :: "string \<Rightarrow> child \<Rightarrow> (watch_event list \<times> go_error option) outcome" where
  "inotify_watcher directory = watcher_run (inotify_run directory)"

definition new_watcher ::
  "target_os \<Rightarrow> string \<Rightarrow> child \<Rightarrow> (watch_event list \<times> go_error option) outcome" where
  "new_watcher os directory =
     (case os of Darwin \<Rightarrow> fs_events_watcher directory | Linux \<Rightarrow> inotify_watcher directory)"

definition watcher_command :: "target_os \<Rightarrow> string \<Rightarrow> string list" where
  "watcher_command os = (case os of Darwin \<Rightarrow> fswatch_command | Linux \<Rightarrow> inotify_command)"

section \<open>The executor's side\<close>

text \<open>Every enhancer wraps the watcher that those before it made.\<close>

definition enhance_watcher :: "('v \<Rightarrow> 'v) list \<Rightarrow> 'v \<Rightarrow> 'v" where
  "enhance_watcher enhancers watcher = fold (\<lambda>enhancer w. enhancer w) enhancers watcher"

text \<open>The loop over the events of the channel, which ends when it is closed.\<close>

fun watch_calls ::
  "globber \<Rightarrow> (tid \<Rightarrow> 'w task) \<Rightarrow> tid list \<Rightarrow> watch_event list \<Rightarrow> (tid \<times> invalidation_event) list outcome" where
  "watch_calls glob g ord [] = Return []"
| "watch_calls glob g ord (ev # evs) =
     bind_outcome (event_invalidations glob g ord (we_file ev)) (\<lambda>calls.
     bind_outcome (watch_calls glob g ord evs) (\<lambda>rest. Return (calls @ rest)))"

lemma watch_calls_set:
  "watch_calls glob g ord evs = Return calls \<Longrightarrow>
     set calls = {(t, FileChange (we_file ev)) |t ev. ev \<in> set evs \<and> t \<in> set ord \<and>
       is_task_source glob (g t) (we_file ev) = Return True}"
proof (induction evs arbitrary: calls)
  case Nil
  then show ?case by simp
next
  case (Cons ev evs)
  then obtain c rest where "event_invalidations glob g ord (we_file ev) = Return c"
    "watch_calls glob g ord evs = Return rest" "calls = c @ rest"
    by (auto simp: bind_outcome_Return_iff)
  with event_invalidations_set Cons.IH show ?case by fastforce
qed

definition run_watch ::
  "target_os \<Rightarrow> string \<Rightarrow>
   ((child \<Rightarrow> (watch_event list \<times> go_error option) outcome) \<Rightarrow>
     child \<Rightarrow> (watch_event list \<times> go_error option) outcome) list \<Rightarrow>
   globber \<Rightarrow> (tid \<Rightarrow> 'w task) \<Rightarrow> tid list \<Rightarrow> bool \<Rightarrow> child \<Rightarrow>
   ((tid \<times> invalidation_event) list \<times> go_error option) outcome" where
  "run_watch os working_dir enhancers glob g ord cancelled c =
     bind_outcome (enhance_watcher enhancers (new_watcher os working_dir) c) (\<lambda>(evs, err).
     bind_outcome (watch_calls glob g ord evs) (\<lambda>calls. Return (calls, watch_error cancelled err)))"

section \<open>What a run leads to\<close>

lemma first_error_None: "first_error errs = None \<longleftrightarrow> (\<forall>e \<in> set errs. e = None)"
  by (induction errs rule: first_error.induct) auto

text \<open>
  On Linux, the calls that a run of the watcher makes: for reports of files below the working
  directory, every task is told of every file that is its source and had an event that the
  program knows, and of no other; the run gives an error exactly when the scanner or the command
  failed and the run was not cancelled.
\<close>

lemma linux_watch_calls:
  assumes "\<forall>r \<in> set rs. inotify_sound ds r" and "ch_pipe c = None"
    and "ch_lines c = map (inotify_text ds) rs"
    and "run_watch Linux (render_path True ds) [] glob g ord cancelled c = Return (calls, err)"
  shows "set calls = {(t, FileChange (join_with [slash] (sub @ [name]))) |t sub names name.
      (sub, names, name) \<in> set rs \<and> (\<exists>n \<in> set names. event_flag n \<noteq> NumericEventFlagInvalid) \<and> t \<in> set ord \<and>
      is_task_source glob (g t) (join_with [slash] (sub @ [name])) = Return True}"
    and "err = None \<longleftrightarrow> cancelled \<or> ch_scan c = None \<and> ch_exit c = None"
proof -
  let ?evs = "concat (map inotify_events rs)"
  have run: "inotify_run (render_path True ds) (map (inotify_text ds) rs) scan =
      Return (?evs, wrapf ''scanner.Err()'' scan)" for scan
    unfolding inotify_run_def using assms(1) by (rule inotify.run_reports)
  have calls: "watch_calls glob g ord ?evs = Return calls"
    and err: "err = watch_error cancelled (first_error (if ch_parser_first c
      then [wrapf ''scanner.Err()'' (ch_scan c), wrapf [] (ch_exit c)]
      else [wrapf [] (ch_exit c), wrapf ''scanner.Err()'' (ch_scan c)]))"
    using assms(2-4) run
    by (auto simp: run_watch_def enhance_watcher_def new_watcher_def inotify_watcher_def watcher_run_def Let_def
        bind_outcome_Return_iff)
  show "set calls = {(t, FileChange (join_with [slash] (sub @ [name]))) |t sub names name.
      (sub, names, name) \<in> set rs \<and> (\<exists>n \<in> set names. event_flag n \<noteq> NumericEventFlagInvalid) \<and> t \<in> set ord \<and>
      is_task_source glob (g t) (join_with [slash] (sub @ [name])) = Return True}"
  proof -
    have "(\<exists>ev \<in> set ?evs. we_file ev = f) \<longleftrightarrow> (\<exists>sub names name. (sub, names, name) \<in> set rs \<and>
        (\<exists>n \<in> set names. event_flag n \<noteq> NumericEventFlagInvalid) \<and> f = join_with [slash] (sub @ [name]))" for f
      by (fastforce simp: inotify_events_def)
    moreover have "x \<in> set calls \<longleftrightarrow> (\<exists>t f. x = (t, FileChange f) \<and> (\<exists>ev \<in> set ?evs. we_file ev = f) \<and>
        t \<in> set ord \<and> is_task_source glob (g t) f = Return True)" for x
      unfolding watch_calls_set [OF calls] by blast
    ultimately show ?thesis by (simp add: set_eq_iff) blast
  qed
  show "err = None \<longleftrightarrow> cancelled \<or> ch_scan c = None \<and> ch_exit c = None"
    unfolding err watch_error_def by (auto simp: first_error_None)
qed

end
