(* ===== verification/Rebuild.thy ===== *)
theory Rebuild
  imports ExecutorSpec WatchRun
begin

text \<open>
  From a changed file to a fresh result: the calls that \<open>runWatch\<close> makes for a watcher's events
  (\<open>watch.go\<close>) are delivered to the executor's machine in any order, between any of its other
  steps, and every task that has the file as a source is started again.
\<close>

section \<open>A task that is owed a start\<close>

text \<open>
  Since the history was \<open>h0\<close>, the task was started, or it is to be: it is invalid or has a
  pending invalidation. A shutdown ends the obligation.
\<close>

definition fresh_or_owed :: "(tid \<times> task_state) list \<Rightarrow> tid \<Rightarrow> executor \<Rightarrow> bool" where
  "fresh_or_owed h0 x s \<longleftrightarrow> root_done s \<or>
     (\<exists>h. e_history s = h0 @ h \<and>
        ((x, St_running) \<in> set h \<or> ex_state (node s x) = St_invalid \<or> ex_pending (node s x) \<noteq> {}))"

lemma fresh_frame:
  assumes "fresh_or_owed h0 x s" and "root_done s \<Longrightarrow> root_done s'"
    and "e_history s' = e_history s @ h'"
    and "ex_state (node s x) = St_invalid \<Longrightarrow> ex_state (node s' x) = St_invalid \<or>
      root_done s' \<or> (x, St_running) \<in> set h'"
    and "ex_pending (node s x) \<noteq> {} \<Longrightarrow> ex_pending (node s' x) \<noteq> {} \<or>
      ex_state (node s' x) = St_invalid \<or> root_done s'"
  shows "fresh_or_owed h0 x s'"
proof (cases "root_done s'")
  case True
  then show ?thesis by (simp add: fresh_or_owed_def)
next
  case False
  with assms(1,2) obtain h where "e_history s = h0 @ h"
    "(x, St_running) \<in> set h \<or> ex_state (node s x) = St_invalid \<or> ex_pending (node s x) \<noteq> {}"
    unfolding fresh_or_owed_def by blast
  with assms(3-5) False have "e_history s' = h0 @ (h @ h') \<and>
      ((x, St_running) \<in> set (h @ h') \<or> ex_state (node s' x) = St_invalid \<or> ex_pending (node s' x) \<noteq> {})"
    by auto
  then show ?thesis unfolding fresh_or_owed_def by blast
qed

lemma pending_marked:
  assumes "mark_invalid n g t ev m = Some (b, m')"
  shows "ex_pending (exec_of m x) \<subseteq> ex_pending (exec_of m' x)"
  using mark_invalid_marked [OF assms] marked_fields(6) by fast

text \<open>Every calm step keeps the obligation: only a plan that resets the task clears its marks.\<close>

lemma fresh_effect:
  assumes fresh: "fresh_or_owed h0 x s" and inv: "exec_inv g s" and calm: "calm_inv s"
    and timely: "exit_timely s" and canceled: "canceled_inv s" and eff: "effect g s s'"
  shows "fresh_or_owed h0 x s'"
  using eff
proof cases
  case (mark n t ev b)
  with pending_marked [OF mark(3), of x] show ?thesis
    by (intro fresh_frame [OF fresh, where h' = "[]"])
      (auto dest!: same_coreD simp: mark_invalid_fields root_done_def)
next
  case (write_state i r st)
  have "st = St_canceled \<longrightarrow> root_done s'" using write_state by (auto simp: root_done_def)
  moreover have "ex_state (node s (gr_task r)) = St_running" if "st \<noteq> St_canceled"
  proof -
    have "gr_verdict r \<noteq> V_canceled" using write_state(3) that by auto
    with timely write_state(1,2) show ?thesis unfolding exit_timely_def by blast
  qed
  ultimately show ?thesis
    using write_state by (intro fresh_frame [OF fresh, where h' = "[(gr_task r, st)]"])
      (auto simp: root_done_def)
next
  case (stopped th t ts)
  have "waiting s t" using stopped by (simp add: waiting_def)
  then have "ex_state (node s t) \<in> {St_invalid, St_canceled}" by (rule calm_invD(2) [OF calm])
  then have "ex_state (node s t) = St_invalid \<or> root_done s"
    using canceled unfolding canceled_inv_def by blast
  with stopped show ?thesis
    by (intro fresh_frame [OF fresh, where h' = "[]"]) (auto simp: root_done_def)
next
  case (stop th t ts)
  then show ?thesis
    by (intro fresh_frame [OF fresh, where h' = "[(t, St_invalid)]"]) (auto simp: root_done_def ctx_err_def)
next
  case (spawned th t ts)
  then show ?thesis
    by (intro fresh_frame [OF fresh, where h' = "[(t, St_running)]"]) (auto simp: root_done_def)
next
  case shutdown
  then show ?thesis
    by (intro fresh_frame [OF fresh, where h' = "[]"]) (auto simp: root_done_def ctx_err_def)
next
  case (send i r)
  then show ?thesis
    by (intro fresh_frame [OF fresh, where h' = "[]"]) (auto simp: root_done_def)
qed (intro fresh_frame [OF fresh, where h' = "[]"], auto dest!: same_coreD simp: root_done_def)+

abbreviation calm_reach :: "(tid \<Rightarrow> 'w task) \<Rightarrow> executor \<Rightarrow> bool" where
  "calm_reach g \<equiv> reachable_by (starts g) (calm_step g)"

lemma fresh_step:
  assumes "calm_reach g s" and "calm_step g s s'" and "fresh_or_owed h0 x s"
  shows "fresh_or_owed h0 x s'"
proof -
  from calm.both_reachable [OF assms(1)] have inv: "exec_inv g s" "order_inv g s" "calm_inv s" by blast+
  have "canceled_inv s"
    using work.inv_reachable [OF calm_reachable [OF assms(1)]] by (simp add: work_inv_def)
  moreover have "effect g s s'" using step_effect inv(1) assms(2) unfolding calm_step_def by blast
  ultimately show ?thesis
    using fresh_effect [OF assms(3) inv(1,3) calm_exit_timely [OF inv]] by blast
qed

lemma calm_path:
  assumes "(calm_step g)\<^sup>*\<^sup>* s s'" and "calm_reach g s"
  shows "calm_reach g s' \<and> (fresh_or_owed h0 x s \<longrightarrow> fresh_or_owed h0 x s')"
  using assms
proof (induction rule: rtranclp_induct)
  case base
  then show ?case by simp
next
  case (step u v)
  then show ?case using fresh_step [of g u v h0 x] by (blast intro: reachable_by.step)
qed

lemma calm_tasks:
  assumes "(calm_step g)\<^sup>*\<^sup>* s s'" and "calm_reach g s"
  shows "tasks_of (ts_exec s') = tasks_of (ts_exec s)"
  using assms
proof (induction rule: rtranclp_induct)
  case base
  then show ?case by simp
next
  case (step u v)
  have inv: "exec_inv g u" using calm_path [OF step(1,4)] calm.both_reachable by blast
  have "effect g u v" using step(2) step_effect [OF inv] unfolding calm_step_def by blast
  then have "same_graph u v" by (rule effect_same_graph [OF exec_invD(1) [OF inv]])
  with step show ?case by (simp add: same_graph_def)
qed

text \<open>At rest the obligation has been met, or the task is blocked by one that failed.\<close>

lemma fresh_at_rest:
  assumes "calm_reach g s" and "settled s" and "\<not> root_done s" and "ts_exec s x \<noteq> None"
    and "fresh_or_owed h0 x s"
  shows "\<exists>h. e_history s = h0 @ h \<and> ((x, St_running) \<in> set h \<or>
    ex_state (node s x) = St_invalid \<and> (\<exists>d \<in> deps_of g x. ex_state (node s d) = St_error))"
proof -
  have s: "reachable g s" using assms(1) by (rule calm_reachable)
  have x: "x \<in> tasks_of (ts_exec s)" using assms(4) by (auto simp: tasks_of_def)
  have idle: "idle s" using assms(2) by (simp add: settled_def)
  have "\<not> plan_to_come s x" using assms(2) by (auto simp: plan_to_come_def notifying_def settled_def idle_def)
  with work.inv_reachable [OF s] x assms(3) have np: "\<not> must_plan (ts_exec s) x"
    by (auto simp: work_inv_def pend_inv_def)
  have "ex_state (node s x) \<noteq> St_canceled"
    using work.inv_reachable [OF s] assms(3) by (auto simp: work_inv_def canceled_inv_def)
  with np assms(3,5) obtain h where "e_history s = h0 @ h"
    "(x, St_running) \<in> set h \<or> ex_state (node s x) = St_invalid"
    by (auto simp: fresh_or_owed_def must_plan_def)
  moreover have "ex_state (node s x) = St_done \<or> ex_state (node s x) = St_error \<or>
      (\<exists>d \<in> deps_of g x. ex_state (node s d) = St_error)"
    using idle_blocked [OF reachable_wf [OF s] machine.inv_reachable [OF s] order.inv_reachable [OF s]
        work.inv_reachable [OF s] idle assms(3) x] by blast
  ultimately show ?thesis by (metis task_state.distinct(3,5))
qed

section \<open>Delivering the calls of events\<close>

text \<open>
  The goroutines that \<open>runWatch\<close> starts for events: each of the calls \<open>C\<close> of \<open>Invalidate\<close> is
  made once, at any time and in any order, among calm steps of the machine.
\<close>

inductive delivers ::
  "(tid \<Rightarrow> 'w task) \<Rightarrow> (tid \<times> invalidation_event) set \<Rightarrow> executor \<Rightarrow>
   (tid \<times> invalidation_event) set \<Rightarrow> executor \<Rightarrow> bool" for g C s where
  deliver_none: "delivers g C s C s"
| deliver_step: "delivers g C s D s' \<Longrightarrow> calm_step g s' s'' \<Longrightarrow> delivers g C s D s''"
| deliver_call: "delivers g C s D s' \<Longrightarrow> (t, ev) \<in> D \<Longrightarrow>
    do_action g (A_invalidate n t ev) s' = Some s'' \<Longrightarrow> delivers g C s (D - {(t, ev)}) s''"

text \<open>A step is calm when it does not make a plan wait, or no run is there to be cancelled.\<close>

lemma calm_stepI:
  assumes "do_action g a s = Some s'"
    and "a = A_plan_next \<Longrightarrow> e_runs s = Map.empty \<or> (\<forall>x. \<not> waiting s' x)"
  shows "calm_step g s s'"
proof -
  have quiet: "waiting s x \<or> e_runs s = Map.empty" if "waiting s' x" for x
    using waiting_new [OF assms(1) _ that] assms(2) that by blast
  show ?thesis unfolding calm_step_def
  proof (intro conjI allI impI)
    show "exec_step g s s'" using assms(1) by (rule exec_step.act)
  next
    fix x i r
    assume "waiting s' x" "\<not> waiting s x" "e_runs s i = Some r"
    with quiet [of x] have False by simp
    then show "gr_pc r \<noteq> G_start" "gr_pc r \<noteq> G_write" by simp_all
  qed
qed

lemma invalidate_calm: "do_action g (A_invalidate n t ev) s = Some s' \<Longrightarrow> calm_step g s s'"
  by (erule calm_stepI) blast

lemma delivers_path: "delivers g C s D s' \<Longrightarrow> (calm_step g)\<^sup>*\<^sup>* s s'"
  by (induction rule: delivers.induct)
    (blast intro: rtranclp.rtrancl_into_rtrancl invalidate_calm)+

text \<open>A call on a task that accepts it leaves the task owed a start.\<close>

lemma call_owes:
  assumes "do_action g (A_invalidate n t ev) s = Some s'" and "\<not> rejects g t ev"
    and "e_history s = h0 @ h"
  shows "fresh_or_owed h0 t s'"
proof -
  from assms(1) obtain b m where m: "mark_invalid n g t ev (ts_exec s) = Some (b, m)"
    and s': "ts_exec s' = m" "e_history s' = e_history s"
    by (auto simp: op_invalidate_def invalidate_panics_def split: if_splits option.splits bool.splits prod.splits)
  show ?thesis
  proof (cases "ex_state (node s t) = St_invalid")
    case True
    then show ?thesis using assms(3) s' by (simp add: fresh_or_owed_def mark_invalid_fields [OF m])
  next
    case False
    then have "(t, ev) \<in> marks g (ts_exec s) t ev"
      using assms(2) by (intro marks.start) (simp add: accepts_def)
    then have "ex_pending (exec_of m t) \<noteq> {}"
      using mark_invalid_marked [OF m] marked_fields(6) by fastforce
    with assms(3) s' show ?thesis by (simp add: fresh_or_owed_def)
  qed
qed

lemma calm_history:
  assumes "(calm_step g)\<^sup>*\<^sup>* s s'" and "calm_reach g s"
  shows "\<exists>h. e_history s' = e_history s @ h"
  using assms
proof (induction rule: rtranclp_induct)
  case base
  then show ?case by simp
next
  case (step u v)
  have inv: "exec_inv g u" using calm_path [OF step(1,4)] calm.both_reachable by blast
  have "effect g u v" using step(2) step_effect [OF inv] unfolding calm_step_def by blast
  then have "\<exists>h. e_history v = e_history u @ h"
    by cases (auto dest!: same_coreD)
  with step show ?case by (metis append.assoc)
qed

lemma delivered_fresh:
  assumes "delivers g C s D s'" and "calm_reach g s" and "(t, ev) \<in> C" and "\<not> rejects g t ev"
  shows "(t, ev) \<in> D \<or> fresh_or_owed (e_history s) t s'"
  using assms(1)
proof (induction rule: delivers.induct)
  case deliver_none
  with assms(3) show ?case by simp
next
  case (deliver_step D s' s'')
  moreover have "calm_reach g s'" using calm_path [OF delivers_path [OF deliver_step(1)] assms(2)] by blast
  ultimately show ?case using fresh_step by blast
next
  case (deliver_call D s' u ev' n s'')
  have path: "(calm_step g)\<^sup>*\<^sup>* s s'" by (rule delivers_path [OF deliver_call(1)])
  show ?case
  proof (cases "(u, ev') = (t, ev)")
    case True
    with calm_history [OF path assms(2)] call_owes deliver_call(3) assms(4) show ?thesis by blast
  next
    case False
    moreover have "calm_reach g s'" using calm_path [OF path assms(2)] by blast
    ultimately show ?thesis
      using deliver_call fresh_step invalidate_calm by blast
  qed
qed

text \<open>
  C7. A changed file is built again: when a watcher's events report a path, each task that has it as a
  source, and does not reject the change, is started after that before the executor
  comes to rest, unless a task it depends on has failed; so a task that is done at rest was
  started after the change. This holds however the calls of \<open>Invalidate\<close> and the steps of
  runs, passes and plans interleave, but for the race of a cancelled run.
\<close>

theorem changed_sources_are_rebuilt:
  assumes "calm_reach g s" and "set ord = dom (ts_exec s)"
    and "watch_calls glob g ord evs = Return calls" and "ev \<in> set evs" and "we_file ev = path"
    and "delivers g (set calls) s {} s'" and "settled s'" and "\<not> root_done s'"
    and "ts_exec s t \<noteq> None" and "is_task_source glob (g t) path = Return True"
    and "\<not> rejects g t (FileChange path)"
  shows "\<exists>h. e_history s' = e_history s @ h \<and> ((t, St_running) \<in> set h \<or>
    ex_state (exec_of (ts_exec s') t) = St_invalid \<and>
    (\<exists>d \<in> deps_of g t. ex_state (exec_of (ts_exec s') d) = St_error))"
proof -
  have "(t, FileChange path) \<in> set calls"
    using watch_calls_set [OF assms(3)] assms(2,4,5,9,10) by auto
  from delivered_fresh [OF assms(6,1) this assms(11)]
  have fresh: "fresh_or_owed (e_history s) t s'" by simp
  have path: "(calm_step g)\<^sup>*\<^sup>* s s'" by (rule delivers_path [OF assms(6)])
  have "ts_exec s' t \<noteq> None"
    using calm_tasks [OF path assms(1)] assms(9) by (auto simp: tasks_of_def)
  with fresh_at_rest [OF _ assms(7,8) _ fresh] calm_path [OF path assms(1)] show ?thesis by blast
qed

section \<open>A task that is built twice\<close>

text \<open>Runs of the machine whose steps are seen to be calm as they are evaluated.\<close>

definition plan_waits :: "executor \<Rightarrow> bool" where
  "plan_waits s \<longleftrightarrow> (case e_mu s of Some (Planning th ts w) \<Rightarrow> w | _ \<Rightarrow> False)"

fun calm_actions :: "(tid \<Rightarrow> 'w task) \<Rightarrow> action list \<Rightarrow> executor \<Rightarrow> executor option" where
  "calm_actions g [] s = Some s"
| "calm_actions g (a # as) s =
     (case do_action g a s of
        None \<Rightarrow> None
      | Some s' \<Rightarrow>
          if a = A_plan_next \<and> plan_waits s' \<and> dom (e_runs s) \<noteq> {} then None
          else calm_actions g as s')"

lemma calm_actions_path:
  "calm_actions g as s = Some s' \<Longrightarrow> (calm_step g)\<^sup>*\<^sup>* s s'"
proof (induction as arbitrary: s)
  case Nil
  then show ?case by simp
next
  case (Cons a as)
  then obtain u where u: "do_action g a s = Some u" "calm_actions g as u = Some s'"
    and ok: "a = A_plan_next \<Longrightarrow> \<not> plan_waits u \<or> e_runs s = Map.empty"
    by (auto split: option.splits if_splits)
  have "plan_waits u" if "waiting u x" for x using that by (auto simp: waiting_def plan_waits_def)
  with ok have "calm_step g s u" by (intro calm_stepI [OF u(1)]) blast
  from converse_rtranclp_into_rtranclp [OF this Cons.IH [OF u(2)]] show ?case .
qed

lemma calm_path_delivers:
  assumes "(calm_step g)\<^sup>*\<^sup>* u v" and "delivers g C s D u"
  shows "delivers g C s D v"
  using assms by (induction rule: rtranclp_induct) (blast intro: deliver_step)+

definition solo :: "tid \<Rightarrow> unit task" where
  "solo t = go_task\<lparr>t_run := Some (\<lambda>c sh w. Return (None, w))\<rparr>"

definition solo_start :: executor where
  "solo_start = start_executor [0]
     \<lparr>ts_next = 2, ts_cancelled = {}, ts_exec = [0 \<mapsto> new_execution [1, 0] []]\<rparr>"

lemma solo_starts: "starts solo solo_start"
proof -
  have "wf (dep_rel solo)" by (rule rank_wf) (auto simp: solo_def go_task_def zero_task_def)
  moreover have "build_task_set 2 solo [''go'' \<mapsto> 0] [0] [''go''] (empty_task_set 1) = Some (Inr
     \<lparr>ts_next = 2, ts_cancelled = {}, ts_exec = [0 \<mapsto> new_execution [1, 0] []]\<rparr>)"
    by (simp add: eval_nat_numeral solo_def go_task_def with_cancel_def zero_task_def upd_exec_def
        exec_of_def new_execution_def empty_task_set_def fun_eq_iff)
  ultimately show ?thesis unfolding starts_def solo_start_def by fastforce
qed

text \<open>A pass that starts run \<open>i\<close>, and the run.\<close>

definition solo_pass :: "action list" where
  "solo_pass = [A_test_pass, A_lock_pass [0], A_visit, A_visit]"

definition solo_run :: "nat \<Rightarrow> action list" where
  "solo_run i = [A_start i, A_body i None, A_check i, A_write i, A_publish i, A_send i, A_keep 0 i,
     A_plan_run i [0], A_plan_next, A_pass_test i, A_lock_run i [0], A_visit, A_visit, A_return i]"

definition solo_replan :: "action list" where
  "solo_replan = [A_notify_ch, A_loop_recv, A_loop_timer, A_plan_loop [0], A_plan_next, A_plan_wait,
     A_plan_next]"

lemmas solo_eval = machine_eval solo_def go_task_def solo_start_def solo_pass_def solo_run_def
  solo_replan_def plan_waits_def

lemma solo_twice:
  "\<exists>s s1 s2. calm_actions solo (solo_pass @ solo_run 0) solo_start = Some s \<and>
     do_action solo (A_invalidate (Suc 0) 0 (FileChange ''a.go'')) s = Some s1 \<and>
     calm_actions solo (solo_replan @ solo_pass @ solo_run 1) s1 = Some s2 \<and>
     dom (ts_exec s) = {0} \<and> settled s2 \<and> \<not> root_done s2 \<and>
     ex_state (exec_of (ts_exec s2) 0) = St_done"
  by (simp add: solo_eval settled_def idle_def fun_eq_iff)

lemma solo_source: "is_task_source suffix_glob (solo t) ''a.go'' = Return True"
  by (simp add: is_task_source_def solo_def suffix_glob_def go_task_def zero_task_def suffix_def)

lemma changed_sources_are_rebuilt_witness:
  "\<exists>s s' h. calm_reach solo s \<and> settled s' \<and> e_history s' = e_history s @ h \<and>
     (0, St_running) \<in> set h"
proof -
  from solo_twice obtain s s1 s2 where first: "calm_actions solo (solo_pass @ solo_run 0) solo_start = Some s"
    and call: "do_action solo (A_invalidate (Suc 0) 0 (FileChange ''a.go'')) s = Some s1"
    and again: "calm_actions solo (solo_replan @ solo_pass @ solo_run 1) s1 = Some s2"
    and graph: "dom (ts_exec s) = {0}" and s2: "settled s2" "\<not> root_done s2"
    "ex_state (exec_of (ts_exec s2) 0) = St_done" by blast
  have s: "calm_reach solo s"
    by (rule calm_path [OF calm_actions_path [OF first], THEN conjunct1])
      (rule reachable_by.initial, rule solo_starts)
  let ?ev = "\<lparr>we_flags = 4, we_file = ''a.go''\<rparr>"
  have "watch_calls suffix_glob solo [0] [?ev] = Return [(0, FileChange ''a.go'')]"
    by (simp add: solo_source)
  moreover have "delivers solo (set [(0, FileChange ''a.go'')]) s {} s2"
    using calm_path_delivers [OF calm_actions_path [OF again]]
      deliver_call [OF deliver_none _ call, of "{(0, FileChange ''a.go'')}"] by simp
  moreover have "set [0] = dom (ts_exec s)" "ts_exec s 0 \<noteq> None" using graph by auto
  moreover have "is_task_source suffix_glob (solo 0) ''a.go'' = Return True"
    by (simp add: solo_source)
  moreover have "\<not> rejects solo 0 (FileChange ''a.go'')"
    by (simp add: rejects_def solo_def go_task_def zero_task_def)
  ultimately obtain h where "e_history s2 = e_history s @ h"
    "(0, St_running) \<in> set h \<or> ex_state (exec_of (ts_exec s2) 0) = St_invalid"
    using changed_sources_are_rebuilt [OF s _ _ _ _ _ s2(1,2),
        of "[0]" suffix_glob "[?ev]" "[(0, FileChange ''a.go'')]" ?ev "''a.go''" 0] by auto
  with s s2 show ?thesis by auto
qed

end
