(* ===== verification/Runner.thy ===== *)
theory Runner
  imports TaskSetBuild Flags Config Format
begin

text \<open>
  \<open>runner.go\<close>, and the parts of \<open>executor.go\<close> around it: the parsing of the command line, the
  grouping of the arguments of tasks, the choice of what to run, the construction of the
  executor, \<open>Executor.Run\<close> with its hooks, and the error that taskrunner exits with.
\<close>

section \<open>Options of taskrunner\<close>

text \<open>
  \<open>FlagSet.Parse\<close> of Go's package \<open>flag\<close>: it sets options until the first argument that is
  not one, or after \<open>--\<close>, and returns the arguments that remain. A flag is known by whether
  it is boolean and by the function that sets it.
\<close>

type_synonym 's option_flag = "bool \<times> (string \<Rightarrow> 's \<Rightarrow> string + 's)"

fun parse_options ::
  "(string \<rightharpoonup> 's option_flag) \<Rightarrow> string list \<Rightarrow> 's \<Rightarrow> string + 's \<times> string list" where
  "parse_options flags [] st = Inr (st, [])"
| "parse_options flags (s # rest) st =
     (if length s < 2 \<or> hd s \<noteq> CHR ''-'' then Inr (st, s # rest)
      else if s = ''--'' then Inr (st, rest)
      else
        (let name = (if s ! 1 = CHR ''-'' then drop 2 s else drop 1 s);
             key = takeWhile (\<lambda>c. c \<noteq> CHR ''='') name;
             has_value = (CHR ''='' \<in> set name);
             value = drop (Suc (length key)) name in
         if name = '''' \<or> hd name = CHR ''-'' \<or> hd name = CHR ''=''
         then Inl (''bad flag syntax: '' @ s)
         else
           (case flags key of
              None \<Rightarrow> Inl (if key = ''help'' \<or> key = ''h'' then ''flag: help requested''
                          else ''flag provided but not defined: -'' @ key)
            | Some (is_bool, set_to) \<Rightarrow>
                if is_bool then
                  (case set_to (if has_value then value else ''true'') st of
                     Inl e \<Rightarrow> Inl (''invalid boolean value for -'' @ key @ '': '' @ e)
                   | Inr st' \<Rightarrow> parse_options flags rest st')
                else if has_value then
                  (case set_to value st of
                     Inl e \<Rightarrow> Inl (''invalid value for flag -'' @ key @ '': '' @ e)
                   | Inr st' \<Rightarrow> parse_options flags rest st')
                else
                  (case rest of
                     [] \<Rightarrow> Inl (''flag needs an argument: -'' @ key)
                   | v # rest' \<Rightarrow>
                       (case set_to v st of
                          Inl e \<Rightarrow> Inl (''invalid value for flag -'' @ key @ '': '' @ e)
                        | Inr st' \<Rightarrow> parse_options flags rest' st')))))"

text \<open>The six options of \<open>newRuntime\<close>; others may be registered with \<open>WithFlag\<close>.\<close>

record cli =
  cl_config_file :: string
  cl_non_interactive :: bool
  cl_list_tasks :: bool
  cl_list_all_tasks :: bool
  cl_watch :: bool
  cl_describe_tasks :: bool

definition initial_cli :: cli where
  "initial_cli = \<lparr>cl_config_file = '''', cl_non_interactive = False, cl_list_tasks = False,
     cl_list_all_tasks = False, cl_watch = False, cl_describe_tasks = False\<rparr>"

definition bool_option :: "(bool \<Rightarrow> cli \<Rightarrow> cli) \<Rightarrow> cli option_flag" where
  "bool_option upd = (True, \<lambda>v st.
     (case parse_bool v of None \<Rightarrow> Inl ''parse error'' | Some b \<Rightarrow> Inr (upd b st)))"

definition runtime_flags :: "string \<rightharpoonup> cli option_flag" where
  "runtime_flags =
     [''config'' \<mapsto> (False, \<lambda>v st. Inr (st\<lparr>cl_config_file := v\<rparr>)),
      ''non-interactive'' \<mapsto> bool_option (\<lambda>b st. st\<lparr>cl_non_interactive := b\<rparr>),
      ''list'' \<mapsto> bool_option (\<lambda>b st. st\<lparr>cl_list_tasks := b\<rparr>),
      ''listAll'' \<mapsto> bool_option (\<lambda>b st. st\<lparr>cl_list_all_tasks := b\<rparr>),
      ''watch'' \<mapsto> bool_option (\<lambda>b st. st\<lparr>cl_watch := b\<rparr>),
      ''describe'' \<mapsto> bool_option (\<lambda>b st. st\<lparr>cl_describe_tasks := b\<rparr>)]"

section \<open>The arguments of tasks\<close>

text \<open>
  \<open>groupTaskAndFlagArgs\<close>: the state of its loop, one iteration, and the whole. The name of
  no task is the empty string.
\<close>

record group_state =
  gs_groups :: "string \<rightharpoonup> string list"
  gs_task :: string
  gs_flags :: "string list"
  gs_invalid :: bool

definition is_flag :: "string \<Rightarrow> bool" where
  "is_flag arg \<longleftrightarrow> has_prefix arg ''-'' \<or> has_prefix arg ''--''"

definition store_group :: "group_state \<Rightarrow> string \<rightharpoonup> string list" where
  "store_group s =
     (if gs_task s \<noteq> '''' then (gs_groups s)(gs_task s \<mapsto> gs_flags s) else gs_groups s)"

definition group_step :: "registry \<Rightarrow> string \<Rightarrow> group_state \<Rightarrow> group_state" where
  "group_step reg arg s =
     (if is_flag arg then
        (if gs_task s \<noteq> '''' then s\<lparr>gs_flags := gs_flags s @ [arg]\<rparr> else s)
      else
        (let s1 = (if gs_task s \<noteq> ''''
                   then s\<lparr>gs_groups := store_group s, gs_task := '''', gs_flags := []\<rparr> else s) in
         if reg_definitions reg arg \<noteq> None then s1\<lparr>gs_task := arg, gs_flags := []\<rparr>
         else s1\<lparr>gs_invalid := True\<rparr>))"

definition group_args :: "registry \<Rightarrow> string list \<Rightarrow> (string \<rightharpoonup> string list) \<times> bool" where
  "group_args reg args =
     (let s = fold (group_step reg) args
                \<lparr>gs_groups = Map.empty, gs_task = '''', gs_flags = [], gs_invalid = False\<rparr> in
      (store_group s, gs_invalid s))"

section \<open>What to run\<close>

record run_plan =
  rp_config :: config
  rp_desired :: "string list"
  rp_watch :: bool
  rp_flag_args :: "string \<rightharpoonup> string list"
  rp_tasks :: "tid list"

datatype run_choice =
    Fatal string
  | Print string
  | Describe "(string \<times> string) list"
  | Execute run_plan

definition list_output :: "(tid \<Rightarrow> 'w task) \<Rightarrow> bool \<Rightarrow> tid list \<Rightarrow> string" where
  "list_output g visible_only tasks =
     fold (\<lambda>t out. if visible_only \<and> t_hidden (g t) then out
                    else out @ newline # CHR 0x09 # t_name (g t)) tasks
       (''Run specified tasks with `taskrunner taskname1 taskname2`'' @ newline # ''Tasks available:'')"

text \<open>
  The desired tasks and the watch mode; \<open>ord\<close> is the order of the range over the groups.
\<close>

definition choose_tasks ::
  "cli \<Rightarrow> config \<Rightarrow> bool \<Rightarrow> string list \<Rightarrow> string + string list \<times> bool" where
  "choose_tasks st c found_invalid ord =
     (if ord = [] then
        (if found_invalid then Inl ''Error: invalid target task(s)''
         else Inr (c_desired_tasks c, \<not> cl_non_interactive st))
      else Inr (ord, cl_watch st))"

text \<open>
  \<open>Run\<close> up to the executor, on a file system \<open>env\<close> with fuel \<open>n\<close> for \<open>ReadConfig\<close>;
  \<open>tord\<close> is the order of the range over the definitions, \<open>gord\<close> gives that over the groups.
\<close>

definition run_decide ::
  "nat \<Rightarrow> config_env \<Rightarrow> registry \<Rightarrow> (tid \<Rightarrow> 'w task) \<Rightarrow> (string \<rightharpoonup> cli option_flag) \<Rightarrow>
   string list \<Rightarrow> ((string \<rightharpoonup> string list) \<Rightarrow> string list) \<Rightarrow> string list \<Rightarrow> run_choice option" where
  "run_decide n env reg g flags tord gord args =
     (case parse_options flags args initial_cli of
        Inl e \<Rightarrow> Some (Fatal (''Error: failed to parse flags: '' @ e))
      | Inr (st, rest) \<Rightarrow>
          (case (if cl_config_file st = '''' then read_default_config n env
                 else read_config n env (cl_config_file st)) of
             None \<Rightarrow> None
           | Some (Inl e) \<Rightarrow> Some (Fatal ''Error: unable to read config'')
           | Some (Inr c) \<Rightarrow>
               (let tasks = registry_tasks g tord reg in
                if tasks = [] then Some (Fatal ''Error: no task definitions found.'')
                else if cl_list_tasks st \<and> cl_list_all_tasks st then
                  Some (Fatal ''--list and --listAll cannot be specified at the same time. Please only use one.'')
                else if cl_list_tasks st \<or> cl_list_all_tasks st then
                  Some (Print (list_output g (cl_list_tasks st) tasks))
                else if cl_describe_tasks st then
                  Some (Describe (map (\<lambda>t. (t_name (g t), t_description (g t))) tasks))
                else
                  (let (groups, found_invalid) = group_args reg rest in
                   case choose_tasks st c found_invalid (gord groups) of
                     Inl msg \<Rightarrow> Some (Fatal msg)
                   | Inr (desired, watch_mode) \<Rightarrow>
                       Some (Execute \<lparr>rp_config = c, rp_desired = desired, rp_watch = watch_mode,
                                      rp_flag_args = groups, rp_tasks = tasks\<rparr>)))))"

section \<open>The groups are those of the last mentions\<close>

text \<open>
  What a name's group should be: the flags that directly follow its last mention.
\<close>

fun last_group :: "string list \<Rightarrow> string \<Rightarrow> string list option" where
  "last_group [] name = None"
| "last_group (a # as) name =
     (case last_group as name of
        Some fs \<Rightarrow> Some fs
      | None \<Rightarrow> if a = name \<and> \<not> is_flag a then Some (takeWhile is_flag as) else None)"

definition named_task :: "registry \<Rightarrow> string \<Rightarrow> bool" where
  "named_task reg name \<longleftrightarrow> name \<noteq> '''' \<and> reg_definitions reg name \<noteq> None"

lemma last_group_None: "last_group args name = None \<longleftrightarrow> (name \<in> set args \<longrightarrow> is_flag name)"
  by (induction args) (auto split: option.splits)

lemma group_fold:
  assumes "gs_task s \<noteq> '''' \<Longrightarrow> named_task reg (gs_task s)"
  shows "store_group (fold (group_step reg) args s) name =
      (case (if named_task reg name then last_group args name else None) of
         Some fs \<Rightarrow> Some fs
       | None \<Rightarrow> if gs_task s = name \<and> name \<noteq> '''' then Some (gs_flags s @ takeWhile is_flag args)
                 else gs_groups s name) \<and>
    (gs_invalid (fold (group_step reg) args s) \<longleftrightarrow>
       gs_invalid s \<or> (\<exists>a \<in> set args. \<not> is_flag a \<and> reg_definitions reg a = None))"
  using assms
proof (induction args arbitrary: s)
  case Nil
  then show ?case by (simp add: store_group_def)
next
  case (Cons a as)
  have "gs_task (group_step reg a s) \<noteq> '''' \<Longrightarrow> named_task reg (gs_task (group_step reg a s))"
    using Cons.prems by (auto simp: group_step_def Let_def named_task_def split: if_splits)
  note IH = Cons.IH [OF this]
  show ?case
  proof (cases "is_flag a")
    case True
    with IH Cons.prems show ?thesis
      by (auto simp: group_step_def split: option.splits)
  next
    case False
    have s': "gs_groups (group_step reg a s) = store_group s"
      "gs_task (group_step reg a s) = (if reg_definitions reg a = None then '''' else a)"
      "gs_invalid (group_step reg a s) \<longleftrightarrow> gs_invalid s \<or> reg_definitions reg a = None"
      "reg_definitions reg a \<noteq> None \<Longrightarrow> gs_flags (group_step reg a s) = []"
      using False by (auto simp: group_step_def Let_def store_group_def)
    have store: "store_group s name =
        (if gs_task s = name \<and> name \<noteq> '''' then Some (gs_flags s) else gs_groups s name)"
      by (simp add: store_group_def)
    show ?thesis
    proof (cases "reg_definitions reg a")
      case None
      then have "a = name \<Longrightarrow> \<not> named_task reg name" by (auto simp: named_task_def)
      with IH False s' store None show ?thesis
        by (cases "a = name"; cases "named_task reg name"; cases "last_group as name")
          (auto simp: named_task_def)
    next
      case (Some t)
      with IH False s' store show ?thesis
        by (cases "a = name"; cases "last_group as name") (auto simp: named_task_def)
    qed
  qed
qed

lemmas group_fold_start =
  group_fold [of "\<lparr>gs_groups = Map.empty, gs_task = [], gs_flags = [], gs_invalid = False\<rparr>"]

lemma group_args_eq:
  "fst (group_args reg args) name = (if named_task reg name then last_group args name else None)"
  using group_fold_start [of reg args name]
  by (auto simp: group_args_def Let_def split: option.splits if_splits)

lemma group_args_invalid:
  "snd (group_args reg args) \<longleftrightarrow> (\<exists>a \<in> set args. \<not> is_flag a \<and> reg_definitions reg a = None)"
  using group_fold_start [of reg args] by (simp add: group_args_def Let_def)

text \<open>
  C26. The grouping of arguments: a registered task that is named on the command line gets
  exactly the flags that directly follow its last mention, no other name gets a group, and
  unknown tasks are reported exactly when an argument that is not a flag names none; flags
  before the first task and after an unknown one go nowhere.
\<close>

theorem group_args_correct:
  "fst (group_args reg args) name =
     (if name \<noteq> '''' \<and> reg_definitions reg name \<noteq> None then last_group args name else None) \<and>
   (snd (group_args reg args) \<longleftrightarrow>
     (\<exists>a \<in> set args. \<not> is_flag a \<and> reg_definitions reg a = None))"
  by (simp add: group_args_eq group_args_invalid named_task_def)

section \<open>The choice of what to run\<close>

definition task_args :: "registry \<Rightarrow> string list \<Rightarrow> string list" where
  "task_args reg args = filter (\<lambda>a. \<not> is_flag a \<and> named_task reg a) args"

lemma groups_dom: "dom (fst (group_args reg args)) = set (task_args reg args)"
proof -
  have "name \<in> dom (fst (group_args reg args)) \<longleftrightarrow> name \<in> set (task_args reg args)" for name
    using group_args_eq [of reg args name] last_group_None [of args name]
    by (auto simp: task_args_def named_task_def dom_def split: if_splits)
  then show ?thesis by blast
qed

lemma run_executes_named:
  assumes "run_decide n env reg g flags tord gord args = Some (Execute plan)"
    and "is_order (gord (rp_flag_args plan)) (rp_flag_args plan)"
  shows "\<exists>st rest. parse_options flags args initial_cli = Inr (st, rest) \<and>
    \<not> cl_list_tasks st \<and> \<not> cl_list_all_tasks st \<and> \<not> cl_describe_tasks st \<and>
    rp_flag_args plan = fst (group_args reg rest) \<and>
    (if task_args reg rest \<noteq> []
     then set (rp_desired plan) = set (task_args reg rest) \<and> distinct (rp_desired plan) \<and>
       rp_watch plan = cl_watch st
     else (\<forall>a \<in> set rest. is_flag a \<or> a = '''') \<and>
       rp_desired plan = c_desired_tasks (rp_config plan) \<and>
       rp_watch plan = (\<not> cl_non_interactive st))"
proof -
  from assms(1) obtain st rest where opts: "parse_options flags args initial_cli = Inr (st, rest)"
    by (auto simp: run_decide_def split: sum.splits)
  let ?groups = "fst (group_args reg rest)"
  from assms(1) opts obtain c where none: "\<not> cl_list_tasks st" "\<not> cl_list_all_tasks st"
    "\<not> cl_describe_tasks st" and groups: "rp_flag_args plan = ?groups" and c: "rp_config plan = c"
    and choice: "choose_tasks st c (snd (group_args reg rest)) (gord ?groups) =
      Inr (rp_desired plan, rp_watch plan)"
    by (auto simp: run_decide_def Let_def split: option.splits sum.splits if_splits prod.splits)
  have ord: "distinct (gord ?groups)" "set (gord ?groups) = set (task_args reg rest)"
    using assms(2) groups groups_dom [of reg rest] by (auto simp: is_order_def)
  then have empty: "gord ?groups = [] \<longleftrightarrow> task_args reg rest = []" by auto
  have unknown: "\<forall>a \<in> set rest. is_flag a \<or> a = ''''"
    if "\<not> snd (group_args reg rest)" "task_args reg rest = []"
    using that group_args_invalid [of reg rest]
    by (auto simp: task_args_def named_task_def filter_empty_conv)
  have "if task_args reg rest \<noteq> []
     then set (rp_desired plan) = set (task_args reg rest) \<and> distinct (rp_desired plan) \<and>
       rp_watch plan = cl_watch st
     else (\<forall>a \<in> set rest. is_flag a \<or> a = '''') \<and> rp_desired plan = c_desired_tasks c \<and>
       rp_watch plan = (\<not> cl_non_interactive st)"
    using choice ord empty unknown by (auto simp: choose_tasks_def split: if_splits)
  with opts none groups c show ?thesis by blast
qed

text \<open>
  C25. What taskrunner executes: the options before the first argument that is not one are its
  own, and it runs tasks only when none of them asks for a list or a description. When the
  remaining arguments name registered tasks, it runs exactly these, in watch mode if it was
  asked to; otherwise no argument is an unknown task, and it runs the tasks of the
  configuration, in watch mode unless it is non-interactive. An unknown name among valid
  ones is dropped, and unknown names alone never start the default tasks.
\<close>

theorem run_executes_what_was_named:
  assumes "run_decide n env reg g flags tord gord args = Some (Execute plan)"
    and "is_order (gord (rp_flag_args plan)) (rp_flag_args plan)"
  shows "\<exists>st rest. parse_options flags args initial_cli = Inr (st, rest) \<and>
    \<not> cl_list_tasks st \<and> \<not> cl_list_all_tasks st \<and> \<not> cl_describe_tasks st \<and>
    rp_flag_args plan = fst (group_args reg rest) \<and>
    (if task_args reg rest \<noteq> []
     then set (rp_desired plan) = set (task_args reg rest) \<and> distinct (rp_desired plan) \<and>
       rp_watch plan = cl_watch st
     else (\<forall>a \<in> set rest. is_flag a \<or> a = '''') \<and>
       rp_desired plan = c_desired_tasks (rp_config plan) \<and>
       rp_watch plan = (\<not> cl_non_interactive st))"
  by (rule run_executes_named [OF assms])

text \<open>Two tasks, the first with a flag, on the command line.\<close>

definition demo_args :: "string list" where
  "demo_args = [''--config'', ''./u'', ''-watch=true'', ''build'', ''--mode=a'', ''nonsense'', ''-x'']"

definition demo_cli :: cli where
  "demo_cli = initial_cli\<lparr>cl_config_file := ''./u'', cl_watch := True\<rparr>"

definition demo_plan :: run_plan where
  "demo_plan = \<lparr>rp_config = \<lparr>c_working_dir = ''/x'', c_config_path = ''/w/u'',
       c_desired_tasks = [''lint'', ''go'']\<rparr>,
     rp_desired = [''build''], rp_watch = True, rp_flag_args = [''build'' \<mapsto> [''--mode=a'']],
     rp_tasks = [1, 0]\<rparr>"

lemma demo_options:
  "parse_options runtime_flags demo_args initial_cli =
     Inr (demo_cli, [''build'', ''--mode=a'', ''nonsense'', ''-x''])"
  by (simp add: demo_args_def runtime_flags_def bool_option_def parse_bool_def demo_cli_def
      initial_cli_def Let_def)

lemma demo_groups:
  "group_args demo_registry [''build'', ''--mode=a'', ''nonsense'', ''-x''] =
     ([''build'' \<mapsto> [''--mode=a'']], True)"
  by (simp add: group_args_def group_step_def is_flag_def demo_registry_def store_group_def)

lemma demo_sorted: "registry_tasks demo_tasks [''build'', ''all''] demo_registry = [1, 0]"
  by (simp add: registry_tasks_def demo_registry_def demo_tasks_def zero_task_def less_char_def
      less_eq_char_def)

lemma demo_read3: "read_config 3 demo_env ''./u'' = Some (Inr (rp_config demo_plan))"
  unfolding demo_plan_def by code_simp

lemma demo_cli_fields [simp]:
  "cl_config_file demo_cli = ''./u''" "\<not> cl_list_tasks demo_cli" "\<not> cl_list_all_tasks demo_cli"
  "\<not> cl_describe_tasks demo_cli" "cl_watch demo_cli"
  by (simp_all add: demo_cli_def initial_cli_def)

lemma demo_decide:
  "run_decide 3 demo_env demo_registry demo_tasks runtime_flags [''build'', ''all'']
     (\<lambda>m. [''build'']) demo_args = Some (Execute demo_plan)"
  unfolding run_decide_def demo_options
  by (simp add: demo_groups demo_sorted demo_read3 choose_tasks_def) (simp add: demo_plan_def)

theorem run_executes_what_was_named_witness:
  "parse_options runtime_flags demo_args initial_cli =
      Inr (demo_cli, [''build'', ''--mode=a'', ''nonsense'', ''-x'']) \<and>
    rp_desired demo_plan = [''build''] \<and> rp_watch demo_plan = cl_watch demo_cli"
proof -
  have "is_order [''build''] (rp_flag_args demo_plan)" by (simp add: is_order_def demo_plan_def)
  moreover have "task_args demo_registry [''build'', ''--mode=a'', ''nonsense'', ''-x''] = [''build'']"
    by (simp add: task_args_def is_flag_def named_task_def demo_registry_def)
  ultimately show ?thesis
    using run_executes_what_was_named [OF demo_decide] demo_options by (auto simp: demo_plan_def)
qed

section \<open>The executor\<close>

text \<open>
  The fields of the executor that its options write; watcher enhancers act on watchers \<open>'v\<close>.
\<close>

record 'v executor_setup =
  es_config :: config
  es_registry :: "string \<rightharpoonup> tid"
  es_flags :: "string \<rightharpoonup> (string \<rightharpoonup> task_flag)"
  es_flag_args :: "string \<rightharpoonup> string list"
  es_watch_mode :: bool
  es_shell_options :: "run_option list"
  es_enhancers :: "('v \<Rightarrow> 'v) list"

type_synonym 'v executor_option = "'v executor_setup \<Rightarrow> 'v executor_setup"

definition with_watcher_enhancer :: "('v \<Rightarrow> 'v) \<Rightarrow> 'v executor_option" where
  "with_watcher_enhancer we e = e\<lparr>es_enhancers := es_enhancers e @ [we]\<rparr>"

definition with_watch_mode :: "bool \<Rightarrow> 'v executor_option" where
  "with_watch_mode b e = e\<lparr>es_watch_mode := b\<rparr>"

definition shell_run_options :: "run_option list \<Rightarrow> 'v executor_option" where
  "shell_run_options opts e = e\<lparr>es_shell_options := es_shell_options e @ opts\<rparr>"

definition new_executor ::
  "config \<Rightarrow> (tid \<Rightarrow> 'w task) \<Rightarrow> tid list \<Rightarrow> 'v executor_option list \<Rightarrow> 'v executor_setup" where
  "new_executor c g tasks opts =
     (let e = fold (\<lambda>opt e. opt e) opts
                \<lparr>es_config = c, es_registry = Map.empty, es_flags = Map.empty,
                 es_flag_args = Map.empty, es_watch_mode = False, es_shell_options = [],
                 es_enhancers = []\<rparr> in
      e\<lparr>es_registry := fold (\<lambda>t m. m(t_name (g t) \<mapsto> t)) tasks (es_registry e)\<rparr>)"

text \<open>
  The runtime, with which extensions register subscriptions \<open>'s\<close>, hooks \<open>'h\<close>, flags of the
  command line, and options of the executor. Each registration appends.
\<close>

record ('s, 'h, 'v) runtime =
  rt_subscriptions :: "'s list"
  rt_on_start_hooks :: "'h list"
  rt_on_stop_hooks :: "'h list"
  rt_executor_options :: "'v executor_option list"
  rt_flags :: "string \<rightharpoonup> cli option_flag"

definition new_runtime :: "('s, 'h, 'v) runtime" where
  "new_runtime = \<lparr>rt_subscriptions = [], rt_on_start_hooks = [], rt_on_stop_hooks = [],
     rt_executor_options = [], rt_flags = runtime_flags\<rparr>"

definition on_start :: "'h \<Rightarrow> ('s, 'h, 'v) runtime \<Rightarrow> ('s, 'h, 'v) runtime" where
  "on_start f r = r\<lparr>rt_on_start_hooks := rt_on_start_hooks r @ [f]\<rparr>"

definition subscribe :: "'s \<Rightarrow> ('s, 'h, 'v) runtime \<Rightarrow> ('s, 'h, 'v) runtime" where
  "subscribe f r = r\<lparr>rt_subscriptions := rt_subscriptions r @ [f]\<rparr>"

definition on_stop :: "'h \<Rightarrow> ('s, 'h, 'v) runtime \<Rightarrow> ('s, 'h, 'v) runtime" where
  "on_stop f r = r\<lparr>rt_on_stop_hooks := rt_on_stop_hooks r @ [f]\<rparr>"

definition with_flag ::
  "((string \<rightharpoonup> cli option_flag) \<Rightarrow> (string \<rightharpoonup> cli option_flag)) \<Rightarrow>
   ('s, 'h, 'v) runtime \<Rightarrow> ('s, 'h, 'v) runtime" where
  "with_flag f r = r\<lparr>rt_flags := f (rt_flags r)\<rparr>"

definition executor_options ::
  "'v executor_option list \<Rightarrow> ('s, 'h, 'v) runtime \<Rightarrow> ('s, 'h, 'v) runtime" where
  "executor_options opts r = r\<lparr>rt_executor_options := rt_executor_options r @ opts\<rparr>"

definition apply_run_options ::
  "(('s, 'h, 'v) runtime \<Rightarrow> ('s, 'h, 'v) runtime) list \<Rightarrow> ('s, 'h, 'v) runtime" where
  "apply_run_options opts = fold (\<lambda>opt r. opt r) opts new_runtime"

text \<open>The executor that \<open>Run\<close> makes for a plan, with the options \<open>opts\<close> of the runtime.\<close>

definition plan_executor ::
  "(tid \<Rightarrow> 'w task) \<Rightarrow> registry \<Rightarrow> 'v executor_option list \<Rightarrow> run_plan \<Rightarrow> 'v executor_setup" where
  "plan_executor g reg opts plan =
     new_executor (rp_config plan) g (rp_tasks plan)
       ([with_watch_mode (rp_watch plan)] @ opts @
        [\<lambda>e. e\<lparr>es_flag_args := rp_flag_args plan\<rparr>, \<lambda>e. e\<lparr>es_flags := reg_flags reg\<rparr>])"

section \<open>Executor.Run\<close>

text \<open>
  \<open>Run\<close> is a sequence of the following calls. What the hooks return is a list of errors,
  and \<open>wait\<close> is the result of \<open>wg.Wait\<close>; \<open>ord\<close> is the order of the range over the graph.
\<close>

datatype run_call =
    Invalidation_loop
  | Watch
  | Help_text string
  | On_start nat
  | Run_pass
  | On_stop nat
  | Close_events

fun run_hooks :: "string \<Rightarrow> nat \<Rightarrow> go_error option list \<Rightarrow> go_error option \<Rightarrow> go_error option" where
  "run_hooks what i [] errors = errors"
| "run_hooks what i (e # es) errors =
     run_hooks what (Suc i) es
       (if e \<noteq> None then multi_append errors (wrapf (what @ '' hook '' @ nat_string i @ '' failed'') e)
        else errors)"

definition asks_help :: "'v executor_setup \<Rightarrow> string \<Rightarrow> bool" where
  "asks_help e name \<longleftrightarrow> (case es_flag_args e name of None \<Rightarrow> False
     | Some flags \<Rightarrow> list_ex (\<lambda>f. f = ''-h'' \<or> f = ''--help'') flags)"

definition executor_run ::
  "nat \<Rightarrow> (tid \<Rightarrow> 'w task) \<Rightarrow> 'v executor_setup \<Rightarrow> ctx \<Rightarrow> nat \<Rightarrow> string list \<Rightarrow> tid list \<Rightarrow>
   go_error option list \<Rightarrow> (task_set \<Rightarrow> go_error option) \<Rightarrow> go_error option list \<Rightarrow>
   (run_call list \<times> go_error option) option" where
  "executor_run n g e root k names ord starts_errs wait stops_errs =
     (let prologue = Invalidation_loop # (if es_watch_mode e then [Watch] else []) in
      case build_task_set n g (es_registry e) root names (empty_task_set k) of
        None \<Rightarrow> None
      | Some (Inl err) \<Rightarrow> Some (prologue @ [Close_events], Some err)
      | Some (Inr ts) \<Rightarrow>
          (let helps = filter (asks_help e) (map (\<lambda>t. t_name (g t)) ord) in
           if helps \<noteq> [] then Some (prologue @ map Help_text helps @ [Close_events], None)
           else
             (let errors = run_hooks ''OnStart'' 0 starts_errs None;
                  calls = prologue @ map On_start [0..<length starts_errs] in
              if errors \<noteq> None then Some (calls @ [Close_events], errors)
              else
                (let errors = multi_append errors (wait ts) in
                 Some (calls @ [Run_pass] @ map On_stop [0..<length stops_errs] @ [Close_events],
                       run_hooks ''OnStop'' 0 stops_errs errors)))))"

text \<open>
  The error of the goroutine that \<open>Run\<close> starts for the executor, and the error with which
  taskrunner exits: the first that a member of the errgroup returned, subscriptions included.
\<close>

definition run_error :: "bool \<Rightarrow> go_error option \<Rightarrow> go_error option" where
  "run_error watch_mode err =
     (if map_option cause err = Some ErrUndefinedTaskName \<or> \<not> watch_mode
      then wrapf ''running executor'' err else None)"

definition subscription_error :: "go_error option \<Rightarrow> go_error option" where
  "subscription_error err = wrapf ''subscription error'' err"

fun group_wait :: "go_error option list \<Rightarrow> go_error option" where
  "group_wait [] = None"
| "group_wait (e # es) = (if e \<noteq> None then e else group_wait es)"

lemma build_task_set_cases:
  assumes "build_task_set n g reg c names s = Some r"
  shows "(\<exists>ts. r = Inr ts) \<and> set names \<subseteq> dom reg \<or>
    (\<exists>err. r = Inl err \<and> cause err = ErrUndefinedTaskName) \<and> \<not> set names \<subseteq> dom reg"
  using assms
proof (induction names arbitrary: s)
  case Nil
  then show ?case by auto
next
  case (Cons name names)
  show ?case
  proof (cases "reg name")
    case None
    with Cons.prems show ?thesis by auto
  next
    case (Some t)
    with Cons.prems obtain s' ds where "build_task_set n g reg c names s' = Some r"
      by (auto split: option.splits)
    from Cons.IH [OF this] Some show ?thesis by auto
  qed
qed

lemma run_hooks_None: "run_hooks what i es errors = None \<longleftrightarrow> errors = None \<and> set es \<subseteq> {None}"
  by (induction what i es errors rule: run_hooks.induct) auto

lemma helps_empty:
  "filter (asks_help e) (map f ord) = [] \<longleftrightarrow> (\<forall>t \<in> set ord. \<not> asks_help e (f t))"
  by (auto simp: filter_empty_conv)

lemma executor_run_correct:
  assumes "executor_run n g e root k names ord start_errs wait stop_errs = Some (calls, err)"
  shows "(Run_pass \<in> set calls \<longleftrightarrow> set names \<subseteq> dom (es_registry e) \<and>
      (\<forall>t \<in> set ord. \<not> asks_help e (t_name (g t))) \<and> set start_errs \<subseteq> {None}) \<and>
    (Run_pass \<in> set calls \<longrightarrow> calls = Invalidation_loop # (if es_watch_mode e then [Watch] else []) @
      map On_start [0..<length start_errs] @ Run_pass # map On_stop [0..<length stop_errs] @ [Close_events]) \<and>
    (err = None \<longleftrightarrow> set names \<subseteq> dom (es_registry e) \<and>
      ((\<exists>t \<in> set ord. asks_help e (t_name (g t))) \<or>
       set start_errs \<subseteq> {None} \<and> set stop_errs \<subseteq> {None} \<and>
       (\<exists>ts. build_task_set n g (es_registry e) root names (empty_task_set k) = Some (Inr ts) \<and>
          wait ts = None))) \<and>
    (\<not> set names \<subseteq> dom (es_registry e) \<longrightarrow> map_option cause err = Some ErrUndefinedTaskName) \<and>
    last calls = Close_events"
proof -
  let ?b = "build_task_set n g (es_registry e) root names (empty_task_set k)"
  from assms obtain r where r: "?b = Some r"
    by (cases ?b) (auto simp: executor_run_def)
  from build_task_set_cases [OF r] show ?thesis
  proof
    assume "(\<exists>ts. r = Inr ts) \<and> set names \<subseteq> dom (es_registry e)"
    then obtain ts where ts: "r = Inr ts" and names: "set names \<subseteq> dom (es_registry e)" by blast
    show ?thesis
    proof (cases "\<forall>t \<in> set ord. \<not> asks_help e (t_name (g t))")
      case True
      then have none: "filter (asks_help e) (map (\<lambda>t. t_name (g t)) ord) = []"
        by (simp only: helps_empty)
      show ?thesis
      proof (cases "set start_errs \<subseteq> {None}")
        case start: True
        then have "run_hooks ''OnStart'' 0 start_errs None = None" by (simp add: run_hooks_None)
        then show ?thesis
          using assms r ts names True start
          by (auto simp: executor_run_def none Let_def run_hooks_None [of "''OnStop''"])
      next
        case start: False
        then obtain er where er: "run_hooks ''OnStart'' 0 start_errs None = Some er"
          using run_hooks_None [of "''OnStart''" 0 start_errs None] by (metis not_None_eq)
        show ?thesis
          using assms r ts names True start
          by (auto simp: executor_run_def none Let_def er run_hooks_None [of "''OnStop''"])
      qed
    next
      case False
      then have some: "filter (asks_help e) (map (\<lambda>t. t_name (g t)) ord) \<noteq> []"
        using helps_empty [of e "\<lambda>t. t_name (g t)" ord] by blast
      show ?thesis
        using assms r ts names False some by (auto simp: executor_run_def Let_def)
    qed
  next
    assume "(\<exists>err. r = Inl err \<and> cause err = ErrUndefinedTaskName) \<and> \<not> set names \<subseteq> dom (es_registry e)"
    then show ?thesis using assms r by (auto simp: executor_run_def Let_def)
  qed
qed

text \<open>
  C24. \<open>Executor.Run\<close> runs the tasks exactly when all names are defined, no task of the graph
  was asked for its help and no start hook failed; then the start hooks come before, and all
  stop hooks after the tasks have ended. It returns no error exactly when the names are
  defined and either help was shown or hooks and tasks all succeeded; an undefined name gives
  the sentinel error. In every case closing the event channels is the last of \<open>Run\<close>'s own
  calls (the invalidation loop may still publish then, see \<open>Delivery\<close>).
\<close>

theorem executor_run_verdict:
  assumes "executor_run n g e root k names ord start_errs wait stop_errs = Some (calls, err)"
  shows "(Run_pass \<in> set calls \<longleftrightarrow> set names \<subseteq> dom (es_registry e) \<and>
      (\<forall>t \<in> set ord. \<not> asks_help e (t_name (g t))) \<and> set start_errs \<subseteq> {None}) \<and>
    (Run_pass \<in> set calls \<longrightarrow> calls = Invalidation_loop # (if es_watch_mode e then [Watch] else []) @
      map On_start [0..<length start_errs] @ Run_pass # map On_stop [0..<length stop_errs] @ [Close_events]) \<and>
    (err = None \<longleftrightarrow> set names \<subseteq> dom (es_registry e) \<and>
      ((\<exists>t \<in> set ord. asks_help e (t_name (g t))) \<or>
       set start_errs \<subseteq> {None} \<and> set stop_errs \<subseteq> {None} \<and>
       (\<exists>ts. build_task_set n g (es_registry e) root names (empty_task_set k) = Some (Inr ts) \<and>
          wait ts = None))) \<and>
    (\<not> set names \<subseteq> dom (es_registry e) \<longrightarrow> map_option cause err = Some ErrUndefinedTaskName) \<and>
    last calls = Close_events"
  by (rule executor_run_correct [OF assms])

text \<open>A run of one task with a stop hook that fails.\<close>

definition demo_setup :: "unit executor_setup" where
  "demo_setup = \<lparr>es_config = rp_config demo_plan, es_registry = diamond_reg, es_flags = Map.empty,
     es_flag_args = Map.empty, es_watch_mode = False, es_shell_options = [], es_enhancers = []\<rparr>"

lemma demo_executor_run:
  "\<exists>ts. build_task_set 4 diamond diamond_reg [0] [''A''] (empty_task_set 1) = Some (Inr ts) \<and>
     executor_run 4 diamond demo_setup [0] 1 [''A''] [0] [None] (\<lambda>ts. None) [Some (Err ''full'')] =
       Some ([Invalidation_loop, On_start 0, Run_pass, On_stop 0, Close_events],
         Some (Wrapped ''OnStop hook 0 failed'' (Err ''full'')))"
proof -
  have "nat_string 0 = ''0''" by code_simp
  then show ?thesis
    by (simp add: executor_run_def demo_setup_def eval_nat_numeral diamond_def diamond_reg_def
        with_cancel_def zero_task_def asks_help_def wrapf_def)
qed

theorem executor_run_verdict_witness:
  "\<exists>calls err. executor_run 4 diamond demo_setup [0] 1 [''A''] [0] [None] (\<lambda>ts. None)
       [Some (Err ''full'')] = Some (calls, err) \<and>
     Run_pass \<in> set calls \<and> err \<noteq> None \<and> last calls = Close_events"
proof -
  from demo_executor_run obtain calls err where
    run: "executor_run 4 diamond demo_setup [0] 1 [''A''] [0] [None] (\<lambda>ts. None)
       [Some (Err ''full'')] = Some (calls, err)" and pass: "Run_pass \<in> set calls"
    by fastforce
  from executor_run_verdict [OF run] pass run show ?thesis
    by (intro exI [of _ calls] exI [of _ err]) auto
qed

section \<open>From the registry to the executor\<close>

text \<open>The options that the package offers.\<close>

inductive public_option :: "'v executor_option \<Rightarrow> bool" where
  "public_option (with_watcher_enhancer we)"
| "public_option (with_watch_mode b)"
| "public_option (shell_run_options opts)"

lemma public_option_registry:
  "\<forall>opt \<in> set opts. public_option opt \<Longrightarrow>
     es_registry (fold (\<lambda>opt e. opt e) opts e) = es_registry e \<and>
     es_config (fold (\<lambda>opt e. opt e) opts e) = es_config e"
  by (induction opts arbitrary: e)
    (auto elim!: public_option.cases
      simp: with_watcher_enhancer_def with_watch_mode_def shell_run_options_def)

lemma fold_by_name_other: "x \<notin> f ` set ts \<Longrightarrow> fold (\<lambda>t m. m(f t \<mapsto> t)) ts m x = m x"
  by (induction ts arbitrary: m) auto

lemma fold_by_name:
  "inj_on f (set ts) \<Longrightarrow> t \<in> set ts \<Longrightarrow> fold (\<lambda>t m. m(f t \<mapsto> t)) ts m (f t) = Some t"
proof (induction ts arbitrary: m)
  case Nil
  then show ?case by simp
next
  case (Cons u us)
  show ?case
  proof (cases "t \<in> set us")
    case True
    with Cons show ?thesis by simp
  next
    case False
    then have "u = t" "f t \<notin> f ` set us" using Cons.prems by (auto simp: inj_on_def)
    then show ?thesis using fold_by_name_other [of "f t" f us "m(f t \<mapsto> t)"] by (simp del: fun_upd_apply) simp
  qed
qed

text \<open>
  C27. The executor that \<open>Run\<close> builds looks tasks up exactly as the registry does, with the
  registry's flags, the arguments grouped from the command line and the configuration that
  was read, whatever options extensions add; so a task that is named on the command line is
  never undefined.
\<close>

theorem executor_sees_registry:
  assumes "reg_wf g reg" and "is_order tord (reg_definitions reg)"
    and "run_decide n env reg g flags tord gord args = Some (Execute plan)"
    and "is_order (gord (rp_flag_args plan)) (rp_flag_args plan)"
    and "\<forall>opt \<in> set opts. public_option opt"
  shows "es_registry (plan_executor g reg opts plan) = reg_definitions reg \<and>
    es_flags (plan_executor g reg opts plan) = reg_flags reg \<and>
    es_flag_args (plan_executor g reg opts plan) = rp_flag_args plan \<and>
    es_config (plan_executor g reg opts plan) = rp_config plan \<and>
    (rp_flag_args plan \<noteq> Map.empty \<longrightarrow>
       set (rp_desired plan) \<subseteq> dom (es_registry (plan_executor g reg opts plan)))"
proof -
  have tasks: "rp_tasks plan = registry_tasks g tord reg"
    using assms(3) by (auto simp: run_decide_def Let_def split: sum.splits option.splits if_splits prod.splits)
  have ran: "set (rp_tasks plan) = ran (reg_definitions reg)"
    using assms(2) by (auto simp: tasks registry_tasks_def is_order_def ran_def dom_def image_def)
  have name: "t_name (g t) = x" if "reg_definitions reg x = Some t" for x t
    using assms(1) that by (auto simp: reg_wf_def)
  have inj: "inj_on (\<lambda>t. t_name (g t)) (set (rp_tasks plan))"
    using name by (auto simp: ran ran_def inj_on_def)
  have "fold (\<lambda>t m. m(t_name (g t) \<mapsto> t)) (rp_tasks plan) Map.empty x = reg_definitions reg x" for x
  proof (cases "reg_definitions reg x")
    case None
    then have "x \<notin> (\<lambda>t. t_name (g t)) ` set (rp_tasks plan)"
      using name by (auto simp: ran ran_def)
    then show ?thesis using None by (simp add: fold_by_name_other)
  next
    case (Some t)
    then have "t \<in> set (rp_tasks plan)" by (auto simp: ran ran_def)
    from fold_by_name [OF inj this] name [OF Some] Some show ?thesis by simp
  qed
  then have reg: "es_registry (plan_executor g reg opts plan) = reg_definitions reg"
    using public_option_registry [OF assms(5)]
    by (auto simp: plan_executor_def new_executor_def Let_def with_watch_mode_def)
  have "set (rp_desired plan) \<subseteq> dom (reg_definitions reg)" if "rp_flag_args plan \<noteq> Map.empty"
  proof -
    from run_executes_named [OF assms(3,4)] obtain rest where
      "rp_flag_args plan = fst (group_args reg rest)"
      "task_args reg rest \<noteq> [] \<longrightarrow> set (rp_desired plan) = set (task_args reg rest)"
      by (auto split: if_splits)
    moreover from this that groups_dom [of reg rest] have "task_args reg rest \<noteq> []"
      by (metis dom_eq_empty_conv set_empty)
    ultimately show ?thesis by (auto simp: task_args_def named_task_def)
  qed
  with reg public_option_registry [OF assms(5)] show ?thesis
    by (auto simp: plan_executor_def new_executor_def Let_def with_watch_mode_def)
qed

theorem executor_sees_registry_witness:
  "es_registry (plan_executor demo_tasks demo_registry [with_watch_mode False :: unit executor_option]
     demo_plan) = reg_definitions demo_registry"
proof -
  have "is_order [''build'', ''all''] (reg_definitions demo_registry)"
    by (auto simp: is_order_def demo_registry_def split: if_splits)
  moreover have "is_order [''build''] (rp_flag_args demo_plan)" by (simp add: is_order_def demo_plan_def)
  ultimately show ?thesis
    using executor_sees_registry [OF demo_registry_wf _ demo_decide,
        of "[with_watch_mode False :: unit executor_option]"]
    by (auto intro: public_option.intros)
qed

end
