(* ===== verification/Events.thy ===== *)
theory Events
  imports TaskExecution Format "HOL-Library.List_Lexorder" "HOL-Library.Char_ord"
begin

text \<open>
  \<open>events.go\<close>, \<open>logger.go\<close> and the list of handlers (\<open>task_handler.go\<close>): the events that the
  executor publishes to its subscribers, without their time stamps; the writers that turn the
  output of a task into events; and \<open>Logf\<close>.
\<close>

section \<open>Events\<close>

datatype log_stream = Stdout_stream | Stderr_stream

text \<open>Durations are in nanoseconds; the error of an event is given by its text.\<close>

datatype executor_event =
    ExecutorSetupEvent
  | TaskStartedEvent tid
  | TaskLogEvent tid string log_stream
  | TaskCompletedEvent tid nat
  | TaskFailedEvent tid string
  | TaskStoppedEvent tid
  | TaskInvalidatedEvent tid "invalidation_event list"
  | TaskDiagnosticEvent tid string

fun executor_event_kind :: "executor_event \<Rightarrow> string" where
  "executor_event_kind ExecutorSetupEvent = ''executor.setup''"
| "executor_event_kind (TaskStartedEvent t) = ''task.started''"
| "executor_event_kind (TaskLogEvent t m s) = ''task.log''"
| "executor_event_kind (TaskCompletedEvent t d) = ''task.completed''"
| "executor_event_kind (TaskFailedEvent t e) = ''task.failed''"
| "executor_event_kind (TaskStoppedEvent t) = ''task.stopped''"
| "executor_event_kind (TaskInvalidatedEvent t rs) = ''task.invalidated''"
| "executor_event_kind (TaskDiagnosticEvent t e) = ''task.diagnostic''"

fun event_task :: "executor_event \<Rightarrow> tid option" where
  "event_task ExecutorSetupEvent = None"
| "event_task (TaskStartedEvent t) = Some t"
| "event_task (TaskLogEvent t m s) = Some t"
| "event_task (TaskCompletedEvent t d) = Some t"
| "event_task (TaskFailedEvent t e) = Some t"
| "event_task (TaskStoppedEvent t) = Some t"
| "event_task (TaskInvalidatedEvent t rs) = Some t"
| "event_task (TaskDiagnosticEvent t e) = Some t"

section \<open>Loggers\<close>

text \<open>
  \<open>publishEvent\<close> sends to every channel; a subscriber is the list of the events sent to it.
  An event logger publishes what is written to it and returns its length.
\<close>

definition publish_event :: "executor_event \<Rightarrow> executor_event list list \<Rightarrow> executor_event list list" where
  "publish_event ev chs = map (\<lambda>ch. ch @ [ev]) chs"

definition event_logger_write ::
  "tid \<Rightarrow> log_stream \<Rightarrow> string \<Rightarrow> executor_event list list \<Rightarrow> nat \<times> executor_event list list" where
  "event_logger_write t stream p chs = (length p, publish_event (TaskLogEvent t p stream) chs)"

text \<open>\<open>Logf\<close>, on the formatted text: it ends with a newline.\<close>

definition logf_text :: "string \<Rightarrow> string" where
  "logf_text s = (if s = '''' \<or> last s \<noteq> newline then s @ [newline] else s)"

lemma logf_text_ends: "logf_text s \<noteq> [] \<and> last (logf_text s) = newline"
  by (auto simp: logf_text_def)

section \<open>Handlers\<close>

text \<open>
  \<open>Executor.Tasks\<close>: a handler of every node of the graph, ranged over in the order \<open>ord\<close> and
  sorted by name.
\<close>

definition executor_tasks :: "(tid \<Rightarrow> 'w task) \<Rightarrow> tid list \<Rightarrow> tid list" where
  "executor_tasks g ord = sort_key (\<lambda>t. t_name (g t)) ord"

lemma executor_tasks_set [simp]: "set (executor_tasks g ord) = set ord"
  by (simp add: executor_tasks_def)

lemma executor_tasks_length [simp]: "length (executor_tasks g ord) = length ord"
  by (simp add: executor_tasks_def)

section \<open>The text of an event\<close>

text \<open>
  The messages of the two reporters. \<open>secs\<close> formats a duration with two decimals, \<open>g\<close> gives
  the names in the descriptions of reasons.
\<close>

definition completed_text :: "(nat \<Rightarrow> string) \<Rightarrow> nat \<Rightarrow> string" where
  "completed_text secs d = (if d = 0 then ''Completed'' else ''Completed ('' @ secs d @ ''s)'')"

fun cli_messages :: "(nat \<Rightarrow> string) \<Rightarrow> (tid \<Rightarrow> 'w task) \<Rightarrow> executor_event \<Rightarrow> string list" where
  "cli_messages secs g ExecutorSetupEvent = []"
| "cli_messages secs g (TaskStartedEvent t) = [''Started'' @ [newline]]"
| "cli_messages secs g (TaskLogEvent t m s) = [m]"
| "cli_messages secs g (TaskCompletedEvent t d) = [completed_text secs d @ [newline]]"
| "cli_messages secs g (TaskFailedEvent t e) = [''Failed'' @ [newline] @ e @ [newline]]"
| "cli_messages secs g (TaskStoppedEvent t) = [''Stopped'' @ [newline]]"
| "cli_messages secs g (TaskInvalidatedEvent t rs) =
     (''Invalidating '' @ t_name (g t) @ '' for '' @ nat_string (length rs) @ '' reasons:'' @ [newline]) #
     map (\<lambda>r. ''- '' @ event_description g r @ [newline]) rs"
| "cli_messages secs g (TaskDiagnosticEvent t e) = [''Warning: '' @ e @ [newline]]"

fun tui_messages :: "(nat \<Rightarrow> string) \<Rightarrow> (tid \<Rightarrow> 'w task) \<Rightarrow> executor_event \<Rightarrow> string list" where
  "tui_messages secs g ExecutorSetupEvent = []"
| "tui_messages secs g (TaskStartedEvent t) = []"
| "tui_messages secs g (TaskLogEvent t m s) = [m]"
| "tui_messages secs g (TaskCompletedEvent t d) = [completed_text secs d]"
| "tui_messages secs g (TaskFailedEvent t e) = [''Failed:'', e]"
| "tui_messages secs g (TaskStoppedEvent t) = [''Stopped!'']"
| "tui_messages secs g (TaskInvalidatedEvent t rs) =
     (''Invalidating for '' @ nat_string (length rs) @ '' reasons:'') #
     map (\<lambda>r. ''- '' @ event_description g r) rs"
| "tui_messages secs g (TaskDiagnosticEvent t e) = [''Warning:'', e]"

end
