(* ===== verification/ExecutorPlain.thy ===== *)
theory ExecutorPlain
  imports ExecutorStuck ExecutorMeasure
begin

text \<open>
  A whole run of the executor that nothing disturbs: no call of \<open>Invalidate\<close> (no changed files,
  no restarts from the interface), no shutdown and no long-lived tasks. Such a run never gets stuck, cannot go on for ever, and when it is over
  the errgroup's error says whether all tasks are done.
\<close>

section \<open>Plain states\<close>

definition past_write :: "run \<Rightarrow> bool" where
  "past_write r \<longleftrightarrow> gr_pc r \<in> {G_publish, G_send, G_keep, G_plan, G_pass, G_lock, G_return}"

definition run_fine :: "run \<Rightarrow> bool" where
  "run_fine r \<longleftrightarrow> gr_pc r \<noteq> G_notify \<and>
     (gr_pc r = G_write \<longrightarrow> gr_verdict r = (if gr_err r = None then V_done else V_failed))"

definition plain_state :: "executor \<Rightarrow> bool" where
  "plain_state s \<longleftrightarrow> ts_cancelled s = {} \<and> (\<forall>x. ex_pending (node s x) = {}) \<and>
     e_senders s = 0 \<and> \<not> e_inv_ch s \<and> \<not> e_timer s \<and> e_loop s = L_idle \<and>
     (\<forall>th ts w. e_mu s = Some (Planning th ts w) \<longrightarrow> ts = [] \<and> \<not> w) \<and>
     (\<forall>i r. e_runs s i = Some r \<longrightarrow> run_fine r)"

lemma plain_stateD:
  assumes "plain_state s"
  shows "ts_cancelled s = {}" "ex_pending (node s x) = {}" "e_senders s = 0" "\<not> e_inv_ch s"
    "\<not> e_timer s" "e_loop s = L_idle" "e_mu s = Some (Planning th ts w) \<Longrightarrow> ts = [] \<and> \<not> w"
    "e_runs s i = Some r \<Longrightarrow> run_fine r" "\<not> root_done s"
  using assms unfolding plain_state_def root_done_def ctx_err_def by blast+

lemma plain_run:
  assumes "plain_state s" and "e_runs s' = (e_runs s)(i \<mapsto> r')" and "run_fine r'"
    and "ts_cancelled s' = ts_cancelled s" "\<And>x. ex_pending (node s' x) = ex_pending (node s x)"
    "e_senders s' = e_senders s" "e_inv_ch s' = e_inv_ch s" "e_timer s' = e_timer s"
    "e_loop s' = e_loop s" "e_mu s' = e_mu s \<or> e_mu s' = None"
  shows "plain_state s'"
  using assms unfolding plain_state_def by auto

lemma plain_lock:
  assumes "plain_state s" and "e_runs s' = e_runs s"
    and "ts_cancelled s' = ts_cancelled s" "ts_exec s' = ts_exec s"
    "e_senders s' = e_senders s" "e_inv_ch s' = e_inv_ch s" "e_timer s' = e_timer s"
    "e_loop s' = e_loop s" "\<And>th ts w. e_mu s' = Some (Planning th ts w) \<Longrightarrow> ts = [] \<and> \<not> w"
  shows "plain_state s'"
  using assms unfolding plain_state_def by auto

lemma plain_action_state:
  assumes inv: "plain_state s" and short: "short_lived g" and plain: "plain_action a"
    and act: "do_action g a s = Some s'"
  shows "plain_state s'"
proof -
  note run = plain_run [OF inv] and lock = plain_lock [OF inv]
  have no_plan: "filter (plan_selects (ts_exec s)) ord = []" for ord
    using plain_stateD(2) [OF inv] by (simp add: filter_empty_conv plan_selects_def)
  show ?thesis
  proof (cases a)
    case (A_start i)
    with act show ?thesis by (auto simp: op_start_def at_pc_Some run_fine_def intro!: run)
  next
    case (A_body i e)
    with act show ?thesis
      by (auto simp: op_body_def at_pc_Some run_fine_def split: if_splits intro!: run)
  next
    case (A_check i)
    with act plain_stateD(1) [OF inv] show ?thesis
      by (auto simp: op_check_def at_pc_Some run_fine_def ctx_err_def intro!: run)
  next
    case (A_write i)
    then have "op_write i s = Some s'" using act by simp
    then show ?thesis
      by (cases rule: op_write_cases) (auto simp: run_fine_def split: if_splits intro!: run)
  next
    case (A_publish i)
    with act show ?thesis by (auto simp: op_publish_def at_pc_Some run_fine_def intro!: run)
  next
    case (A_send i)
    with act show ?thesis
      by (auto simp: run_fine_def split: if_splits elim!: op_send_cases intro!: run)
  next
    case (A_keep n i)
    with act short show ?thesis
      by (auto simp: op_keep_def at_pc_Some short_lived_def run_fine_def after_keep_def intro!: run)
  next
    case (A_notify i)
    with act plain_stateD(8) [OF inv] show ?thesis
      by (fastforce simp: op_notify_def at_pc_Some run_fine_def)
  next
    case (A_pass_test i)
    with act show ?thesis by (auto simp: op_pass_test_def at_pc_Some run_fine_def intro!: run)
  next
    case (A_return i)
    with act obtain r where "e_runs s i = Some r" "e_runs s' = (e_runs s)(i := None)"
      "ts_cancelled s' = ts_cancelled s" "ts_exec s' = ts_exec s" "e_senders s' = e_senders s"
      "e_inv_ch s' = e_inv_ch s" "e_timer s' = e_timer s" "e_loop s' = e_loop s" "e_mu s' = e_mu s"
      by (auto simp: op_return_def at_pc_Some)
    with inv show ?thesis unfolding plain_state_def by auto
  next
    case (A_plan_run i ord)
    with act no_plan show ?thesis
      by (auto simp: ordered_Some op_plan_run_def at_pc_Some begin_plan_Some intro!: lock)
  next
    case (A_plan_loop ord)
    with act plain_stateD(6) [OF inv] show ?thesis
      by (auto simp: ordered_Some op_plan_loop_def split: if_splits)
  next
    case A_plan_next
    then have "op_plan_next s = Some s'" using act by simp
    then show ?thesis
    proof (cases rule: op_plan_next_cases)
      case (skip th t ts)
      with plain_stateD(7) [OF inv] show ?thesis by blast
    next
      case (stop th t ts)
      with plain_stateD(7) [OF inv] show ?thesis by blast
    next
      case (done_run i r)
      then show ?thesis
        by (intro run [of s' i "r\<lparr>gr_pc := G_pass\<rparr>"]) (simp_all add: run_fine_def)
    next
      case done_loop
      with plain_stateD(6) [OF inv] show ?thesis by (intro lock) simp_all
    qed
  next
    case A_plan_wait
    with act show ?thesis by (auto elim!: op_plan_wait_cases dest: plain_stateD(7) [OF inv])
  next
    case A_test_pass
    with act plain_stateD(7) [OF inv] show ?thesis
      by (auto simp: op_test_pass_def split: nat.splits if_splits intro!: lock)
  next
    case (A_lock_pass ord)
    with act show ?thesis
      by (auto simp: ordered_Some op_lock_pass_def split: nat.splits if_splits intro!: lock)
  next
    case (A_lock_run i ord)
    with act show ?thesis
      by (auto simp: ordered_Some op_lock_run_def at_pc_Some split: if_splits intro!: lock)
  next
    case A_visit
    then have "op_visit s = Some s'" using act by simp
    then show ?thesis
    proof (cases rule: op_visit_cases)
      case (run th t ts)
      with inv show ?thesis
        unfolding plain_state_def by (auto simp: run_fine_def)
    next
      case (done_run i r)
      then show ?thesis
        by (intro run [of s' i "r\<lparr>gr_pc := G_return\<rparr>"]) (simp_all add: run_fine_def)
    qed (auto intro!: lock)
  next
    case A_notify_ch
    with act plain_stateD(3) [OF inv] show ?thesis by (auto simp: op_notify_ch_def)
  next
    case A_loop_recv
    with act plain_stateD(4) [OF inv] show ?thesis by (auto simp: op_loop_recv_def)
  next
    case A_loop_timer
    with act plain_stateD(5) [OF inv] show ?thesis by (auto simp: op_loop_timer_def)
  next
    case A_loop_exit
    with act plain_stateD(9) [OF inv] show ?thesis by (auto simp: op_loop_exit_def)
  qed (use plain in \<open>simp_all add: plain_action_def\<close>)
qed

section \<open>The errors\<close>

definition failed_run :: "executor \<Rightarrow> bool" where
  "failed_run s \<longleftrightarrow> (\<exists>i r. e_runs s i = Some r \<and> past_write r \<and> gr_err r \<noteq> None)"

definition errs_inv :: "executor \<Rightarrow> bool" where
  "errs_inv s \<longleftrightarrow> ((\<exists>x. ex_state (node s x) = St_error) \<longleftrightarrow> e_wg_err s \<noteq> None \<or> failed_run s)"

lemma failed_run_upd:
  assumes "e_runs s i = Some r" "e_runs s' = (e_runs s)(i \<mapsto> r')" "gr_err r' = gr_err r"
    and "past_write r' = past_write r"
  shows "failed_run s' = failed_run s"
proof -
  have "(\<exists>q. e_runs s' j = Some q \<and> past_write q \<and> gr_err q \<noteq> None) \<longleftrightarrow>
      (\<exists>q. e_runs s j = Some q \<and> past_write q \<and> gr_err q \<noteq> None)" for j
    using assms by (cases "j = i") auto
  then show ?thesis unfolding failed_run_def by blast
qed

lemma failed_run_before:
  assumes "e_runs s i = Some r" "e_runs s' = (e_runs s)(i \<mapsto> r')" "\<not> past_write r"
  shows "failed_run s' \<longleftrightarrow> failed_run s \<or> past_write r' \<and> gr_err r' \<noteq> None"
proof -
  have "(\<exists>q. e_runs s' j = Some q \<and> past_write q \<and> gr_err q \<noteq> None) \<longleftrightarrow>
      (\<exists>q. e_runs s j = Some q \<and> past_write q \<and> gr_err q \<noteq> None) \<or>
      j = i \<and> past_write r' \<and> gr_err r' \<noteq> None" for j
    using assms by (cases "j = i") auto
  then show ?thesis unfolding failed_run_def by blast
qed

lemma failed_run_same: "e_runs s' = e_runs s \<Longrightarrow> failed_run s' = failed_run s"
  by (simp add: failed_run_def)

lemma errs_upd:
  assumes "errs_inv s" and "e_runs s i = Some r" "e_runs s' = (e_runs s)(i \<mapsto> r')"
    "gr_err r' = gr_err r" "past_write r' = past_write r"
    and "\<And>x. ex_state (node s' x) = ex_state (node s x)" and "e_wg_err s' = e_wg_err s"
  shows "errs_inv s'"
  using assms(1) unfolding errs_inv_def failed_run_upd [OF assms(2-5)] assms(6,7) .

lemma errs_same:
  assumes "errs_inv s" and "e_runs s' = e_runs s"
    and "\<And>x. ex_state (node s' x) = ex_state (node s x)" and "e_wg_err s' = e_wg_err s"
  shows "errs_inv s'"
  using assms(1) unfolding errs_inv_def failed_run_same [OF assms(2)] assms(3,4) .

lemma errs_write:
  assumes inv: "errs_inv s" and plain: "plain_state s" and order: "order_inv g s"
    and act: "op_write i s = Some s'"
  shows "errs_inv s'"
  using act
proof (cases rule: op_write_cases)
  case (1 r)
  with plain_stateD(8) [OF plain, of i r] show ?thesis by (simp add: run_fine_def split: if_splits)
next
  case (2 r st)
  have fine: "run_fine r" by (rule plain_stateD(8) [OF plain 2(1)])
  with 2(2,3) have st: "st = (if gr_err r = None then St_done else St_error)"
    by (auto simp: run_fine_def split: if_splits)
  have "active_at s (gr_task r) i" using 2 by (auto intro: active_atI simp: active_def)
  then have "ex_state (node s (gr_task r)) \<in> {St_running, St_invalid}"
    using order unfolding order_inv_alt by blast
  then have "ex_state (node s' x) = St_error \<longleftrightarrow>
      ex_state (node s x) = St_error \<or> x = gr_task r \<and> gr_err r \<noteq> None" for x
    using 2(4) st by (cases "x = gr_task r") auto
  moreover have "failed_run s' \<longleftrightarrow> failed_run s \<or> gr_err r \<noteq> None"
    using failed_run_before [of s i r s' "r\<lparr>gr_pc := G_publish\<rparr>"] 2
    by (simp add: past_write_def)
  moreover have "e_wg_err s' = e_wg_err s" using 2(4) by (simp add: set_run_def set_state_def)
  ultimately show ?thesis using inv by (auto simp: errs_inv_def)
qed

lemma errs_return:
  assumes inv: "errs_inv s" and plain: "plain_state s" and act: "op_return i s = Some s'"
  shows "errs_inv s'"
proof -
  from act obtain r where r: "e_runs s i = Some r" "gr_pc r = G_return"
    and s': "e_runs s' = (e_runs s)(i := None)" "ts_exec s' = ts_exec s"
      "e_wg_err s' = (case e_wg_err s of Some e \<Rightarrow> Some e
         | None \<Rightarrow> if gr_err r \<noteq> None \<and> \<not> ctx_err (ts_cancelled s) (gr_ctx r)
                  then wrapf ''Executor failed to run task'' (gr_err r) else None)"
    by (auto simp: op_return_def at_pc_Some)
  have wg: "e_wg_err s' \<noteq> None \<longleftrightarrow> e_wg_err s \<noteq> None \<or> gr_err r \<noteq> None"
    using s'(3) plain_stateD(1) [OF plain] by (auto simp: ctx_err_def wrapf_def split: option.splits)
  have "failed_run s \<longleftrightarrow> failed_run s' \<or> gr_err r \<noteq> None"
  proof
    assume "failed_run s"
    then obtain j q where q: "e_runs s j = Some q" "past_write q" "gr_err q \<noteq> None"
      unfolding failed_run_def by blast
    then show "failed_run s' \<or> gr_err r \<noteq> None"
      using r s'(1) unfolding failed_run_def
      by (cases "j = i") (auto intro!: exI [of _ j] exI [of _ q])
  next
    assume "failed_run s' \<or> gr_err r \<noteq> None"
    then show "failed_run s"
      using r s'(1) unfolding failed_run_def by (auto simp: past_write_def split: if_splits)
  qed
  with wg inv s'(2) show ?thesis by (auto simp: errs_inv_def)
qed

lemma errs_action:
  assumes inv: "errs_inv s" and plain: "plain_state s" and short: "short_lived g"
    and exec: "exec_inv g s" and order: "order_inv g s" and pa: "plain_action a"
    and act: "do_action g a s = Some s'"
  shows "errs_inv s'"
proof -
  note upd = errs_upd [OF inv] and same = errs_same [OF inv]
  have base: "base_inv s" by (rule exec_invD(1) [OF exec])
  note eqs = at_pc_Some past_write_def
  show ?thesis
  proof (cases a)
    case (A_start i)
    with act show ?thesis by (auto simp: op_start_def eqs set_run_def publish_def intro!: upd)
  next
    case (A_body i e)
    with act obtain r where r: "e_runs s i = Some r" "gr_pc r = G_body"
      "s' = set_run i (r\<lparr>gr_err := e, gr_pc := G_check\<rparr>) s"
      by (auto simp: op_body_def at_pc_Some split: if_splits)
    then have "failed_run s' = failed_run s"
      using failed_run_before [of s i r s' "r\<lparr>gr_err := e, gr_pc := G_check\<rparr>"]
      by (simp add: past_write_def)
    with inv r show ?thesis by (simp add: errs_inv_def set_run_def)
  next
    case (A_check i)
    with act show ?thesis by (auto simp: op_check_def eqs set_run_def intro!: upd)
  next
    case (A_write i)
    with act show ?thesis by (auto intro: errs_write [OF inv plain order])
  next
    case (A_publish i)
    with act show ?thesis by (auto simp: op_publish_def eqs set_run_def publish_def intro!: upd)
  next
    case (A_send i)
    with act obtain r where r: "e_runs s i = Some r" "gr_pc r = G_send"
      "s' = set_run i (r\<lparr>gr_pc := G_keep\<rparr>) (s\<lparr>ts_exec := upd_exec (gr_task r)
         (\<lambda>e. e\<lparr>ex_terminal := Suc (ex_terminal e)\<rparr>) (ts_exec s)\<rparr>)"
      by (auto elim: op_send_cases)
    then show ?thesis
      by (intro upd [of i r s' "r\<lparr>gr_pc := G_keep\<rparr>"]) (simp_all add: past_write_def set_run_def)
  next
    case (A_keep n i)
    with act short show ?thesis
      by (auto simp: op_keep_def eqs short_lived_def after_keep_def set_run_def intro!: upd)
  next
    case (A_notify i)
    with act plain_stateD(8) [OF plain] show ?thesis
      by (fastforce simp: op_notify_def at_pc_Some run_fine_def)
  next
    case (A_pass_test i)
    with act show ?thesis by (auto simp: op_pass_test_def eqs set_run_def intro!: upd)
  next
    case (A_return i)
    with act show ?thesis by (auto intro: errs_return [OF inv plain])
  next
    case (A_plan_run i ord)
    with act show ?thesis
      by (auto simp: ordered_Some op_plan_run_def at_pc_Some begin_plan_Some intro!: same)
  next
    case (A_plan_loop ord)
    with act show ?thesis
      by (auto simp: ordered_Some op_plan_loop_def begin_plan_Some split: if_splits intro!: same)
  next
    case A_plan_next
    then have "op_plan_next s = Some s'" using act by simp
    then show ?thesis
    proof (cases rule: op_plan_next_cases)
      case (done_run i r)
      with base have "gr_pc r = G_plan" by (auto dest: holder_run)
      with done_run show ?thesis
        by (intro upd [of i r s' "r\<lparr>gr_pc := G_pass\<rparr>"]) (simp_all add: past_write_def set_run_def)
    next
      case (skip th t ts)
      with plain_stateD(7) [OF plain] show ?thesis by blast
    next
      case (stop th t ts)
      with plain_stateD(7) [OF plain] show ?thesis by blast
    next
      case done_loop
      then show ?thesis by (intro same) simp_all
    qed
  next
    case A_plan_wait
    with act show ?thesis by (auto elim!: op_plan_wait_cases dest: plain_stateD(7) [OF plain])
  next
    case A_test_pass
    with act show ?thesis
      by (auto simp: op_test_pass_def split: nat.splits if_splits intro!: same)
  next
    case (A_lock_pass ord)
    with act show ?thesis
      by (auto simp: ordered_Some op_lock_pass_def split: nat.splits if_splits intro!: same)
  next
    case (A_lock_run i ord)
    with act show ?thesis
      by (auto simp: ordered_Some op_lock_run_def at_pc_Some split: if_splits intro!: same)
  next
    case A_visit
    then have "op_visit s = Some s'" using act by simp
    then show ?thesis
    proof (cases rule: op_visit_cases)
      case (run th t ts)
      have "failed_run s' = failed_run s"
      proof -
        have "(\<exists>q. e_runs s' j = Some q \<and> past_write q \<and> gr_err q \<noteq> None) \<longleftrightarrow>
            (\<exists>q. e_runs s j = Some q \<and> past_write q \<and> gr_err q \<noteq> None)" for j
          using run base by (cases "j = e_next_run s")
            (auto simp: past_write_def base_inv_def runs_ok_next)
        then show ?thesis unfolding failed_run_def by blast
      qed
      moreover have "ex_state (node s t) = St_invalid" using run by (simp add: should_execute_iff)
      then have "ex_state (node s' x) = St_error \<longleftrightarrow> ex_state (node s x) = St_error" for x
        using run by (cases "x = t") auto
      moreover have "e_wg_err s' = e_wg_err s"
        using run by (simp add: spawn_def set_run_def set_state_def)
      ultimately show ?thesis using inv by (simp add: errs_inv_def)
    next
      case (done_run i r)
      with base have "gr_pc r = G_lock" by (auto dest: holder_run)
      with done_run show ?thesis
        by (intro upd [of i r s' "r\<lparr>gr_pc := G_return\<rparr>"]) (simp_all add: past_write_def set_run_def)
    qed (auto intro!: same)
  next
    case A_notify_ch
    with act plain_stateD(3) [OF plain] show ?thesis by (auto simp: op_notify_ch_def)
  next
    case A_loop_recv
    with act plain_stateD(4) [OF plain] show ?thesis by (auto simp: op_loop_recv_def)
  next
    case A_loop_timer
    with act plain_stateD(5) [OF plain] show ?thesis by (auto simp: op_loop_timer_def)
  next
    case A_loop_exit
    with act plain_stateD(9) [OF plain] show ?thesis by (auto simp: op_loop_exit_def)
  qed (use pa in \<open>simp_all add: plain_action_def\<close>)
qed

section \<open>The end of a plain run\<close>

definition plain_inv :: "(tid \<Rightarrow> 'w task) \<Rightarrow> executor \<Rightarrow> bool" where
  "plain_inv g s \<longleftrightarrow> short_lived g \<longrightarrow> plain_state s \<and> errs_inv s \<and> finite (tasks_of (ts_exec s))"

lemma starts_plain_inv:
  assumes "starts g s"
  shows "plain_inv g s"
proof -
  from assms obtain root k ts where b: "built g root (empty_task_set k) ts"
    and s: "s = start_executor root ts"
    by (rule starts_built)
  have "ts_cancelled ts = {}" using builtD(3) [OF b] by (simp add: grows_def)
  with s starts_finite [OF assms] show ?thesis
    by (simp add: plain_inv_def plain_state_def errs_inv_def failed_run_def
        idle_node_of [OF builtD(2) [OF b]])
qed

interpretation plain: invariant "starts g" "plain_step g" "\<lambda>s. exec_inv g s \<and> order_inv g s"
  "plain_inv g" for g
proof unfold_locales
  show "exec_inv g s \<and> order_inv g s" if "reachable_by (starts g) (plain_step g) s" for s
  proof -
    have "reachable g s" using that by (rule reachable_by_mono) (rule plain_is_step)
    then show ?thesis by (simp add: machine.inv_reachable order.inv_reachable)
  qed
  show "plain_inv g s" if "starts g s" for s using that by (rule starts_plain_inv)
  show "plain_inv g s'"
    if known: "exec_inv g s \<and> order_inv g s" and inv: "plain_inv g s" and step: "plain_step g s s'"
    for s s'
  proof -
    from step obtain a where a: "plain_action a" "do_action g a s = Some s'"
      unfolding plain_step_def by blast
    have "tasks_of (ts_exec s') = tasks_of (ts_exec s)"
      using known effect_same_graph [OF _ do_action_effect [OF _ a(2)]] exec_invD(1)
      unfolding same_graph_def by blast
    with known inv a show ?thesis
      unfolding plain_inv_def by (auto intro: plain_action_state errs_action)
  qed
qed

text \<open>A plain run that is not over can go on: no plan waits and the loop lives.\<close>

lemma plain_progress:
  assumes "reachable g s" and plain: "plain_state s" and "\<not> idle s"
  shows "\<exists>s'. plain_step g s s'"
proof (rule progress [OF assms(1,3)])
  show "\<not> stuck s t" for t
    using plain_stateD(7) [OF plain] by (auto simp: stuck_def waiting_def)
  show "\<not> hung s i" for i
    using plain_stateD(6) [OF plain] by (simp add: hung_def)
qed

section \<open>The length of a plain run\<close>

text \<open>
  Every plain step decreases a measure. \<open>T\<close> is the number of tasks: a pass visits so many,
  so taking the lock must be worth more than that.
\<close>

fun pc_weight :: "nat \<Rightarrow> run_pc \<Rightarrow> nat" where
  "pc_weight T G_return = 1"
| "pc_weight T G_lock = T + 4"
| "pc_weight T G_pass = T + 5"
| "pc_weight T G_plan = T + 7"
| "pc_weight T G_keep = T + 8"
| "pc_weight T G_send = T + 9"
| "pc_weight T G_publish = T + 10"
| "pc_weight T G_write = T + 11"
| "pc_weight T G_check = T + 12"
| "pc_weight T G_body = T + 13"
| "pc_weight T G_start = T + 14"
| "pc_weight T G_notify = 0"

fun lock_weight :: "nat \<Rightarrow> holder option \<Rightarrow> nat" where
  "lock_weight T None = T + 2"
| "lock_weight T (Some (Planning th ts w)) = T + 1"
| "lock_weight T (Some (Passing (Th_run i) ts)) = length ts + 1"
| "lock_weight T (Some (Passing th ts)) = T + 3 + length ts"

definition invalid_tasks :: "executor \<Rightarrow> tid set" where
  "invalid_tasks s = {x \<in> tasks_of (ts_exec s). ex_state (node s x) = St_invalid}"

definition work_left :: "executor \<Rightarrow> nat" where
  "work_left s = (let T = card (tasks_of (ts_exec s)) in
     runs_weight (pc_weight T) (e_runs s) (e_next_run s) + (T + 14) * card (invalid_tasks s) +
     (T + 3) * e_passes s + (T + 2) * e_locks s + lock_weight T (e_mu s))"

text \<open>A step of one run, the lock and the nodes' states left alone or better.\<close>

lemma work_run:
  assumes base: "base_inv s" and fin: "finite (tasks_of (ts_exec s))"
    and r: "e_runs s i = Some r" "e_runs s' = (e_runs s)(i \<mapsto> r')"
    and less: "\<And>T. pc_weight T (gr_pc r') + lock_weight T (e_mu s') <
      pc_weight T (gr_pc r) + lock_weight T (e_mu s)"
    and same: "e_next_run s' = e_next_run s" "tasks_of (ts_exec s') = tasks_of (ts_exec s)"
      "e_passes s' = e_passes s" "e_locks s' = e_locks s"
    and sub: "invalid_tasks s' \<subseteq> invalid_tasks s"
  shows "work_left s' < work_left s"
proof -
  let ?T = "card (tasks_of (ts_exec s))"
  have "i < e_next_run s" using base r by (simp add: base_inv_def runs_okD)
  from runs_weight_upd [where R = "e_runs s" and r' = r', OF this r(1), of "pc_weight ?T"] less [of ?T]
  have "runs_weight (pc_weight ?T) (e_runs s') (e_next_run s) + lock_weight ?T (e_mu s') <
      runs_weight (pc_weight ?T) (e_runs s) (e_next_run s) + lock_weight ?T (e_mu s)"
    using r(2) by simp
  moreover have "card (invalid_tasks s') \<le> card (invalid_tasks s)"
    using sub fin by (intro card_mono) (auto simp: invalid_tasks_def)
  then have "(?T + 14) * card (invalid_tasks s') \<le> (?T + 14) * card (invalid_tasks s)" by simp
  ultimately show ?thesis unfolding work_left_def Let_def same by linarith
qed

lemma invalid_tasks_same:
  "tasks_of (ts_exec s') = tasks_of (ts_exec s) \<Longrightarrow>
     (\<And>x. ex_state (node s' x) = ex_state (node s x)) \<Longrightarrow> invalid_tasks s' = invalid_tasks s"
  by (simp add: invalid_tasks_def)

lemma work_visit:
  assumes base: "base_inv s" and fin: "finite (tasks_of (ts_exec s))"
    and act: "op_visit s = Some s'"
  shows "work_left s' < work_left s"
  using act
proof (cases rule: op_visit_cases)
  case (run th t ts)
  let ?T = "card (tasks_of (ts_exec s))"
  have t: "t \<in> tasks_of (ts_exec s)" using base run by (simp add: base_inv_def)
  have "t \<in> invalid_tasks s" using t run by (simp add: invalid_tasks_def should_execute_iff)
  moreover have "invalid_tasks s' = invalid_tasks s - {t}"
    using t run by (auto simp: invalid_tasks_def split: if_splits)
  moreover have "finite (invalid_tasks s)" using fin by (simp add: invalid_tasks_def)
  ultimately have card: "card (invalid_tasks s) = Suc (card (invalid_tasks s'))"
    by (metis card.remove)
  have "tasks_of (ts_exec s') = tasks_of (ts_exec s)" "e_next_run s' = Suc (e_next_run s)"
    "e_runs s' = (e_runs s)(e_next_run s \<mapsto> new_run t)" "e_passes s' = e_passes s"
    "e_locks s' = e_locks s" "e_mu s' = Some (Passing th ts)"
    using run t by simp_all
  moreover have "lock_weight ?T (Some (Passing th ts)) < lock_weight ?T (e_mu s)"
    using run by (cases th) simp_all
  ultimately show ?thesis
    by (simp add: work_left_def Let_def runs_weight_new card)
next
  case (pass th t ts)
  then have "invalid_tasks s' = invalid_tasks s" by (intro invalid_tasks_same) simp_all
  with pass show ?thesis by (cases th) (simp_all add: work_left_def Let_def)
next
  case (done_run i r)
  with base have "gr_pc r = G_lock" by (auto dest: holder_run)
  with done_run show ?thesis
    by (intro work_run [OF base fin, of i r s' "r\<lparr>gr_pc := G_return\<rparr>"])
      (auto simp: invalid_tasks_def)
next
  case done_pass
  then have "invalid_tasks s' = invalid_tasks s" by (intro invalid_tasks_same) simp_all
  with done_pass show ?thesis by (simp add: work_left_def Let_def)
qed

lemma work_write:
  assumes base: "base_inv s" and fin: "finite (tasks_of (ts_exec s))"
    and act: "op_write i s = Some s'"
  shows "work_left s' < work_left s"
  using act
proof (cases rule: op_write_cases)
  case (1 r)
  then show ?thesis
    by (intro work_run [OF base fin, of i r s' "r\<lparr>gr_pc := G_publish\<rparr>"])
      (auto simp: invalid_tasks_def)
next
  case (2 r st)
  then have t: "gr_task r \<in> tasks_of (ts_exec s)" using base by (simp add: base_inv_def runs_okD)
  have "st \<noteq> St_invalid" using 2(3) by auto
  then have "invalid_tasks s' \<subseteq> invalid_tasks s"
    using 2(4) t by (auto simp: invalid_tasks_def split: if_splits)
  with 2 t show ?thesis
    by (intro work_run [OF base fin, of i r s' "r\<lparr>gr_pc := G_publish\<rparr>"]) simp_all
qed

lemma work_action:
  assumes base: "base_inv s" and plain: "plain_state s" and short: "short_lived g"
    and fin: "finite (tasks_of (ts_exec s))" and pa: "plain_action a"
    and act: "do_action g a s = Some s'"
  shows "work_left s' < work_left s"
proof -
  note run = work_run [OF base fin]
  show ?thesis
  proof (cases a)
    case (A_start i)
    with act show ?thesis
      by (auto simp: op_start_def at_pc_Some invalid_tasks_def intro!: run)
  next
    case (A_body i e)
    with act show ?thesis
      by (auto simp: op_body_def at_pc_Some invalid_tasks_def split: if_splits intro!: run)
  next
    case (A_check i)
    with act show ?thesis by (auto simp: op_check_def at_pc_Some invalid_tasks_def intro!: run)
  next
    case (A_write i)
    with act show ?thesis by (auto intro: work_write [OF base fin])
  next
    case (A_publish i)
    with act show ?thesis by (auto simp: op_publish_def at_pc_Some invalid_tasks_def intro!: run)
  next
    case (A_send i)
    with act obtain r where r: "e_runs s i = Some r" "gr_pc r = G_send"
      "s' = set_run i (r\<lparr>gr_pc := G_keep\<rparr>) (s\<lparr>ts_exec := upd_exec (gr_task r)
         (\<lambda>e. e\<lparr>ex_terminal := Suc (ex_terminal e)\<rparr>) (ts_exec s)\<rparr>)"
      by (auto elim: op_send_cases)
    have t: "gr_task r \<in> tasks_of (ts_exec s)" using base r by (simp add: base_inv_def runs_okD)
    then have "invalid_tasks s' = invalid_tasks s" using r(3) by (intro invalid_tasks_same) simp_all
    with r t show ?thesis by (intro run [of i r s' "r\<lparr>gr_pc := G_keep\<rparr>"]) simp_all
  next
    case (A_keep n i)
    with act short show ?thesis
      by (auto simp: op_keep_def at_pc_Some short_lived_def after_keep_def invalid_tasks_def
          intro!: run)
  next
    case (A_notify i)
    with act plain_stateD(8) [OF plain] show ?thesis
      by (fastforce simp: op_notify_def at_pc_Some run_fine_def)
  next
    case (A_pass_test i)
    with act show ?thesis by (auto simp: op_pass_test_def at_pc_Some invalid_tasks_def intro!: run)
  next
    case (A_return i)
    with act obtain r where r: "e_runs s i = Some r" "gr_pc r = G_return"
      and s': "e_runs s' = (e_runs s)(i := None)" "ts_exec s' = ts_exec s" "e_mu s' = e_mu s"
        "e_passes s' = e_passes s" "e_locks s' = e_locks s" "e_next_run s' = e_next_run s"
      by (auto simp: op_return_def at_pc_Some)
    have "i < e_next_run s" using base r by (simp add: base_inv_def runs_okD)
    from runs_weight_del [where R = "e_runs s", OF this r(1), of "pc_weight (card (tasks_of (ts_exec s)))"] r(2) s'
    show ?thesis by (simp add: work_left_def Let_def invalid_tasks_def)
  next
    case (A_plan_run i ord)
    with act show ?thesis
      by (auto simp: ordered_Some op_plan_run_def at_pc_Some begin_plan_Some work_left_def Let_def
          invalid_tasks_def)
  next
    case (A_plan_loop ord)
    with act plain_stateD(6) [OF plain] show ?thesis
      by (auto simp: ordered_Some op_plan_loop_def split: if_splits)
  next
    case A_plan_next
    then have "op_plan_next s = Some s'" using act by simp
    then show ?thesis
    proof (cases rule: op_plan_next_cases)
      case (skip th t ts)
      with plain_stateD(7) [OF plain] show ?thesis by blast
    next
      case (stop th t ts)
      with plain_stateD(7) [OF plain] show ?thesis by blast
    next
      case (done_run i r)
      with base have "gr_pc r = G_plan" by (auto dest: holder_run)
      with done_run show ?thesis
        by (intro run [of i r s' "r\<lparr>gr_pc := G_pass\<rparr>"]) (auto simp: invalid_tasks_def)
    next
      case done_loop
      with base plain_stateD(6) [OF plain] show ?thesis by (simp add: base_inv_def thread_plans_def)
    qed
  next
    case A_plan_wait
    with act show ?thesis by (auto elim!: op_plan_wait_cases dest: plain_stateD(7) [OF plain])
  next
    case A_test_pass
    with act show ?thesis
      by (auto simp: op_test_pass_def work_left_def Let_def invalid_tasks_def
          split: nat.splits if_splits)
  next
    case (A_lock_pass ord)
    with act show ?thesis
      by (auto simp: ordered_Some op_lock_pass_def work_left_def Let_def invalid_tasks_def
          is_order_length split: nat.splits if_splits)
  next
    case (A_lock_run i ord)
    with act show ?thesis
      by (auto simp: ordered_Some op_lock_run_def at_pc_Some work_left_def Let_def
          invalid_tasks_def is_order_length split: if_splits)
  next
    case A_visit
    with act show ?thesis by (auto intro: work_visit [OF base fin])
  next
    case A_notify_ch
    with act plain_stateD(3) [OF plain] show ?thesis by (auto simp: op_notify_ch_def)
  next
    case A_loop_recv
    with act plain_stateD(4) [OF plain] show ?thesis by (auto simp: op_loop_recv_def)
  next
    case A_loop_timer
    with act plain_stateD(5) [OF plain] show ?thesis by (auto simp: op_loop_timer_def)
  next
    case A_loop_exit
    with act plain_stateD(9) [OF plain] show ?thesis by (auto simp: op_loop_exit_def)
  qed (use pa in \<open>simp_all add: plain_action_def\<close>)
qed

section \<open>Total correctness of a plain run\<close>

lemma plain_known:
  assumes "reachable_by (starts g) (plain_step g) s" and "short_lived g"
  shows "plain_state s" "errs_inv s" "finite (tasks_of (ts_exec s))" "reachable g s"
proof -
  show "plain_state s" "errs_inv s" "finite (tasks_of (ts_exec s))"
    using plain.inv_reachable [OF assms(1)] assms(2) by (simp_all add: plain_inv_def)
  show "reachable g s" using assms(1) by (rule reachable_by_mono) (rule plain_is_step)
qed

lemma plain_step_work:
  assumes "reachable_by (starts g) (plain_step g) s" and "short_lived g" and "plain_step g s s'"
  shows "work_left s' < work_left s"
proof -
  note known = plain_known [OF assms(1,2)]
  have "base_inv s" using machine.inv_reachable [OF known(4)] by (rule exec_invD)
  with known assms(2,3) show ?thesis unfolding plain_step_def by (blast intro: work_action)
qed

text \<open>
  C14. A run that nothing disturbs ends: when no task is long-lived, \<open>Invalidate\<close> is not called
  (no file changes and no restarts from the interface) and no shutdown is asked for, a run of
  \<open>T\<close> tasks takes at most \<open>(T + 14) * T + 2 * T + 5\<close> steps, counting every access to shared
  state of every goroutine, whatever the interleaving and whichever tasks fail.
\<close>

theorem plain_runs_end:
  assumes "starts g s0" and "short_lived g" and "(plain_step g ^^ n) s0 s"
    and "T = card (dom (ts_exec s0))"
  shows "n \<le> (T + 14) * T + 2 * T + 5"
proof -
  have "reachable_by (starts g) (plain_step g) s \<and> n + work_left s \<le> work_left s0"
    using assms(3)
  proof (induction n arbitrary: s)
    case 0
    then show ?case using assms(1) by (simp add: reachable_by.initial)
  next
    case (Suc n)
    then obtain u where u: "(plain_step g ^^ n) s0 u" "plain_step g u s" by auto
    with Suc.IH plain_step_work [OF _ assms(2) u(2)] show ?case
      by (fastforce intro: reachable_by.step)
  qed
  moreover have "work_left s0 \<le> (T + 14) * T + 2 * T + 5"
  proof -
    have fin: "finite (tasks_of (ts_exec s0))" by (rule starts_finite [OF assms(1)])
    have "card (invalid_tasks s0) \<le> T"
      using fin assms(4) by (auto simp: invalid_tasks_def tasks_of_def intro!: card_mono)
    then have "(T + 14) * card (invalid_tasks s0) \<le> (T + 14) * T" by simp
    moreover from assms(1) obtain root ts where "s0 = start_executor root ts"
      by (auto simp: starts_def)
    then have "work_left s0 = (T + 14) * card (invalid_tasks s0) + (T + 3) + (T + 2)"
      using assms(4) by (simp add: work_left_def Let_def runs_weight_def tasks_of_def
          start_executor_def)
    ultimately show ?thesis by linarith
  qed
  ultimately show ?thesis by linarith
qed

lemma plain_run_never_stuck:
  assumes "reachable_by (starts g) (plain_step g) s" and "short_lived g" and "\<not> idle s"
  shows "\<exists>s'. plain_step g s s'"
  using plain_known [OF assms(1,2)] assms(3) by (blast intro: plain_progress)

lemma plain_verdict:
  assumes "reachable_by (starts g) (plain_step g) s" and "short_lived g" and "idle s"
  shows "(e_wg_err s = None \<longleftrightarrow> (\<forall>t \<in> dom (ts_exec s). ex_state (exec_of (ts_exec s) t) = St_done)) \<and>
    (\<forall>t \<in> dom (ts_exec s). ex_state (exec_of (ts_exec s) t) \<in> {St_done, St_error} \<or>
       ex_state (exec_of (ts_exec s) t) = St_invalid \<and>
       (\<exists>d \<in> deps_of g t. ex_state (exec_of (ts_exec s) d) = St_error))"
proof -
  note known = plain_known [OF assms(1,2)]
  have order: "order_inv g s" and exec: "exec_inv g s"
    using known(4) order.inv_reachable machine.inv_reachable by blast+
  have each: "ex_state (node s t) = St_done \<or> ex_state (node s t) = St_error \<or>
      ex_state (node s t) = St_invalid \<and> (\<exists>d \<in> deps_of g t. ex_state (node s d) = St_error)"
    if "t \<in> dom (ts_exec s)" for t
    using idle_blocked [OF reachable_wf [OF known(4)] exec order work.inv_reachable [OF known(4)]
        assms(3) plain_stateD(9) [OF known(1)]] that
    by (simp add: tasks_of_def)
  have "\<not> failed_run s" using assms(3) by (simp add: failed_run_def idle_def)
  then have err: "e_wg_err s \<noteq> None \<longleftrightarrow> (\<exists>x. ex_state (node s x) = St_error)"
    using known(2) by (simp add: errs_inv_def)
  have "e_wg_err s = None \<longleftrightarrow> (\<forall>t \<in> dom (ts_exec s). ex_state (node s t) = St_done)"
  proof
    assume "e_wg_err s = None"
    then show "\<forall>t \<in> dom (ts_exec s). ex_state (node s t) = St_done"
      using err each by blast
  next
    assume all: "\<forall>t \<in> dom (ts_exec s). ex_state (node s t) = St_done"
    have "ex_state (node s x) \<noteq> St_error" for x
      using all by (cases "ts_exec s x") (auto simp: exec_of_def new_execution_def dom_def)
    then show "e_wg_err s = None" using err by blast
  qed
  with each show ?thesis by blast
qed

text \<open>
  C18. The verdict of a run that nothing disturbs, with no call of \<open>Invalidate\<close> (no file changes
  and no restarts), no shutdown and no long-lived task: when it is over, the errgroup has no error
  exactly when every task is done; and with an error, every task is done, failed, or was
  never started because a task it depends on failed.
\<close>

theorem plain_run_verdict:
  assumes "reachable_by (starts g) (plain_step g) s" and "short_lived g" and "idle s"
  shows "(e_wg_err s = None \<longleftrightarrow> (\<forall>t \<in> dom (ts_exec s). ex_state (exec_of (ts_exec s) t) = St_done)) \<and>
    (\<forall>t \<in> dom (ts_exec s). ex_state (exec_of (ts_exec s) t) \<in> {St_done, St_error} \<or>
       ex_state (exec_of (ts_exec s) t) = St_invalid \<and>
       (\<exists>d \<in> deps_of g t. ex_state (exec_of (ts_exec s) d) = St_error))"
  by (rule plain_verdict [OF assms])

text \<open>The witnesses: the run of the pair, whose second task fails.\<close>

lemma pair_short: "short_lived pair"
  by (simp add: short_lived_def pair_def zero_task_def)

lemma plain_actions:
  "do_actions g as s = Some s' \<Longrightarrow> \<forall>a \<in> set as. plain_action a \<Longrightarrow>
     reachable_by (starts g) (plain_step g) s \<Longrightarrow>
     reachable_by (starts g) (plain_step g) s' \<and> (plain_step g ^^ length as) s s'"
proof (induction as arbitrary: s)
  case Nil
  then show ?case by simp
next
  case (Cons a as)
  then obtain s1 where s1: "do_action g a s = Some s1" "do_actions g as s1 = Some s'"
    by (auto split: option.splits)
  then have step: "plain_step g s s1" using Cons.prems(2) by (auto simp: plain_step_def)
  then have "reachable_by (starts g) (plain_step g) s1"
    using Cons.prems(3) by (blast intro: reachable_by.step)
  with Cons.IH [OF s1(2)] Cons.prems(2)
  have "reachable_by (starts g) (plain_step g) s'" "(plain_step g ^^ length as) s1 s'"
    by simp_all
  with step show ?case using relpowp_Suc_I2 [of "plain_step g" s s1 "length as" s'] by simp
qed

definition whole_run :: "action list" where
  "whole_run = first_pass @ first_run @ second_run"

lemma whole_run_plain: "\<forall>a \<in> set whole_run. plain_action a"
  by (simp add: whole_run_def first_pass_def first_run_def second_run_def plain_action_def)

lemma pair_initial: "reachable_by (starts pair) (plain_step pair) pair_start"
  using pair_starts by (blast intro: reachable_by.initial)

lemma whole_run_reachable:
  obtains s where "reachable_by (starts pair) (plain_step pair) s"
    "(plain_step pair ^^ length whole_run) pair_start s" "idle s" "e_wg_err s \<noteq> None"
proof -
  obtain s where s: "do_actions pair whole_run pair_start = Some s" "idle s" "e_wg_err s \<noteq> None"
    using second_run_eval unfolding whole_run_def by blast
  with plain_actions [OF s(1) whole_run_plain pair_initial] that show thesis by blast
qed

theorem plain_runs_end_witness:
  "\<exists>s. (plain_step pair ^^ length whole_run) pair_start s \<and> idle s \<and>
     length whole_run \<le> (2 + 14) * 2 + 2 * 2 + 5"
proof -
  obtain s where s: "(plain_step pair ^^ length whole_run) pair_start s" "idle s"
    using whole_run_reachable by blast
  have "dom (ts_exec pair_start) = {0, 1}" by (auto simp: pair_start_def split: if_splits)
  then have "2 = card (dom (ts_exec pair_start))" by simp
  from plain_runs_end [OF pair_starts pair_short s(1) this] s show ?thesis by blast
qed

theorem plain_run_verdict_witness:
  "\<exists>s. reachable_by (starts pair) (plain_step pair) s \<and> idle s \<and> e_wg_err s \<noteq> None \<and>
     (\<exists>t \<in> dom (ts_exec s). ex_state (exec_of (ts_exec s) t) \<noteq> St_done)"
proof -
  obtain s where s: "reachable_by (starts pair) (plain_step pair) s" "idle s" "e_wg_err s \<noteq> None"
    using whole_run_reachable by blast
  from plain_run_verdict [OF s(1) pair_short s(2)] s show ?thesis by blast
qed

end
