(* ===== verification/System.thy ===== *)
theory System
  imports Runner Events ExecutorPlain
begin

text \<open>
  How the components work together: what the executor gives to a task's function (its logger,
  its shell and its flags, \<open>executor.go\<close>), and how the outcome of the tasks becomes the
  outcome of the program.
\<close>

section \<open>What a task runs with\<close>

text \<open>
  \<open>ShellRun\<close>: the logger of the context first, the executor's options, then the caller's. A
  later option overrides an earlier one.
\<close>

definition log_option :: "go_ctx \<Rightarrow> run_option" where
  "log_option ctx r =
     (case cx_logger ctx of
        None \<Rightarrow> r
      | Some l \<Rightarrow> r\<lparr>rn_stdout := Some (lg_stdout l), rn_stderr := Some (lg_stderr l)\<rparr>)"

definition executor_shell_run :: "'v executor_setup \<Rightarrow> 'w shell_fn \<Rightarrow> 'w shell_fn" where
  "executor_shell_run e run ctx command opts w =
     bind_outcome (run ctx command ([log_option ctx] @ es_shell_options e @ opts) w)
       (\<lambda>(err, w'). Return (wrapf ''Executor failed to run shell command'' err, w'))"

lemma shell_option_order:
  "apply_options ([log_option ctx] @ es_shell_options e @ opts) r =
     apply_options opts (apply_options (es_shell_options e) (log_option ctx r))"
  by simp

lemma logged_output:
  assumes "cx_logger ctx = Some l" and "\<forall>opt \<in> set (es_shell_options e @ opts). stdout_free opt"
  shows "rn_stdout (apply_options ([log_option ctx] @ es_shell_options e @ opts) r) = Some (lg_stdout l)"
  using apply_stdout_free [of "es_shell_options e @ opts" "log_option ctx r"] assms
  by (simp add: log_option_def)

text \<open>
  The flags of a task: parsed when the task was named on the command line, and otherwise an
  empty map, without the defaults.
\<close>

definition task_flags_map ::
  "parsers \<Rightarrow> 'v executor_setup \<Rightarrow> string \<Rightarrow> (string \<rightharpoonup> flag_arg) outcome" where
  "task_flags_map p e name =
     (case es_flag_args e name of
        Some passed \<Rightarrow> parse_flags p \<lparr>reg_definitions = Map.empty, reg_flags = es_flags e\<rparr> name passed
      | None \<Rightarrow> Return Map.empty)"

definition task_body ::
  "parsers \<Rightarrow> 'v executor_setup \<Rightarrow> 'w shell_fn \<Rightarrow> 'w task \<Rightarrow> go_ctx \<Rightarrow> 'w \<Rightarrow> (go_error option \<times> 'w) outcome" where
  "task_body p e run task ctx w =
     (let sh = executor_shell_run e run in
      case t_run_with_flags task of
        Some f \<Rightarrow> bind_outcome (task_flags_map p e (t_name task)) (\<lambda>flags. f ctx sh flags w)
      | None \<Rightarrow> (case t_run task of Some f \<Rightarrow> f ctx sh w | None \<Rightarrow> Return (None, w)))"

lemma defaults_need_name: "es_flag_args e name = None \<Longrightarrow> task_flags_map p e name = Return Map.empty"
  by (simp add: task_flags_map_def)

lemma named_defaults:
  assumes "es_flag_args e name = Some []" and "es_flags e name = Some fm"
  shows "task_flags_map p e name = Return (\<lambda>key. map_option (default_arg p key) (fm key))"
  using assms by (simp add: task_flags_map_def parse_flags_def default_flag_map_def reg_find_def
      fun_eq_iff)

section \<open>The outcome of the program\<close>

lemma plain_steps_reachable:
  "(plain_step g)\<^sup>*\<^sup>* s s' \<Longrightarrow> reachable_by (starts g) (plain_step g) s \<Longrightarrow>
     reachable_by (starts g) (plain_step g) s' \<and> tasks_of (ts_exec s') = tasks_of (ts_exec s)"
proof (induction rule: rtranclp_induct)
  case base
  then show ?case by simp
next
  case (step u v)
  then have u: "reachable_by (starts g) (plain_step g) u" by simp
  then have "reachable g u" by (rule reachable_by_mono) (rule plain_is_step)
  then have "exec_inv g u" by (rule machine.inv_reachable)
  then have "same_graph u v"
    using effect_same_graph exec_invD(1) step_effect plain_is_step step.hyps(2) by metis
  with step u show ?case
    by (auto simp: same_graph_def intro: reachable_by.step)
qed

lemma group_wait_None: "group_wait es = None \<longleftrightarrow> set es \<subseteq> {None}"
  by (induction es) auto

text \<open>
  C2. The exit of taskrunner, in a run that nothing disturbs: it does not watch files and shows
  no help, no task is long-lived, no task is restarted from the interface (there is no call of
  \<open>Invalidate\<close> at all) and no shutdown is asked for; hooks and subscribers succeed. Once the
  executor has come to rest, the errgroup of taskrunner has no error, and taskrunner exits
  without one, exactly when every task that was desired and every task these depend on has
  ended in the state done. After an interrupt this does not hold: tasks end canceled and
  taskrunner still exits without error.
\<close>

theorem clean_exit_iff_all_done:
  assumes "wf (dep_rel g)" and "short_lived g"
    and "build_task_set n g (es_registry e) root names (empty_task_set k) = Some (Inr ts)"
    and "root \<noteq> []" and "\<forall>i \<in> set root. i < k"
    and "(plain_step g)\<^sup>*\<^sup>* (start_executor root ts) s" and "idle s"
    and "executor_run n g e root k names ord start_errs (\<lambda>_. e_wg_err s) stop_errs = Some (calls, err)"
    and "set start_errs \<subseteq> {None}" and "set stop_errs \<subseteq> {None}"
    and "\<forall>t \<in> set ord. \<not> asks_help e (t_name (g t))"
    and "set members = insert (run_error False err) (subscription_error ` set subs)"
    and "set subs \<subseteq> {None}"
  shows "group_wait members = None \<longleftrightarrow>
    (\<forall>t \<in> names_closure g (es_registry e) names. ex_state (exec_of (ts_exec s) t) = St_done)"
proof -
  let ?s0 = "start_executor root ts"
  have "starts g ?s0" unfolding starts_def using assms(1,3,4,5) by blast
  then have "reachable_by (starts g) (plain_step g) ?s0" by (rule reachable_by.initial)
  from plain_steps_reachable [OF assms(6) this]
  have s: "reachable_by (starts g) (plain_step g) s" "tasks_of (ts_exec s) = tasks_of (ts_exec ?s0)"
    by simp_all
  have "dom (ts_exec ts) = names_closure g (es_registry e) names"
    using build_task_set_built [OF assms(1,3)] by simp
  then have dom: "dom (ts_exec s) = names_closure g (es_registry e) names"
    using s(2) by (simp add: tasks_of_def)
  have names: "set names \<subseteq> dom (es_registry e)"
    using build_task_set_cases [OF assms(3)] by blast
  have "err = None \<longleftrightarrow> e_wg_err s = None"
    using executor_run_correct [OF assms(8)] names assms(3,9,10,11) by auto
  moreover have "subscription_error ` set subs \<subseteq> {None}"
    using assms(13) by (auto simp: subscription_error_def)
  then have "group_wait members = None \<longleftrightarrow> run_error False err = None"
    using assms(12) by (auto simp: group_wait_None)
  ultimately show ?thesis
    using plain_verdict [OF s(1) assms(2,7)] dom by (simp add: run_error_def)
qed

definition pair_setup :: "unit executor_setup" where
  "pair_setup = demo_setup\<lparr>es_registry := [''B'' \<mapsto> 1]\<rparr>"

theorem clean_exit_iff_all_done_witness:
  "\<exists>s calls err. idle s \<and>
     executor_run 3 pair pair_setup [0] 1 [''B''] [0, 1] [] (\<lambda>_. e_wg_err s) [] = Some (calls, err) \<and>
     group_wait [run_error False err, subscription_error None] \<noteq> None \<and>
     (\<exists>t \<in> names_closure pair [''B'' \<mapsto> 1] [''B'']. ex_state (exec_of (ts_exec s) t) \<noteq> St_done)"
proof -
  obtain s where s: "(plain_step pair ^^ length whole_run) pair_start s" "idle s" "e_wg_err s \<noteq> None"
    using whole_run_reachable by blast
  have steps: "(plain_step pair)\<^sup>*\<^sup>* pair_start s" using s(1) by (rule relpowp_imp_rtranclp)
  have fields: "es_registry pair_setup = [''B'' \<mapsto> 1]" "\<And>name. \<not> asks_help pair_setup name"
    "\<not> es_watch_mode pair_setup"
    by (simp_all add: pair_setup_def demo_setup_def asks_help_def)
  from pair_build obtain ts where ts:
    "build_task_set 3 pair [''B'' \<mapsto> 1] [0] [''B''] (empty_task_set 1) = Some (Inr ts)"
    "pair_start = start_executor [0] ts"
    unfolding pair_start_def by blast
  have helps: "filter (asks_help pair_setup) (map (\<lambda>t. t_name (pair t)) [0, 1]) = []"
    using fields(2) by (simp add: filter_empty_conv)
  have run: "executor_run 3 pair pair_setup [0] 1 [''B''] [0, 1] [] (\<lambda>_. e_wg_err s) [] =
      Some ([Invalidation_loop, Run_pass, Close_events], e_wg_err s)"
    unfolding executor_run_def fields(1) ts(1) using helps fields(3) by simp
  let ?members = "[run_error False (e_wg_err s), subscription_error None]"
  have failed: "group_wait ?members \<noteq> None" using s(3) by (simp add: run_error_def subscription_error_def)
  have "group_wait ?members = None \<longleftrightarrow>
      (\<forall>t \<in> names_closure pair [''B'' \<mapsto> 1] [''B'']. ex_state (exec_of (ts_exec s) t) = St_done)"
    using clean_exit_iff_all_done [OF pair_wf pair_short _ _ _ _ s(2) run, of ts ?members "[None]"]
      ts steps fields by simp
  with failed have "group_wait ?members \<noteq> None \<and>
      (\<exists>t \<in> names_closure pair [''B'' \<mapsto> 1] [''B'']. ex_state (exec_of (ts_exec s) t) \<noteq> St_done)"
    by metis
  with s(2) run show ?thesis
    by (intro exI [of _ s] exI [of _ "[Invalidation_loop, Run_pass, Close_events]"]
        exI [of _ "e_wg_err s"] conjI) simp_all
qed

end
