(* ===== verification/FlagTypes.thy ===== *)
theory FlagTypes
  imports Flags
begin

text \<open>
  The types of flags: a flag is declared with one of five types, and the entry that the parsing
  gives it has a getter for each; the lemmas here show which of them can be used.
\<close>

section \<open>Typed entries\<close>

text \<open>
  The text that the entry \<open>a\<close> of the flag \<open>f\<close> stands for, if there is one, and the value of a
  getter that reads it with \<open>parse\<close>.
\<close>

definition entry_text :: "task_flag \<Rightarrow> flag_arg \<Rightarrow> string option" where
  "entry_text f a = (case fa_value a of
     Some v \<Rightarrow> Some (strip_quotes v)
   | None \<Rightarrow> if f_default f = '''' then None else Some (f_default f))"

definition reads_as :: "(string \<Rightarrow> 'a option) \<Rightarrow> string option \<Rightarrow> 'a option outcome \<Rightarrow> bool" where
  "reads_as parse txt v \<longleftrightarrow> (case txt of
     None \<Rightarrow> v = Return None
   | Some s \<Rightarrow> (case parse s of Some x \<Rightarrow> v = Return (Some x) | None \<Rightarrow> \<exists>msg. v = Panics (''Please pass '' @ msg)))"

text \<open>A getter of the flag's own type reads its text; a getter of another type names the right one.\<close>

definition typed_getter :: "string \<Rightarrow> (string \<Rightarrow> 'a option) \<Rightarrow> task_flag \<Rightarrow> flag_arg \<Rightarrow> 'a option outcome \<Rightarrow> bool" where
  "typed_getter ty parse f a v \<longleftrightarrow>
     (if f_value_type f = ty then reads_as parse (entry_text f a) v
      else \<exists>key \<in> set (flag_keys f). v = Panics (type_message key f))"

definition typed_entry :: "parsers \<Rightarrow> task_flag \<Rightarrow> flag_arg \<Rightarrow> bool" where
  "typed_entry p f a \<longleftrightarrow> f_value_type f \<in> set flag_types \<and>
     typed_getter StringTypeFlag Some f a (fa_string_val a) \<and>
     typed_getter BoolTypeFlag parse_bool f a (fa_bool_val a) \<and>
     typed_getter IntTypeFlag atoi f a (fa_int_val a) \<and>
     typed_getter Float64TypeFlag (pr_float p) f a (fa_float64_val a) \<and>
     typed_getter DurationTypeFlag (pr_duration p) f a (fa_duration_val a)"

lemma reads_as_parsed: "reads_as parse (Some s) (parsed what parse err s)"
  by (auto simp: reads_as_def parsed_def split: option.splits)

lemma typed_getter_intro:
  assumes "key \<in> set (flag_keys f)" and "f_value_type f = ty \<Longrightarrow> reads_as parse (entry_text f a) v"
  shows "typed_getter ty parse f a (getter ty key f v)"
  using assms by (auto simp: typed_getter_def getter_def)

lemma default_arg_typed:
  assumes "f_value_type f \<in> set flag_types" and "key \<in> set (flag_keys f)"
  shows "typed_entry p f (default_arg p key f)"
  unfolding typed_entry_def default_arg_def
  by (intro conjI assms(1))
    (auto intro!: typed_getter_intro [OF assms(2)] simp: entry_text_def or_nil_def reads_as_parsed,
      simp_all add: reads_as_def)

lemma passed_arg_typed:
  assumes "f_value_type f \<in> set flag_types" and "key \<in> set (flag_keys f)"
  shows "typed_entry p f (passed_arg p key f v)"
  unfolding typed_entry_def passed_arg_def Let_def
  by (intro conjI assms(1))
    (auto intro!: typed_getter_intro [OF assms(2)] simp: entry_text_def reads_as_parsed,
      simp add: reads_as_def)

lemma last_passed_found:
  "last_passed reg task args k = Some (key, v) \<Longrightarrow> reg_find reg task key \<noteq> None \<and> sets_entry reg task key k"
  using flag_parts_found by (induction args) (auto split: option.splits if_splits)

text \<open>
  C37. The entries of a task's flags are well typed: an entry that the parsing returns belongs to
  a flag registered under its key, of one of the five types. The getter of that type gives
  nil if the flag has no value, else what its text reads as, and it panics with a request for
  such a value if the text does not read as one; the other four getters always panic, and
  their message names the flag and the getter to use.
\<close>

theorem parsed_flags_typed:
  assumes "reg_wf g reg" and "parse_flags p reg task args = Return m" and "m k = Some a"
  shows "\<exists>f. reg_find reg task k = Some f \<and> typed_entry p f a"
proof (cases "last_passed reg task args k")
  case None
  with assms(2,3) obtain f where f: "reg_find reg task k = Some f" "a = default_arg p k f"
    using set_flags_last [OF assms(2) [unfolded parse_flags_def], of k]
    by (auto simp: default_flag_map_def)
  then show ?thesis
    using default_arg_typed flags.found_named [OF assms(1) f(1)] flags.found_valid [OF assms(1) f(1)]
    by (auto simp: flag_valid_def)
next
  case (Some kv)
  obtain key v where kv: "kv = (key, v)" by (cases kv)
  from last_passed_found [OF Some [unfolded kv]] obtain f where f: "reg_find reg task key = Some f"
    and k: "sets_entry reg task key k" by auto
  have "reg_find reg task k = Some f"
    using k f flags.other_key_found [OF assms(1) f] by (auto simp: sets_entry_def)
  moreover have "a = passed_arg p key f v"
    using set_flags_last [OF assms(2) [unfolded parse_flags_def], of k] Some kv f assms(3) by simp
  ultimately show ?thesis
    using passed_arg_typed flags.found_named [OF assms(1) f] flags.found_valid [OF assms(1) f]
    by (auto simp: flag_valid_def)
qed

theorem parsed_flags_typed_witness:
  "\<exists>m a. parse_flags demo_parsers demo_registry ''build'' [''--mode=a'', ''-m=b''] = Return m \<and>
     m ''mode'' = Some a \<and> fa_string_val a = Return (Some ''b'') \<and>
     (\<exists>key. fa_int_val a = Panics (type_message key demo_flag))"
proof -
  obtain m a where m: "parse_flags demo_parsers demo_registry ''build'' [''--mode=a'', ''-m=b''] = Return m"
    and a: "m ''mode'' = Some a" "fa_value a = Some ''b''"
    by (simp add: flags_eval passed_arg_def)
  have f: "reg_find demo_registry ''build'' ''mode'' = Some demo_flag"
    by (simp add: reg_find_def demo_registry_def demo_flag_def flag_keys_def)
  from parsed_flags_typed [OF demo_registry_wf m a(1)] f have "typed_entry demo_parsers demo_flag a"
    by simp
  moreover have "entry_text demo_flag a = Some ''b''"
    using a(2) by (simp add: entry_text_def strip_quotes_def)
  moreover have "f_value_type demo_flag = StringTypeFlag"
    by (simp add: demo_flag_def flag_type_defs)
  ultimately have "fa_string_val a = Return (Some ''b'')"
    "\<exists>key. fa_int_val a = Panics (type_message key demo_flag)"
    by (auto simp: typed_entry_def typed_getter_def reads_as_def flag_type_defs)
  with m a(1) show ?thesis by blast
qed

end
