(* ===== verification/Help.thy ===== *)
theory Help
  imports Flags
begin

text \<open>
  The help text of a task (\<open>executor.go\<close>, \<open>helpMsgTemplate\<close> and \<open>showTaskFlagHelpText\<close>). It is
  rendered with package html/template, whose escaping in text is modelled.
\<close>

section \<open>The template\<close>

text \<open>The replacements of html/template for text between tags.\<close>

definition html_char :: "char \<Rightarrow> string" where
  "html_char c =
     (if c = CHR 0x00 then [CHR 0xEF, CHR 0xBF, CHR 0xBD] else if c = dquote then ''&#34;''
      else if c = CHR ''&'' then ''&amp;'' else if c = CHR 0x27 then ''&#39;''
      else if c = CHR ''+'' then ''&#43;'' else if c = CHR ''<'' then ''&lt;''
      else if c = CHR ''>'' then ''&gt;'' else [c])"

definition html_escape :: "string \<Rightarrow> string" where
  "html_escape s = concat (map html_char s)"

text \<open>The two symbols at the start of the lines, in UTF-8.\<close>

definition star_symbol :: string where
  "star_symbol = [CHR 0xE2, CHR 0xAD, CHR 0x90, CHR 0xEF, CHR 0xB8, CHR 0x8F]"

definition flag_symbol :: string where
  "flag_symbol = [CHR 0xE2, CHR 0x9B, CHR 0xB3, CHR 0xEF, CHR 0xB8, CHR 0x8F]"

definition shown_long :: "task_flag \<Rightarrow> string" where
  "shown_long f = ''--'' @ f_long_name f"

definition shown_short :: "task_flag \<Rightarrow> string" where
  "shown_short f = ''-'' @ rune_string (f_short_name f)"

definition help_flag :: "task_flag \<Rightarrow> string" where
  "help_flag f =
     [newline] @ ''  '' @ flag_symbol @ '' '' @
     (if f_long_name f \<noteq> '''' then html_escape (shown_long f) else '''') @
     (if f_short_name f \<noteq> 0
      then (if f_long_name f \<noteq> '''' then '' | '' else '''') @ html_escape (shown_short f) else '''') @
     '' ['' @ html_escape (f_value_type f) @ '']'' @
     (if f_default f \<noteq> '''' then '' (Default Value: '' @ html_escape (f_default f) @ '')'' else '''') @
     [newline] @ ''    '' @ html_escape (f_description f) @ [newline]"

definition help_text :: "string \<Rightarrow> string \<Rightarrow> task_flag list \<Rightarrow> string" where
  "help_text name description flags =
     [newline] @ star_symbol @ '' '' @ html_escape name @ [newline] @
     (if description \<noteq> '''' then [newline] @ ''  '' @ html_escape description else '''') @ [newline] @
     (if flags = [] then [newline] @ ''  No flags are supported.'' @ [newline]
      else [newline] @ ''  The following flags are supported:'' @ [newline] @ ''  '' @
        concat (map help_flag flags) @ [newline]) @ [newline]"

text \<open>\<open>showTaskFlagHelpText\<close> of a task of the executor's registry.\<close>

definition show_help :: "(tid \<Rightarrow> 'w task) \<Rightarrow> (string \<rightharpoonup> tid) \<Rightarrow> string \<Rightarrow> string outcome" where
  "show_help g registry name =
     (case registry name of
        None \<Rightarrow> Panics ''nil pointer dereference''
      | Some t \<Rightarrow> Return (help_text name (t_description (g t)) (t_flags (g t))))"

section \<open>What it shows\<close>

lemma html_escape_plain: "(\<forall>c \<in> set s. html_char c = [c]) \<Longrightarrow> html_escape s = s"
  unfolding html_escape_def by (induction s) auto

text \<open>
  Which of the shown names a task accepts: a long name of two or more bytes, and a short name of
  one byte that is not a dash. Others are registered and shown, but rejected when passed.
\<close>

lemma shown_names_accepted:
  assumes "reg_wf g reg" and "reg_definitions reg name = Some t" and "f \<in> set (t_flags (g t))"
  shows "f_long_name f \<noteq> '''' \<Longrightarrow>
      verified_key reg name (shown_long f) = Inr (f_long_name f) \<longleftrightarrow> 1 < length (f_long_name f)"
    and "f_short_name f \<noteq> 0 \<Longrightarrow>
      verified_key reg name (shown_short f) = Inr (rune_string (f_short_name f)) \<longleftrightarrow>
        length (rune_string (f_short_name f)) = 1 \<and> rune_string (f_short_name f) \<noteq> ''-''"
proof -
  from assms(1,2) have fine: "task_fine (g t)" "reg_flags reg name = Some (flag_index (t_flags (g t)))"
    by (auto simp: reg_wf_def)
  have found: "reg_find reg name k = Some f" if "k \<in> set (flag_keys f)" for k
    using fine flag_index_keys [OF _ assms(3) that] by (simp add: reg_find_def task_fine_def)
  show "verified_key reg name (shown_long f) = Inr (f_long_name f) \<longleftrightarrow> 1 < length (f_long_name f)"
    if "f_long_name f \<noteq> ''''"
    using found [of "f_long_name f"] that by (auto simp: verified_key_Inr shown_long_def flag_keys_def)
  show "verified_key reg name (shown_short f) = Inr (rune_string (f_short_name f)) \<longleftrightarrow>
      length (rune_string (f_short_name f)) = 1 \<and> rune_string (f_short_name f) \<noteq> ''-''"
    if "f_short_name f \<noteq> 0"
    using found [of "rune_string (f_short_name f)"] that
    by (auto simp: verified_key_Inr shown_short_def flag_keys_def)
qed

text \<open>A description is not shown as it was written.\<close>

lemma help_escapes: "html_escape ''don't use <x> + y'' = ''don&#39;t use &lt;x&gt; &#43; y''"
  by (simp add: html_escape_def html_char_def)

end
