(* ===== verification/Wrapper.thy ===== *)
theory Wrapper
  imports Registry TaskSetBuild
begin

text \<open>
  What a function that wraps tasks owes to the rest of the program (a \<open>TaskOption\<close>, or a
  function like \<open>WrapWithPersistentCache\<close>): the registry, the graph and the watchers see the
  wrapped task as they see the task.
\<close>

lemma add_deps_cong:
  "(\<And>c t s. add c t s = add' c t s) \<Longrightarrow> add_deps add c self ds acc s = add_deps add' c self ds acc s"
  by (induction ds arbitrary: acc s) (auto split: option.splits)

lemma add_task_cong:
  assumes "\<And>t. t_dependencies (g t) = t_dependencies (h t)"
  shows "add_task n g c t s = add_task n h c t s"
proof (induction n arbitrary: c t s)
  case 0
  then show ?case by simp
next
  case (Suc n)
  have "add_deps (add_task n g) c self ds acc s = add_deps (add_task n h) c self ds acc s"
    for c self ds acc s by (rule add_deps_cong) (rule Suc.IH)
  then show ?case by (simp add: assms Let_def case_prod_beta split: option.split)
qed

text \<open>The graph depends on the dependencies of the tasks only.\<close>

lemma build_task_set_cong:
  assumes "\<And>t. t_dependencies (g t) = t_dependencies (h t)"
  shows "build_task_set n g reg c names s = build_task_set n h reg c names s"
  by (induction names arbitrary: s) (simp_all add: add_task_cong [OF assms] split: option.splits)

text \<open>
  The interface. Wrapping may end the program; a task \<open>fits\<close> when the wrapper does not give it
  a second run function.
\<close>

locale task_wrapper =
  fixes wrap :: "'w task \<Rightarrow> 'w task outcome" and fits :: "'w task \<Rightarrow> bool"
  assumes wrap_keeps: "wrap task = Return wrapped \<Longrightarrow>
      t_name wrapped = t_name task \<and> t_flags wrapped = t_flags task \<and>
      t_dependencies wrapped = t_dependencies task \<and> t_keep_alive wrapped = t_keep_alive task \<and>
      t_sources wrapped = t_sources task \<and> t_ignore wrapped = t_ignore task"
    and wrap_runs: "wrap task = Return wrapped \<Longrightarrow> fits task \<Longrightarrow>
      t_run wrapped = None \<or> t_run_with_flags wrapped = None \<longleftrightarrow>
      t_run task = None \<or> t_run_with_flags task = None"
begin

lemma fine: "wrap task = Return wrapped \<Longrightarrow> fits task \<Longrightarrow> task_fine wrapped \<longleftrightarrow> task_fine task"
  by (simp add: task_fine_def wrap_keeps wrap_runs)

lemma registered:
  assumes "wrap task = Return wrapped" and "fits task"
  shows "registry_add wrapped t reg = Return reg' \<longleftrightarrow> registry_add task t reg = Return reg'"
  by (simp add: registry_add_Return fine [OF assms] wrap_keeps [OF assms(1)])

lemma same_graph:
  assumes "\<And>t. h t = g t \<or> wrap (g t) = Return (h t)"
  shows "build_task_set n h reg c names s = build_task_set n g reg c names s"
proof (rule build_task_set_cong)
  show "t_dependencies (h t) = t_dependencies (g t)" for t
    using assms [of t] wrap_keeps [of "g t" "h t"] by auto
qed

end

end
