(* ===== verification/Cache.thy ===== *)
theory Cache
  imports Watch Wrapper
begin

text \<open>
  Package \<open>cache\<close>: the snapshots of a git repository, the comparison of the present state with
  a recorded one, and the decision to skip a task's first run. The shell commands are the
  parameter \<open>sh\<close> (an error with the standard error, or the standard output); the walk of
  the file system, MD5 and the JSON codec are parameters as well.
\<close>

section \<open>git.go and md5sum.go\<close>

definition strip_stdout :: "string \<Rightarrow> string" where
  "strip_stdout buf = trim_newlines buf"

definition split_stdout :: "string \<Rightarrow> string list" where
  "split_stdout buf = split_on newline (strip_stdout buf)"

type_synonym git_shell = "string \<Rightarrow> (go_error \<times> string) + string"

definition git_output :: "git_shell \<Rightarrow> string \<Rightarrow> go_error + string" where
  "git_output sh command =
     (case sh command of
        Inl (e, err) \<Rightarrow> Inl (Wrapped (command @ ''; stderr: '' @ err) e)
      | Inr out \<Rightarrow> Inr out)"

definition git_current_commit :: "git_shell \<Rightarrow> go_error + string" where
  "git_current_commit sh = map_sum id strip_stdout (git_output sh ''git rev-parse HEAD'')"

definition git_diff :: "git_shell \<Rightarrow> string \<Rightarrow> go_error + string list" where
  "git_diff sh commit = map_sum id split_stdout (git_output sh (''git diff --name-only '' @ commit))"

definition status_line :: "string \<Rightarrow> string list \<times> string list \<Rightarrow> string list \<times> string list" where
  "status_line line fs =
     (if length (trim_space line) < 4 then fs
      else if has_prefix line ''??'' then (fst fs @ [drop 3 line], snd fs)
      else (fst fs, snd fs @ [drop 3 line]))"

definition git_uncommitted_files :: "git_shell \<Rightarrow> go_error + string list \<times> string list" where
  "git_uncommitted_files sh =
     map_sum id (\<lambda>out. fold status_line (split_stdout out) ([], [])) (git_output sh ''git status --porcelain'')"

text \<open>
  \<open>hashSum\<close>: \<open>walk path\<close> lists the paths below \<open>path\<close> that can be read, with their times of
  modification. Errors of the walk are dropped, so it never fails.
\<close>

definition hex_digit :: "nat \<Rightarrow> char" where
  "hex_digit d = (if d < 10 then char_of (48 + d) else char_of (87 + d))"

definition hex_string :: "string \<Rightarrow> string" where
  "hex_string bs = concat (map (\<lambda>b. let n = of_char b :: nat in [hex_digit (n div 16), hex_digit (n mod 16)]) bs)"

definition hash_sum ::
  "(string \<Rightarrow> string) \<Rightarrow> (string \<Rightarrow> (string \<times> string) list) \<Rightarrow> string \<Rightarrow> go_error + string" where
  "hash_sum md5 walk path = Inr (hex_string (md5 (concat (map (\<lambda>(p, t). p @ '':'' @ t) (walk path)))))"

section \<open>Snapshots\<close>

text \<open>
  The four functions of a \<open>snapshotter\<close> are its view of the repository at one time.
\<close>

record snapshotter =
  sr_commit :: "go_error + string"
  sr_diff :: "string \<Rightarrow> go_error + string list"
  sr_uncommitted :: "go_error + string list \<times> string list"
  sr_hash :: "string \<Rightarrow> go_error + string"

definition new_snapshotter ::
  "git_shell \<Rightarrow> (string \<Rightarrow> string) \<Rightarrow> (string \<Rightarrow> (string \<times> string) list) \<Rightarrow> snapshotter" where
  "new_snapshotter sh md5 walk =
     \<lparr>sr_commit = git_current_commit sh, sr_diff = git_diff sh,
      sr_uncommitted = git_uncommitted_files sh, sr_hash = hash_sum md5 walk\<rparr>"

text \<open>The map of a snapshot is computed from its list: a later entry wins.\<close>

record snapshot =
  sn_commit :: string
  sn_files :: "(string \<times> string) list"

definition hash_for :: "snapshot \<Rightarrow> string \<Rightarrow> string" where
  "hash_for s path = (case map_of (rev (sn_files s)) path of None \<Rightarrow> '''' | Some h \<Rightarrow> h)"

fun hash_files :: "(string \<Rightarrow> go_error + string) \<Rightarrow> string list \<Rightarrow> go_error + (string \<times> string) list" where
  "hash_files hash [] = Inr []"
| "hash_files hash (f # fs) =
     (case hash f of
        Inl e \<Rightarrow> Inl e
      | Inr h \<Rightarrow> (case hash_files hash fs of Inl e \<Rightarrow> Inl e | Inr hs \<Rightarrow> Inr ((f, h) # hs)))"

definition take_snapshot :: "snapshotter \<Rightarrow> bool \<Rightarrow> go_error + snapshot" where
  "take_snapshot c with_changed =
     (case sr_commit c of
        Inl e \<Rightarrow> Inl e
      | Inr sha \<Rightarrow>
          (case sr_uncommitted c of
             Inl e \<Rightarrow> Inl e
           | Inr (new, modified) \<Rightarrow>
               (case hash_files (sr_hash c) (if with_changed then new @ modified else new) of
                  Inl e \<Rightarrow> Inl e
                | Inr files \<Rightarrow> Inr \<lparr>sn_commit = sha, sn_files = files\<rparr>)))"

text \<open>
  \<open>Diff\<close>: the loops over the files of the previous snapshot and of the current one. Their
  state is \<open>modifiedFiles\<close> and \<open>err\<close>; each file that differs makes \<open>modifiedFiles\<close> the
  files of the git diff and that file.
\<close>

definition rehash ::
  "snapshotter \<Rightarrow> snapshot \<Rightarrow> string \<Rightarrow> go_error option \<Rightarrow> string \<times> go_error option" where
  "rehash c current path err =
     (if hash_for current path \<noteq> '''' then (hash_for current path, err)
      else (case sr_hash c path of Inl e \<Rightarrow> ('''', Some e) | Inr h \<Rightarrow> (h, None)))"

definition diff_previous ::
  "snapshotter \<Rightarrow> snapshot \<Rightarrow> string list \<Rightarrow> string \<times> string
    \<Rightarrow> string list \<times> go_error option \<Rightarrow> string list \<times> go_error option" where
  "diff_previous c current git_files file state =
     (let (md5, err) = rehash c current (fst file) (snd state) in
      (if md5 = '''' \<or> md5 \<noteq> snd file then git_files @ [fst file] else fst state, err))"

definition diff_current ::
  "snapshot \<Rightarrow> string list \<Rightarrow> string \<times> string
    \<Rightarrow> string list \<times> go_error option \<Rightarrow> string list \<times> go_error option" where
  "diff_current previous git_files file state =
     (let sha = hash_for previous (fst file) in
      (if sha = '''' \<or> sha \<noteq> snd file then git_files @ [fst file] else fst state, snd state))"

definition snapshot_diff :: "snapshotter \<Rightarrow> snapshot \<Rightarrow> go_error + string list" where
  "snapshot_diff c previous =
     (case take_snapshot c False of
        Inl e \<Rightarrow> Inl e
      | Inr current \<Rightarrow>
          (case sr_diff c (sn_commit previous) of
             Inl e \<Rightarrow> Inl e
           | Inr git_files \<Rightarrow>
               (let committed = filter (\<lambda>f. hash_for previous f = '''') git_files;
                    s1 = fold (diff_previous c current git_files) (sn_files previous) (committed, None);
                    s2 = fold (diff_current previous git_files) (sn_files current) s1 in
                case snd s2 of None \<Rightarrow> Inr (fst s2) | Some e \<Rightarrow> Inl e)))"

section \<open>The cache\<close>

record cache =
  ch_file :: string
  ch_ran_once :: "tid set"
  ch_all_dirty :: bool
  ch_dirty_files :: "string list"

definition new_cache :: cache where
  "new_cache = \<lparr>ch_file = '''', ch_ran_once = {}, ch_all_dirty = False, ch_dirty_files = []\<rparr>"

definition cache_ignore :: "cache \<Rightarrow> cache" where
  "cache_ignore c = c\<lparr>ch_all_dirty := True\<rparr>"

text \<open>The cache's file: absent, or its content; \<open>home\<close> is the directory of all cache files.\<close>

definition cache_file_path :: "string \<Rightarrow> string \<Rightarrow> string" where
  "cache_file_path cache_dir dir =
     path_join2 cache_dir (map (\<lambda>c. if c = slash then CHR ''%'' else c) dir)"

record codec =
  cd_encode :: "snapshot \<Rightarrow> go_error + string"
  cd_decode :: "string \<Rightarrow> go_error + snapshot"

definition snapshot_read :: "codec \<Rightarrow> string option \<Rightarrow> go_error + snapshot" where
  "snapshot_read j content =
     (case content of None \<Rightarrow> Inl (Err ''no such file'') | Some b \<Rightarrow> cd_decode j b)"

definition snapshot_write :: "codec \<Rightarrow> snapshotter \<Rightarrow> string option \<Rightarrow> go_error option \<times> string option" where
  "snapshot_write j c content =
     (case take_snapshot c True of
        Inl e \<Rightarrow> (Some e, content)
      | Inr s \<Rightarrow> (case cd_encode j s of Inl e \<Rightarrow> (Some e, content) | Inr b \<Rightarrow> (None, Some b)))"

text \<open>
  \<open>Start\<close>: a file that cannot be read is as an empty snapshot with everything dirty; the file
  is truncated; a failing \<open>Diff\<close> makes everything dirty. It never fails.
\<close>

definition cache_start ::
  "codec \<Rightarrow> snapshotter \<Rightarrow> string option \<Rightarrow> cache \<Rightarrow> cache \<times> string option" where
  "cache_start j c content ch =
     (let (s, ch1) = (case snapshot_read j content of
            Inl e \<Rightarrow> (\<lparr>sn_commit = '''', sn_files = []\<rparr>, ch\<lparr>ch_all_dirty := True\<rparr>)
          | Inr s \<Rightarrow> (s, ch));
          content1 = map_option (\<lambda>_. '''') content in
      case snapshot_diff c s of
        Inl e \<Rightarrow> (ch1\<lparr>ch_all_dirty := True\<rparr>, content1)
      | Inr files \<Rightarrow> (ch1\<lparr>ch_dirty_files := files\<rparr>, content1))"

text \<open>
  The hook of \<open>Option\<close>: the file is named after the working directory of the configuration;
  \<open>read\<close> gives the contents of files.
\<close>

definition cache_on_start ::
  "codec \<Rightarrow> snapshotter \<Rightarrow> string \<Rightarrow> (string \<Rightarrow> string option) \<Rightarrow> config \<Rightarrow> cache \<Rightarrow> cache \<times> string option" where
  "cache_on_start j c cache_dir read cfg ch =
     (let path = cache_file_path cache_dir (c_working_dir cfg) in
      cache_start j c (read path) (ch\<lparr>ch_file := path\<rparr>))"

text \<open>\<open>Finish\<close>: an error of the write is dropped; \<open>mkdir\<close> is the result of \<open>os.MkdirAll\<close>.\<close>

definition cache_finish ::
  "codec \<Rightarrow> snapshotter \<Rightarrow> go_error option \<Rightarrow> string option \<Rightarrow> go_error option \<times> string option" where
  "cache_finish j c mkdir content =
     (if mkdir \<noteq> None then (mkdir, content) else (None, snd (snapshot_write j c content)))"

definition is_first_run :: "tid \<Rightarrow> cache \<Rightarrow> bool \<times> cache" where
  "is_first_run t ch = (t \<notin> ch_ran_once ch, ch\<lparr>ch_ran_once := insert t (ch_ran_once ch)\<rparr>)"

fun any_source :: "globber \<Rightarrow> 'w task \<Rightarrow> string list \<Rightarrow> bool outcome" where
  "any_source glob task [] = Return False"
| "any_source glob task (f # fs) =
     bind_outcome (is_task_source glob task f) (\<lambda>b.
       if b then Return True else any_source glob task fs)"

definition is_valid :: "globber \<Rightarrow> 'w task \<Rightarrow> cache \<Rightarrow> bool outcome" where
  "is_valid glob task ch =
     (if ch_all_dirty ch then Return False
      else bind_outcome (any_source glob task (ch_dirty_files ch)) (\<lambda>b. Return (\<not> b)))"

text \<open>
  \<open>maybeRun\<close>: whether the wrapped task's \<open>Run\<close> is called; \<open>logged\<close> says whether the context
  holds a logger, without which a valid task is run all the same.
\<close>

definition maybe_run :: "globber \<Rightarrow> 'w task \<Rightarrow> tid \<Rightarrow> bool \<Rightarrow> cache \<Rightarrow> bool outcome \<times> cache" where
  "maybe_run glob task t logged ch =
     (let (first, ch') = is_first_run t ch in
      (if first then bind_outcome (is_valid glob task ch') (\<lambda>valid. Return (\<not> (valid \<and> logged)))
       else Return True, ch'))"

text \<open>
  The function that \<open>maybeRun\<close> returns, on a world and the cache; \<open>emit\<close> writes to a writer. A
  task without \<open>Run\<close> is a call of a nil function.
\<close>

definition cached_run ::
  "globber \<Rightarrow> (writer \<Rightarrow> string \<Rightarrow> 'w \<Rightarrow> 'w) \<Rightarrow> 'w task \<Rightarrow> tid \<Rightarrow> go_ctx \<Rightarrow> 'w shell_fn \<Rightarrow> 'w \<Rightarrow> cache \<Rightarrow>
   (go_error option \<times> 'w \<times> cache) outcome" where
  "cached_run glob emit task t ctx sh w ch =
     (let (decision, ch') = maybe_run glob task t (cx_logger ctx \<noteq> None) ch in
      bind_outcome decision (\<lambda>runs.
        if runs then
          (case t_run task of
             None \<Rightarrow> Panics ''nil pointer dereference''
           | Some run \<Rightarrow> bind_outcome (run ctx sh w) (\<lambda>(err, w'). Return (err, w', ch')))
        else Return (None, emit (lg_stdout (the (cx_logger ctx))) (''no changes (cache)'' @ [newline]) w, ch')))"

definition wrap_with_cache :: "'w run_fn \<Rightarrow> 'w task \<Rightarrow> 'w task outcome" where
  "wrap_with_cache run task =
     (if t_sources task = []
      then Panics (''Task '' @ t_name task @
        '' cannot be wrapped with a persistent cache as it has no sources'')
      else Return (task\<lparr>t_run := Some run\<rparr>))"

interpretation cached: task_wrapper "wrap_with_cache run" "\<lambda>task. t_run_with_flags task = None" for run
  by unfold_locales (auto simp: wrap_with_cache_def split: if_splits)

text \<open>A task that takes flags does not fit: it cannot be registered once it is wrapped.\<close>

lemma cached_flags_task_rejected:
  assumes "t_run_with_flags task \<noteq> None" and "wrap_with_cache run task = Return wrapped"
  shows "registry_add wrapped t reg \<noteq> Return reg'"
  using assms by (auto simp: wrap_with_cache_def registry_add_Return task_fine_def split: if_splits)

section \<open>What Diff reports\<close>

text \<open>The recorded and the new files whose hash is not the recorded one.\<close>

definition changed_files :: "snapshotter \<Rightarrow> snapshot \<Rightarrow> snapshot \<Rightarrow> string list" where
  "changed_files c previous current =
     map fst (filter (\<lambda>(f, h). (let m = fst (rehash c current f None) in m = '''' \<or> m \<noteq> h))
       (sn_files previous)) @
     map fst (filter (\<lambda>(f, h). hash_for previous f = '''' \<or> hash_for previous f \<noteq> h)
       (sn_files current))"

definition hashes :: "snapshotter \<Rightarrow> bool" where
  "hashes c \<longleftrightarrow> (\<forall>f. \<exists>h. sr_hash c f = Inr h)"

lemma fold_keep_last:
  assumes "\<And>x m. F x (m, e) = (if P x then G @ [f x] else m, e)"
  shows "fold F xs (m, e) = (if filter P xs = [] then m else G @ [f (last (filter P xs))], e)"
  by (induction xs arbitrary: m) (auto simp: assms)

lemma rehash_err: "hashes c \<Longrightarrow> snd (rehash c current f None) = None"
  unfolding rehash_def hashes_def by (auto split: sum.splits) (metis sum.distinct(1))

abbreviation differs_previous :: "snapshotter \<Rightarrow> snapshot \<Rightarrow> string \<times> string \<Rightarrow> bool" where
  "differs_previous c current \<equiv>
     (\<lambda>(f, h). (let m = fst (rehash c current f None) in m = '''' \<or> m \<noteq> h))"

abbreviation differs_current :: "snapshot \<Rightarrow> string \<times> string \<Rightarrow> bool" where
  "differs_current previous \<equiv> (\<lambda>(f, h). hash_for previous f = '''' \<or> hash_for previous f \<noteq> h)"

lemma fold_diff_previous:
  assumes "hashes c"
  shows "fold (diff_previous c current G) files (m, None) =
    (if filter (differs_previous c current) files = [] then m
     else G @ [fst (last (filter (differs_previous c current) files))], None)"
  by (intro fold_keep_last)
    (simp add: diff_previous_def Let_def case_prod_beta rehash_err [OF assms])

lemma fold_diff_current:
  "fold (diff_current previous G) files (m, err) =
    (if filter (differs_current previous) files = [] then m
     else G @ [fst (last (filter (differs_current previous) files))], err)"
  by (intro fold_keep_last) (simp add: diff_current_def Let_def case_prod_beta)

text \<open>
  What \<open>Diff\<close> reports: without a changed uncommitted file, the files that git reports
  against the recorded commit and that were not recorded as uncommitted; otherwise all files
  that git reports and the last of the changed files only, where every changed one is meant.
\<close>

lemma snapshot_diff_exact:
  assumes "take_snapshot c False = Inr current" and "sr_diff c (sn_commit previous) = Inr git_files"
    and "hashes c"
  shows "snapshot_diff c previous = Inr
    (if changed_files c previous current = []
     then filter (\<lambda>f. hash_for previous f = '''') git_files
     else git_files @ [last (changed_files c previous current)])"
  using assms
  by (simp add: snapshot_diff_def fold_diff_previous fold_diff_current changed_files_def Let_def
      last_map)

section \<open>The decision to skip a task\<close>

lemma any_source_False:
  "any_source glob task fs = Return False \<longleftrightarrow> (\<forall>f \<in> set fs. is_task_source glob task f = Return False)"
  by (induction fs) (auto simp: bind_outcome_Return_iff split: if_splits)

lemma maybe_run_skips:
  "fst (maybe_run glob task t logged ch) = Return False \<longleftrightarrow>
     t \<notin> ch_ran_once ch \<and> logged \<and> \<not> ch_all_dirty ch \<and>
     (\<forall>f \<in> set (ch_dirty_files ch). is_task_source glob task f = Return False)"
  using any_source_False [of glob task "ch_dirty_files ch"]
  by (cases "any_source glob task (ch_dirty_files ch)")
    (auto simp: maybe_run_def is_first_run_def is_valid_def)

text \<open>A second run in a session always calls the task; the first notes that it ran.\<close>

lemma cached_run_again:
  assumes "t \<in> ch_ran_once ch" and "t_run task = Some run" and "run ctx sh w = Return (err, w')"
  shows "cached_run glob emit task t ctx sh w ch = Return (err, w', ch)"
proof -
  have "ch\<lparr>ch_ran_once := insert t (ch_ran_once ch)\<rparr> = ch" using assms(1) by (simp add: insert_absorb)
  with assms show ?thesis by (simp add: cached_run_def maybe_run_def is_first_run_def)
qed

lemma cached_run_skips:
  assumes "fst (maybe_run glob task t (cx_logger ctx \<noteq> None) ch) = Return False"
  shows "\<exists>l. cx_logger ctx = Some l \<and> cached_run glob emit task t ctx sh w ch =
    Return (None, emit (lg_stdout l) (''no changes (cache)'' @ [newline]) w,
      ch\<lparr>ch_ran_once := insert t (ch_ran_once ch)\<rparr>)"
  using assms maybe_run_skips [of glob task t "cx_logger ctx \<noteq> None" ch]
  by (auto simp: cached_run_def maybe_run_def is_first_run_def case_prod_beta)

text \<open>The hash of a file never fails.\<close>

lemma new_snapshotter_hashes: "hashes (new_snapshotter sh md5 walk)"
  by (simp add: hashes_def new_snapshotter_def hash_sum_def)

lemma cache_start_dirty:
  "ch_all_dirty (fst (cache_start j c content ch)) \<longleftrightarrow> ch_all_dirty ch \<or>
     (\<forall>previous files. \<not> (snapshot_read j content = Inr previous \<and> snapshot_diff c previous = Inr files))"
  by (auto simp: cache_start_def Let_def split: sum.splits)

lemma cache_start_files:
  "snapshot_read j content = Inr previous \<Longrightarrow> snapshot_diff c previous = Inr files \<Longrightarrow>
     ch_dirty_files (fst (cache_start j c content ch)) = files"
  by (simp add: cache_start_def)

lemma snapshot_diff_Inr:
  assumes "hashes c"
  shows "snapshot_diff c previous = Inr files \<longleftrightarrow> (\<exists>current git_files.
    take_snapshot c False = Inr current \<and> sr_diff c (sn_commit previous) = Inr git_files \<and>
    files = (if changed_files c previous current = []
      then filter (\<lambda>f. hash_for previous f = '''') git_files
      else git_files @ [last (changed_files c previous current)]))"
proof (cases "take_snapshot c False")
  case (Inl e)
  then show ?thesis by (simp add: snapshot_diff_def)
next
  case (Inr current)
  note current = Inr
  show ?thesis
  proof (cases "sr_diff c (sn_commit previous)")
    case (Inl e)
    with current show ?thesis by (simp add: snapshot_diff_def)
  next
    case (Inr git_files)
    from snapshot_diff_exact [OF current Inr assms] current Inr show ?thesis by auto
  qed
qed

text \<open>
  C28. When a task is skipped: exactly when this is its first run of the session, the context has
  a logger, the cache is not to be ignored, a snapshot was read, git's commands gave the
  present state and the difference from the recorded commit, and no file that \<open>Diff\<close> reports
  is one of the task's sources. \<open>Diff\<close> reports the files of git's difference that were not
  recorded as uncommitted, if no uncommitted file changed; otherwise all the files of git's
  difference and, of the changed uncommitted files, the last one only.
\<close>

theorem task_skipped_iff:
  fixes sh md5 walk
  defines "c \<equiv> new_snapshotter sh md5 walk"
  shows "fst (maybe_run glob task t logged
      ((fst (cache_start j c content (new_cache\<lparr>ch_all_dirty := ignored\<rparr>)))\<lparr>ch_ran_once := once\<rparr>)) = Return False \<longleftrightarrow>
    t \<notin> once \<and> logged \<and> \<not> ignored \<and>
    (\<exists>previous current git_files. snapshot_read j content = Inr previous \<and>
       take_snapshot c False = Inr current \<and> git_diff sh (sn_commit previous) = Inr git_files \<and>
       (\<forall>f \<in> set (if changed_files c previous current = []
            then filter (\<lambda>f. hash_for previous f = '''') git_files
            else git_files @ [last (changed_files c previous current)]).
          is_task_source glob task f = Return False))"
proof -
  let ?ch = "fst (cache_start j c content (new_cache\<lparr>ch_all_dirty := ignored\<rparr>))"
  have c: "hashes c" "sr_diff c = git_diff sh"
    by (simp_all add: c_def new_snapshotter_hashes) (simp add: new_snapshotter_def)
  have "fst (maybe_run glob task t logged (?ch\<lparr>ch_ran_once := once\<rparr>)) = Return False \<longleftrightarrow>
      t \<notin> once \<and> logged \<and> \<not> ignored \<and>
      (\<exists>previous files. snapshot_read j content = Inr previous \<and> snapshot_diff c previous = Inr files \<and>
         (\<forall>f \<in> set files. is_task_source glob task f = Return False))"
    using cache_start_files [of j content _ c _ "new_cache\<lparr>ch_all_dirty := ignored\<rparr>"]
    by (auto simp: maybe_run_skips cache_start_dirty new_cache_def)
  then show ?thesis unfolding snapshot_diff_Inr [OF c(1)] c(2) by blast
qed

section \<open>An unchanged repository\<close>

lemma hash_files_total: "hash_files (\<lambda>f. Inr (h f)) fs = Inr (map (\<lambda>f. (f, h f)) fs)"
  by (induction fs) simp_all

lemma hash_for_map:
  "hash_for \<lparr>sn_commit = sha, sn_files = map (\<lambda>f. (f, h f)) fs\<rparr> f = (if f \<in> set fs then h f else '''')"
  by (simp add: hash_for_def rev_map map_of_map_restrict restrict_map_def)

lemma hex_string_empty: "hex_string bs = '''' \<longleftrightarrow> bs = ''''"
  by (cases bs) (simp_all add: hex_string_def Let_def)

text \<open>
  C29. An unchanged repository after a round trip: if \<open>Finish\<close> recorded a snapshot and the
  repository is the same at the next \<open>Start\<close>, with a codec that reads back what it wrote and
  checksums that are not empty, then not everything is dirty, and the dirty files are exactly
  the names in git's difference from the recorded commit that \<open>git status\<close> had not listed. An
  empty difference has one name, the empty one; and where the two commands write the name of
  a file differently, as for a renamed file, it is dirty although it has not changed.
\<close>

theorem unchanged_repository_dirt:
  fixes sh md5 walk
  defines "c \<equiv> new_snapshotter sh md5 walk"
  assumes "take_snapshot c True = Inr s" and "\<And>x. md5 x \<noteq> ''''"
    and "git_uncommitted_files sh = Inr (new, modified)"
    and "git_diff sh (sn_commit s) = Inr git_files"
    and "cd_encode j s = Inr b" and "cd_decode j b = Inr s"
  shows "\<exists>ch content'. cache_start j c (snd (cache_finish j c None content)) new_cache = (ch, content') \<and>
    \<not> ch_all_dirty ch \<and> ch_dirty_files ch = filter (\<lambda>f. f \<notin> set new \<union> set modified) git_files"
proof -
  let ?h = "\<lambda>f. hex_string (md5 (concat (map (\<lambda>(p, t). p @ '':'' @ t) (walk f))))"
  have h: "sr_hash c = (\<lambda>f. Inr (?h f))" "\<And>f. ?h f \<noteq> ''''"
    and fields: "sr_uncommitted c = Inr (new, modified)" "sr_diff c = git_diff sh"
    using assms(3,4) by (simp_all add: c_def new_snapshotter_def hash_sum_def fun_eq_iff hex_string_empty)
  from assms(2) h(1) fields(1) have s: "sn_files s = map (\<lambda>f. (f, ?h f)) (new @ modified)"
    and sha: "sr_commit c = Inr (sn_commit s)"
    by (auto simp: take_snapshot_def hash_files_total split: sum.splits)
  let ?cur = "\<lparr>sn_commit = sn_commit s, sn_files = map (\<lambda>f. (f, ?h f)) new\<rparr>"
  have cur: "take_snapshot c False = Inr ?cur"
    using fields(1) sha h(1) by (simp add: take_snapshot_def hash_files_total)
  have prev: "hash_for s f = (if f \<in> set (new @ modified) then ?h f else '''')" for f
    using hash_for_map [of "sn_commit s" ?h "new @ modified" f] s by (cases s) simp
  have "fst (rehash c ?cur f None) = ?h f" for f
    using h(1) by (simp add: rehash_def hash_for_map)
  then have "changed_files c s ?cur = []"
    using h(2) prev by (auto simp: changed_files_def s filter_empty_conv Let_def)
  then have "snapshot_diff c s = Inr (filter (\<lambda>f. hash_for s f = '''') git_files)"
    using snapshot_diff_exact [OF cur _ new_snapshotter_hashes [of sh md5 walk, folded c_def]]
      fields(2) assms(5) by simp
  moreover have "filter (\<lambda>f. hash_for s f = '''') git_files = filter (\<lambda>f. f \<notin> set new \<union> set modified) git_files"
    using prev h(2) by (intro filter_cong) auto
  ultimately show ?thesis
    using assms(2,6,7)
    by (simp add: cache_start_def cache_finish_def snapshot_write_def snapshot_read_def new_cache_def)
qed

section \<open>The output of git status\<close>

text \<open>
  The lines of \<open>git status --porcelain\<close>: two letters, a space and a name, which ends in an ASCII
  character (git quotes others). A name of one byte whose first letter is a space makes the
  line too short: the file is not seen.
\<close>

definition status_text :: "(char \<times> char \<times> string) list \<Rightarrow> string" where
  "status_text entries = concat (map (\<lambda>(x, y, f). x # y # CHR '' '' # f @ [newline]) entries)"

definition status_entry :: "char \<times> char \<times> string \<Rightarrow> bool" where
  "status_entry e \<longleftrightarrow> (case e of (x, y, f) \<Rightarrow>
     (\<not> is_space x \<or> x = CHR '' '' \<and> \<not> is_space y \<and> 2 \<le> length f) \<and> y \<noteq> newline \<and>
     f \<noteq> '''' \<and> newline \<notin> set f \<and> \<not> is_space (last f) \<and>
     of_char x < (128 :: nat) \<and> of_char y < (128 :: nat) \<and> of_char (last f) < (128 :: nat))"

definition untracked :: "char \<times> char \<times> string \<Rightarrow> bool" where
  "untracked e \<longleftrightarrow> fst e = CHR ''?'' \<and> fst (snd e) = CHR ''?''"

lemma trim_right_id: "s \<noteq> [] \<Longrightarrow> \<not> P (last s) \<Longrightarrow> trim_right_by P s = s"
  by (cases s rule: rev_cases) (simp_all add: trim_right_by_def)

lemma trim_left_id: "s = [] \<or> \<not> P (hd s) \<Longrightarrow> trim_left_by P s = s"
  by (cases s) (auto simp: trim_left_by_def)

lemma status_line_entry:
  assumes "status_entry (x, y, f)"
  shows "status_line (x # y # CHR '' '' # f) fs =
    (if untracked (x, y, f) then (fst fs @ [f], snd fs) else (fst fs, snd fs @ [f]))"
proof -
  from assms obtain f' z where f: "f = f' @ [z]" "\<not> is_space z" "of_char z < (128 :: nat)"
    by (cases f rule: rev_cases) (auto simp: status_entry_def)
  have "4 \<le> length (trim_space (x # y # CHR '' '' # f))"
  proof (cases "is_space x")
    case True
    with assms have "x = CHR '' ''" "\<not> is_space y" "of_char y < (128 :: nat)" "2 \<le> length f"
      by (auto simp: status_entry_def)
    with trim_space_blank [of y z "CHR '' '' # f'"] f show ?thesis by simp
  next
    case False
    with assms have "of_char x < (128 :: nat)" by (auto simp: status_entry_def)
    with trim_space_ascii(1) [of x z "y # CHR '' '' # f'"] f False assms show ?thesis by simp
  qed
  then show ?thesis by (auto simp: status_line_def untracked_def)
qed

lemma status_lines:
  assumes "\<forall>e \<in> set entries. status_entry e"
  shows "fold status_line (map (\<lambda>(x, y, f). x # y # CHR '' '' # f) entries) fs =
    (fst fs @ map (\<lambda>(x, y, f). f) (filter untracked entries),
     snd fs @ map (\<lambda>(x, y, f). f) (filter (\<lambda>e. \<not> untracked e) entries))"
  using assms
proof (induction entries arbitrary: fs)
  case Nil
  then show ?case by simp
next
  case (Cons e entries)
  obtain x y f where "e = (x, y, f)" by (cases e) auto
  with Cons show ?case by (simp add: status_line_entry)
qed

lemma concat_newline:
  "ls \<noteq> [] \<Longrightarrow> concat (map (\<lambda>l. l @ [newline]) ls) = join_with [newline] ls @ [newline]"
proof (induction ls)
  case (Cons l ls)
  then show ?case by (cases ls) (simp_all add: join_with_Cons)
qed simp

lemma join_ends:
  "ls \<noteq> [] \<Longrightarrow> \<forall>l \<in> set ls. l \<noteq> [] \<and> newline \<notin> set l \<Longrightarrow>
     join_with [newline] ls \<noteq> [] \<and> hd (join_with [newline] ls) \<noteq> newline \<and>
     last (join_with [newline] ls) \<noteq> newline"
proof (induction ls)
  case Nil
  then show ?case by simp
next
  case (Cons l ls)
  have "l \<noteq> []" "newline \<notin> set l" using Cons.prems by simp_all
  then have l: "l \<noteq> []" "hd l \<noteq> newline" "last l \<noteq> newline"
    using hd_in_set [of l] last_in_set [of l] by metis+
  show ?case
  proof (cases "ls = []")
    case True
    with l show ?thesis by simp
  next
    case False
    with Cons l show ?thesis by (simp add: join_with_Cons)
  qed
qed

lemma split_lines:
  assumes "ls \<noteq> []" and "\<forall>l \<in> set ls. l \<noteq> [] \<and> newline \<notin> set l"
  shows "split_stdout (concat (map (\<lambda>l. l @ [newline]) ls)) = ls"
proof -
  let ?t = "join_with [newline] ls"
  note t = join_ends [OF assms]
  then have "trim_right_by (\<lambda>c. c = newline) (?t @ [newline]) = trim_right_by (\<lambda>c. c = newline) ?t"
    by (simp add: trim_right_by_def)
  with t have "trim_newlines (?t @ [newline]) = ?t"
    by (simp add: trim_newlines_def trim_left_id trim_right_id)
  then show ?thesis
    using assms by (simp add: split_stdout_def strip_stdout_def concat_newline split_join)
qed

lemma git_status_roundtrip:
  assumes "entries \<noteq> []" and "\<forall>e \<in> set entries. status_entry e"
    and "sh ''git status --porcelain'' = Inr (status_text entries)"
  shows "git_uncommitted_files sh =
    Inr (map (\<lambda>(x, y, f). f) (filter untracked entries),
         map (\<lambda>(x, y, f). f) (filter (\<lambda>e. \<not> untracked e) entries))"
proof -
  let ?ls = "map (\<lambda>(x, y, f). x # y # CHR '' '' # f) entries"
  have "status_text entries = concat (map (\<lambda>l. l @ [newline]) ?ls)"
    by (auto simp: status_text_def intro!: arg_cong [where f = concat])
  moreover have "\<forall>l \<in> set ?ls. l \<noteq> [] \<and> newline \<notin> set l"
    using assms(2) by (fastforce simp: status_entry_def is_space_def)
  ultimately have "split_stdout (status_text entries) = ?ls"
    using split_lines [of ?ls] assms(1) by simp
  then show ?thesis
    using assms(2,3) by (simp add: git_uncommitted_files_def git_output_def status_lines)
qed

lemma short_name_skipped:
  "git_uncommitted_files (\<lambda>_. Inr ('' M a'' @ [newline])) = Inr ([], [])"
proof -
  have "trim_space '' M a'' = ''M a''" using trim_space_blank [of "CHR ''M''" "CHR ''a''" "'' ''"]
    by (simp add: is_space_def)
  then show ?thesis
    by (simp add: git_uncommitted_files_def git_output_def split_stdout_def strip_stdout_def
        trim_newlines_def trim_left_by_def trim_right_by_def status_line_def)
qed

section \<open>A repository\<close>

text \<open>
  Two untracked files, \<open>a.go\<close> and \<open>b.txt\<close>; git's difference from the recorded commit is empty.
  A snapshot that was recorded before has the hash \<open>h\<close> for both.
\<close>

definition demo_sh :: git_shell where
  "demo_sh command = Inr
     (if command = ''git rev-parse HEAD'' then ''c0'' @ [newline]
      else if command = ''git status --porcelain''
      then status_text [(CHR ''?'', CHR ''?'', ''a.go''), (CHR ''?'', CHR ''?'', ''b.txt'')]
      else '''')"

definition demo_repo :: snapshotter where
  "demo_repo = new_snapshotter demo_sh (\<lambda>_. ''x'') (\<lambda>path. [(path, ''0'')])"

definition demo_snapshot :: "string \<Rightarrow> snapshot" where
  "demo_snapshot h = \<lparr>sn_commit = ''c0'', sn_files = [(''a.go'', h), (''b.txt'', h)]\<rparr>"

definition demo_codec :: "string \<Rightarrow> codec" where
  "demo_codec h = \<lparr>cd_encode = (\<lambda>s. Inr ''s''),
     cd_decode = (\<lambda>b. if b = ''s'' then Inr (demo_snapshot h) else Inl (Err ''unexpected end''))\<rparr>"

lemma demo_status: "git_uncommitted_files demo_sh = Inr ([''a.go'', ''b.txt''], [])"
proof -
  let ?es = "[(CHR ''?'', CHR ''?'', ''a.go''), (CHR ''?'', CHR ''?'', ''b.txt'')]"
  have "git_uncommitted_files demo_sh = Inr (map (\<lambda>(x, y, f). f) (filter untracked ?es),
      map (\<lambda>(x, y, f). f) (filter (\<lambda>e. \<not> untracked e) ?es))"
    by (rule git_status_roundtrip) (simp_all add: demo_sh_def status_entry_def is_space_def)
  then show ?thesis by (simp add: untracked_def)
qed

lemma demo_taken: "take_snapshot demo_repo b = Inr (demo_snapshot ''78'')"
  by (simp add: take_snapshot_def demo_repo_def new_snapshotter_def demo_status demo_snapshot_def
      git_current_commit_def git_output_def demo_sh_def strip_stdout_def trim_newlines_def
      trim_left_by_def trim_right_by_def hash_sum_def hex_string_def hex_digit_def) code_simp

lemma demo_diff: "git_diff demo_sh ''c0'' = Inr ['''']"
  by (simp add: git_diff_def git_output_def demo_sh_def split_stdout_def strip_stdout_def
      trim_newlines_def trim_left_by_def trim_right_by_def)

lemma demo_changed:
  "changed_files demo_repo (demo_snapshot h) (demo_snapshot ''78'') =
     (if h = ''78'' then [] else [''a.go'', ''b.txt'', ''a.go'', ''b.txt''])"
  by (simp add: changed_files_def demo_snapshot_def rehash_def hash_for_def)

lemma demo_sources:
  "is_task_source suffix_glob go_task '''' = Return False"
  "is_task_source suffix_glob go_task ''b.txt'' = Return False"
  "is_task_source suffix_glob go_task ''a.go'' = Return True"
  by (simp_all add: is_task_source_def suffix_glob_def go_task_def zero_task_def suffix_def)

theorem task_skipped_iff_witness:
  "fst (maybe_run suffix_glob go_task 0 True ((fst (cache_start (demo_codec ''78'') demo_repo (Some ''s'')
     (new_cache\<lparr>ch_all_dirty := False\<rparr>)))\<lparr>ch_ran_once := {1}\<rparr>)) = Return False"
proof -
  note facts = demo_taken [unfolded demo_repo_def] demo_changed [unfolded demo_repo_def]
  show ?thesis
    unfolding demo_repo_def task_skipped_iff
    by (simp add: snapshot_read_def demo_codec_def facts)
      (simp add: demo_snapshot_def demo_diff demo_sources hash_for_def)
qed

theorem unchanged_repository_dirt_witness:
  "\<exists>ch content'. cache_start (demo_codec ''78'') demo_repo
      (snd (cache_finish (demo_codec ''78'') demo_repo None None)) new_cache = (ch, content') \<and>
    \<not> ch_all_dirty ch \<and> ch_dirty_files ch = ['''']"
proof -
  have "git_diff demo_sh (sn_commit (demo_snapshot ''78'')) = Inr ['''']"
    by (simp add: demo_snapshot_def demo_diff)
  from unchanged_repository_dirt [OF demo_taken [unfolded demo_repo_def] _ demo_status this,
      where j = "demo_codec ''78''" and b = "''s''" and content = None]
  show ?thesis by (simp add: demo_codec_def demo_repo_def)
qed

text \<open>
  A task can be skipped although one of its sources changed: both files have changed since the
  snapshot, \<open>Diff\<close> reports the last one only, and a task whose source is the first one is not
  run.
\<close>

lemma changed_source_skipped:
  "''a.go'' \<in> set (changed_files demo_repo (demo_snapshot ''1'') (demo_snapshot ''78'')) \<and>
   is_task_source suffix_glob go_task ''a.go'' = Return True \<and>
   fst (maybe_run suffix_glob go_task 0 True (fst (cache_start (demo_codec ''1'') demo_repo (Some ''s'') new_cache))) =
     Return False"
proof -
  have "sr_diff demo_repo (sn_commit (demo_snapshot ''1'')) = Inr ['''']"
    using demo_diff by (simp add: demo_repo_def new_snapshotter_def demo_snapshot_def)
  from snapshot_diff_exact [OF demo_taken this] new_snapshotter_hashes
  have "snapshot_diff demo_repo (demo_snapshot ''1'') = Inr ['''', ''b.txt'']"
    by (simp add: demo_repo_def demo_changed [unfolded demo_repo_def])
  then have "fst (cache_start (demo_codec ''1'') demo_repo (Some ''s'') new_cache) =
      new_cache\<lparr>ch_dirty_files := ['''', ''b.txt'']\<rparr>"
    by (simp add: cache_start_def snapshot_read_def demo_codec_def)
  then show ?thesis
    by (simp add: demo_changed demo_sources maybe_run_skips new_cache_def)
qed

end
