(* ===== verification/CliReporter.thy ===== *)
theory CliReporter
  imports Events "HOL-Library.Word"
begin

unbundle bit_operations_syntax

text \<open>
  Package \<open>clireporter\<close>: the writer that prefixes every line with the name of its task, the
  line buffer in front of it (\<open>bufio.Writer\<close> with its buffer of 4096 bytes).
  The colouring of a prefix (package color) and the re-indentation of JSON are the parameters
  \<open>paint\<close> and \<open>pretty\<close>; the writer below never fails.
\<close>

section \<open>Prefixes\<close>

definition fnv32a :: "string \<Rightarrow> 32 word" where
  "fnv32a s = fold (\<lambda>c h. (h XOR of_nat (of_char c)) * 16777619) s 2166136261"

definition prefix_color :: "string \<Rightarrow> nat" where
  "prefix_color s = [32, 33, 34, 35, 36] ! (unat (fnv32a s) mod 5)"

definition left_pad :: "string \<Rightarrow> int \<Rightarrow> string" where
  "left_pad s l = (let padding = l - int (length s) in
     replicate (nat (if padding < 0 then 0 else padding)) (CHR '' '') @ s)"

text \<open>\<open>strings.Replace\<close> of a pattern of two bytes.\<close>

fun replace_pair :: "char \<Rightarrow> char \<Rightarrow> string \<Rightarrow> string \<Rightarrow> string" where
  "replace_pair x y new (a # b # s) =
     (if a = x \<and> b = y then new @ replace_pair x y new s else a # replace_pair x y new (b # s))"
| "replace_pair x y new s = s"

record prefixed_writer =
  pw_prefix :: string
  pw_padding :: int
  pw_separator :: string

definition unescape :: "string \<Rightarrow> string" where
  "unescape p =
     replace_pair (CHR 0x5C) (CHR ''t'') ''  ''
       (replace_pair (CHR 0x5C) (CHR ''n'') [newline] (trim_right_by (\<lambda>c. c = newline) p))"

definition line_prefix :: "(nat \<Rightarrow> string \<Rightarrow> string) \<Rightarrow> prefixed_writer \<Rightarrow> string" where
  "line_prefix paint w =
     paint (prefix_color (pw_prefix w)) (left_pad (pw_prefix w) (pw_padding w)) @ '' '' @
     (if pw_separator w = '''' then ''>'' else pw_separator w)"

text \<open>\<open>PrefixedWriter.Write\<close>: the text it writes, and the number it returns.\<close>

definition prefixed_text :: "(nat \<Rightarrow> string \<Rightarrow> string) \<Rightarrow> prefixed_writer \<Rightarrow> string \<Rightarrow> string" where
  "prefixed_text paint w p =
     join_with [newline] (map (\<lambda>line. line_prefix paint w @ '' '' @ line) (split_on newline (unescape p)))
       @ [newline]"

definition prefixed_write ::
  "(nat \<Rightarrow> string \<Rightarrow> string) \<Rightarrow> (string \<Rightarrow> string option) \<Rightarrow> prefixed_writer \<Rightarrow> string \<Rightarrow> nat \<times> string" where
  "prefixed_write paint pretty w p =
     (let p' = (case pretty p of Some data \<Rightarrow> data | None \<Rightarrow> p) in
      (length p', prefixed_text paint w p'))"

section \<open>The line buffer\<close>

text \<open>
  \<open>bufio.Writer\<close>: its buffer, whether an error is stored, and what was written below it.
  \<open>Flush\<close> takes a short count for an error, which stays.
\<close>

record buffered =
  bf_buffer :: string
  bf_failed :: bool
  bf_out :: string

definition buffer_size :: nat where
  "buffer_size = 4096"

definition buf_flush :: "(string \<Rightarrow> nat \<times> string) \<Rightarrow> buffered \<Rightarrow> buffered" where
  "buf_flush write b =
     (if bf_failed b \<or> bf_buffer b = '''' then b
      else
        (let (n, text) = write (bf_buffer b) in
         if n < length (bf_buffer b)
         then b\<lparr>bf_buffer := drop n (bf_buffer b), bf_failed := True, bf_out := bf_out b @ text\<rparr>
         else b\<lparr>bf_buffer := '''', bf_out := bf_out b @ text\<rparr>))"

definition buf_write_byte :: "(string \<Rightarrow> nat \<times> string) \<Rightarrow> char \<Rightarrow> buffered \<Rightarrow> buffered" where
  "buf_write_byte write c b =
     (if bf_failed b then b
      else
        (let b1 = (if buffer_size \<le> length (bf_buffer b) then buf_flush write b else b) in
         if bf_failed b1 then b1 else b1\<lparr>bf_buffer := bf_buffer b1 @ [c]\<rparr>))"

text \<open>
  \<open>LineBufferedWriter.Write\<close>: the number of bytes taken and the writer afterwards; it stops
  at a byte that is refused.
\<close>

fun line_write :: "(string \<Rightarrow> nat \<times> string) \<Rightarrow> string \<Rightarrow> buffered \<Rightarrow> nat \<times> buffered" where
  "line_write write [] b = (0, b)"
| "line_write write (c # cs) b =
     (let b1 = buf_write_byte write c b in
      if bf_failed b1 then (0, b1)
      else
        (let b2 = (if c = newline then buf_flush write b1 else b1);
             (n, b3) = line_write write cs b2 in (Suc n, b3)))"

section \<open>Output arrives by lines\<close>

text \<open>The complete lines of a text, with their newlines, and the rest.\<close>

fun complete_lines :: "string \<Rightarrow> string \<Rightarrow> string list \<times> string" where
  "complete_lines acc [] = ([], acc)"
| "complete_lines acc (c # cs) =
     (if c = newline then (let (ls, r) = complete_lines '''' cs in ((acc @ [c]) # ls, r))
      else complete_lines (acc @ [c]) cs)"

lemma complete_lines_acc:
  "\<exists>x \<in> insert (snd (complete_lines acc s)) (set (fst (complete_lines acc s))). length acc \<le> length x"
proof (induction acc s rule: complete_lines.induct)
  case (1 acc)
  then show ?case by simp
next
  case (2 acc c cs)
  then show ?case by (cases "c = newline") (fastforce simp: case_prod_beta)+
qed

lemma complete_lines_room:
  assumes "\<forall>l \<in> set (fst (complete_lines acc (c # cs))). length l \<le> k"
    and "length (snd (complete_lines acc (c # cs))) \<le> k"
  shows "length acc < k"
proof (cases "c = newline")
  case True
  with assms(1) show ?thesis by (simp add: case_prod_beta)
next
  case False
  with assms complete_lines_acc [of "acc @ [c]" cs] show ?thesis by auto
qed

definition takes_all :: "(string \<Rightarrow> nat \<times> string) \<Rightarrow> string list \<Rightarrow> bool" where
  "takes_all write ls \<longleftrightarrow> (\<forall>l \<in> set ls. length l \<le> fst (write l) \<and> length l \<le> buffer_size)"

lemma line_write_lines:
  "\<not> bf_failed b \<Longrightarrow> takes_all write (fst (complete_lines (bf_buffer b) s)) \<Longrightarrow>
    length (snd (complete_lines (bf_buffer b) s)) \<le> buffer_size \<Longrightarrow>
    line_write write s b = (length s,
      b\<lparr>bf_buffer := snd (complete_lines (bf_buffer b) s),
        bf_out := bf_out b @ concat (map (\<lambda>l. snd (write l)) (fst (complete_lines (bf_buffer b) s)))\<rparr>)"
proof (induction s arbitrary: b)
  case Nil
  then show ?case by simp
next
  case (Cons c cs)
  let ?acc = "bf_buffer b @ [c]"
  have "length (bf_buffer b) < buffer_size"
    using complete_lines_room Cons.prems(2,3) unfolding takes_all_def by blast
  with Cons.prems(1) have b1: "buf_write_byte write c b = b\<lparr>bf_buffer := ?acc\<rparr>"
    by (simp add: buf_write_byte_def)
  show ?case
  proof (cases "c = newline")
    case True
    let ?b2 = "b\<lparr>bf_buffer := '''', bf_out := bf_out b @ snd (write ?acc)\<rparr>"
    have "length ?acc \<le> fst (write ?acc)"
      using Cons.prems(2) True by (simp add: takes_all_def case_prod_beta)
    then have "buf_flush write (b\<lparr>bf_buffer := ?acc\<rparr>) = ?b2"
      using Cons.prems(1) by (simp add: buf_flush_def case_prod_beta)
    moreover have "line_write write cs ?b2 = (length cs,
        ?b2\<lparr>bf_buffer := snd (complete_lines '''' cs),
          bf_out := bf_out ?b2 @ concat (map (\<lambda>l. snd (write l)) (fst (complete_lines '''' cs)))\<rparr>)"
      using Cons.IH [of ?b2] Cons.prems True by (simp add: takes_all_def case_prod_beta)
    ultimately show ?thesis using b1 True Cons.prems(1) by (simp add: case_prod_beta)
  next
    case False
    with b1 Cons.IH [of "b\<lparr>bf_buffer := ?acc\<rparr>"] Cons.prems show ?thesis by simp
  qed
qed

lemma complete_lines_append:
  "complete_lines acc (s @ t) =
     (fst (complete_lines acc s) @ fst (complete_lines (snd (complete_lines acc s)) t),
      snd (complete_lines (snd (complete_lines acc s)) t))"
  by (induction acc s rule: complete_lines.induct) (auto simp: case_prod_beta)

lemma complete_lines_concat: "concat (fst (complete_lines acc s)) @ snd (complete_lines acc s) = acc @ s"
  by (induction acc s rule: complete_lines.induct) (auto simp: case_prod_beta)

lemma complete_lines_rest: "newline \<notin> set s \<Longrightarrow> complete_lines acc s = ([], acc @ s)"
  by (induction acc s rule: complete_lines.induct) auto

lemma complete_lines_one: "newline \<notin> set s \<Longrightarrow> complete_lines acc (s @ newline # t) =
    ((acc @ s @ [newline]) # fst (complete_lines [] t), snd (complete_lines [] t))"
  by (simp add: complete_lines_append complete_lines_rest case_prod_beta)

text \<open>Without escapes and JSON, the text of a line is the line behind its prefix.\<close>

lemma replace_pair_id: "x \<notin> set s \<Longrightarrow> replace_pair x y new s = s"
  by (induction x y new s rule: replace_pair.induct) auto

lemma prefixed_text_line:
  assumes "newline \<notin> set l" and "CHR 0x5C \<notin> set l"
  shows "prefixed_text paint w (l @ [newline]) = line_prefix paint w @ '' '' @ l @ [newline]"
proof -
  have "trim_right_by (\<lambda>c. c = newline) l = l"
  proof (cases l rule: rev_cases)
    case (snoc xs x)
    with assms(1) show ?thesis by (auto simp: trim_right_by_def)
  qed (simp add: trim_right_by_def)
  then have "trim_right_by (\<lambda>c. c = newline) (l @ [newline]) = l"
    by (simp add: trim_right_by_def)
  then have "unescape (l @ [newline]) = l"
    using assms by (simp add: unescape_def replace_pair_id)
  with assms show ?thesis by (simp add: prefixed_text_def split_on_no_sep)
qed

fun write_all :: "(string \<Rightarrow> nat \<times> string) \<Rightarrow> string list \<Rightarrow> buffered \<Rightarrow> buffered" where
  "write_all write [] b = b"
| "write_all write (m # ms) b = write_all write ms (snd (line_write write m b))"

definition empty_buffer :: buffered where
  "empty_buffer = \<lparr>bf_buffer = '''', bf_failed = False, bf_out = ''''\<rparr>"

lemma write_all_lines:
  "\<not> bf_failed b \<Longrightarrow> takes_all write (fst (complete_lines (bf_buffer b) (concat ms))) \<Longrightarrow>
    length (snd (complete_lines (bf_buffer b) (concat ms))) \<le> buffer_size \<Longrightarrow>
    write_all write ms b =
      b\<lparr>bf_buffer := snd (complete_lines (bf_buffer b) (concat ms)),
        bf_out := bf_out b @
          concat (map (\<lambda>l. snd (write l)) (fst (complete_lines (bf_buffer b) (concat ms))))\<rparr>"
proof (induction ms arbitrary: b)
  case Nil
  then show ?case by simp
next
  case (Cons m ms)
  let ?r = "snd (complete_lines (bf_buffer b) m)"
  have both: "takes_all write (fst (complete_lines (bf_buffer b) m))"
    "takes_all write (fst (complete_lines ?r (concat ms)))"
    "length (snd (complete_lines ?r (concat ms))) \<le> buffer_size"
    using Cons.prems(2,3) by (auto simp: takes_all_def complete_lines_append)
  then have "length ?r \<le> buffer_size"
    using complete_lines_acc [of ?r "concat ms"] by (fastforce simp: takes_all_def)
  from line_write_lines [OF Cons.prems(1) both(1) this] both(2,3) Cons.prems(1)
    Cons.IH [of "snd (line_write write m b)"]
  show ?case by (simp add: complete_lines_append)
qed

text \<open>
  The output of a task arrives by lines: however a task cuts its output into writes, what
  is printed is every complete line behind the prefix of its task, in order, once, and what
  remains is the unfinished line; this for lines of at most 4096 bytes without backslashes
  that are not JSON.
\<close>

lemma log_lines_intact:
  assumes "concat (map (\<lambda>l. l @ [newline]) ls) @ rest = concat msgs"
    and "newline \<notin> set rest" and "length rest \<le> buffer_size"
    and "\<forall>l \<in> set ls. newline \<notin> set l \<and> CHR 0x5C \<notin> set l \<and> length l < buffer_size \<and>
      pretty (l @ [newline]) = None"
  shows "write_all (prefixed_write paint pretty w) msgs empty_buffer =
    \<lparr>bf_buffer = rest, bf_failed = False,
     bf_out = concat (map (\<lambda>l. line_prefix paint w @ '' '' @ l @ [newline]) ls)\<rparr>"
proof -
  have lines: "complete_lines '''' (concat msgs) = (map (\<lambda>l. l @ [newline]) ls, rest)"
    unfolding assms(1) [symmetric] using assms(2,4)
    by (induction ls) (simp_all add: complete_lines_rest complete_lines_one complete_lines_append)
  have "takes_all (prefixed_write paint pretty w) (map (\<lambda>l. l @ [newline]) ls)"
    using assms(4) by (auto simp: takes_all_def prefixed_write_def)
  moreover have "concat (map (\<lambda>l. snd (prefixed_write paint pretty w (l @ [newline]))) ls) =
      concat (map (\<lambda>l. line_prefix paint w @ '' '' @ l @ [newline]) ls)"
    using assms(4) by (intro arg_cong [where f = concat] map_cong)
      (auto simp: prefixed_write_def prefixed_text_line)
  ultimately show ?thesis
    using write_all_lines [of empty_buffer "prefixed_write paint pretty w" msgs] assms(3) lines
    by (simp add: empty_buffer_def o_def)
qed

definition demo_writer :: prefixed_writer where
  "demo_writer = \<lparr>pw_prefix = ''go'', pw_padding = 4, pw_separator = ''|''\<rparr>"

lemma log_lines_intact_example:
  "write_all (prefixed_write (\<lambda>c s. s) (\<lambda>_. None) demo_writer) [''he'', ''llo'' @ [newline] @ ''w''] empty_buffer =
     \<lparr>bf_buffer = ''w'', bf_failed = False, bf_out = ''  go | hello'' @ [newline]\<rparr>"
  using log_lines_intact [of "[''hello'']" "''w''" "[''he'', ''llo'' @ [newline] @ ''w'']"
      "\<lambda>_. None" "\<lambda>c s. s" demo_writer]
  by (simp add: buffer_size_def line_prefix_def demo_writer_def left_pad_def numeral_2_eq_2)

lemma line_write_part:
  "\<not> bf_failed b \<Longrightarrow> newline \<notin> set s \<Longrightarrow> length (bf_buffer b) + length s \<le> buffer_size \<Longrightarrow>
     line_write write (s @ t) b =
       (let (n, b') = line_write write t (b\<lparr>bf_buffer := bf_buffer b @ s\<rparr>) in (length s + n, b'))"
  by (induction s arbitrary: b) (auto simp: buf_write_byte_def case_prod_beta Let_def)

lemma line_write_failed: "bf_failed b \<Longrightarrow> snd (line_write write s b) = b"
  by (cases s) (simp_all add: buf_write_byte_def)

lemma write_all_failed: "bf_failed b \<Longrightarrow> write_all write ms b = b"
  by (induction ms) (simp_all add: line_write_failed)

text \<open>
  A line of JSON can end the log of a task: when a line re-indents to a shorter text, as
  every number, string or empty object does by its newline, the returned count is short, the
  line buffer fails, and nothing that the task writes afterwards is ever printed.
\<close>

lemma json_line_ends_log:
  assumes "\<not> bf_failed b" and "bf_buffer b = ''''" and "newline \<notin> set l"
    and "length l < buffer_size" and "pretty (l @ [newline]) = Some data"
    and "length data \<le> length l"
  shows "bf_out (write_all (prefixed_write paint pretty w) ((l @ [newline]) # msgs) b) =
    bf_out b @ prefixed_text paint w data"
proof -
  let ?w = "prefixed_write paint pretty w"
  let ?b = "b\<lparr>bf_buffer := l @ [newline]\<rparr>"
  have "buf_flush ?w ?b = ?b\<lparr>bf_buffer := drop (length data) (l @ [newline]), bf_failed := True,
      bf_out := bf_out b @ prefixed_text paint w data\<rparr>"
    using assms by (simp add: buf_flush_def prefixed_write_def)
  moreover have "buf_write_byte ?w newline (b\<lparr>bf_buffer := l\<rparr>) = ?b"
    using assms by (simp add: buf_write_byte_def)
  ultimately have "bf_failed (snd (line_write ?w (l @ [newline]) b)) \<and>
      bf_out (snd (line_write ?w (l @ [newline]) b)) = bf_out b @ prefixed_text paint w data"
    using line_write_part [of b l ?w "[newline]"] assms by (simp add: case_prod_beta)
  then show ?thesis using write_all_failed by simp
qed

lemma json_line_ends_log_example:
  "bf_out (write_all (prefixed_write (\<lambda>c s. s) (\<lambda>p. if p = ''42'' @ [newline] then Some ''42'' else None)
     demo_writer) [''42'' @ [newline], ''lost'' @ [newline]] empty_buffer) =
   prefixed_text (\<lambda>c s. s) demo_writer ''42''"
  using json_line_ends_log [of empty_buffer "''42''"
      "\<lambda>p. if p = ''42'' @ [newline] then Some ''42'' else None" "''42''" "\<lambda>c s. s" demo_writer
      "[''lost'' @ [newline]]"]
  by (simp add: buffer_size_def empty_buffer_def)

end
