(* ===== verification/CliLog.thy ===== *)
theory CliLog
  imports CliReporter
begin

text \<open>
  Package \<open>clireporter\<close>: the logger, which has a writer for every task and one output that
  they share, and the loop over the executor's events that writes to it.
\<close>

section \<open>The logger\<close>

text \<open>
  The writers are buffers in front of the same output: the text below a buffer, \<open>bf_out\<close>, is
  set from and back to the logger's output around a call of its \<open>Write\<close>.
\<close>

record cli_logger =
  cl_w :: string
  cl_writers :: "tid \<rightharpoonup> prefixed_writer \<times> buffered"
  cl_separator :: string
  cl_padding :: int

definition default_padding :: int where
  "default_padding = 16"

definition new_logger :: "string \<Rightarrow> cli_logger" where
  "new_logger w = \<lparr>cl_w = w, cl_writers = Map.empty, cl_separator = '''', cl_padding = default_padding\<rparr>"

definition set_separator :: "string \<Rightarrow> cli_logger \<Rightarrow> cli_logger" where
  "set_separator separator l = l\<lparr>cl_separator := separator\<rparr>"

text \<open>\<open>logger.Write\<close> of a task that is not registered is a call on a nil interface.\<close>

definition logger_write ::
  "(nat \<Rightarrow> string \<Rightarrow> string) \<Rightarrow> (string \<Rightarrow> string option) \<Rightarrow> tid \<Rightarrow> string \<Rightarrow> cli_logger \<Rightarrow> cli_logger outcome" where
  "logger_write paint pretty t msg l =
     (case cl_writers l t of
        None \<Rightarrow> Panics ''nil pointer dereference''
      | Some (w, b) \<Rightarrow>
          (let b' = snd (line_write (prefixed_write paint pretty w) msg (b\<lparr>bf_out := cl_w l\<rparr>)) in
           Return (l\<lparr>cl_w := bf_out b', cl_writers := (cl_writers l)(t \<mapsto> (w, b'))\<rparr>)))"

definition longest_name :: "(tid \<Rightarrow> 'w task) \<Rightarrow> tid list \<Rightarrow> nat" where
  "longest_name g tasks =
     fold (\<lambda>t m. if m < length (t_name (g t)) then length (t_name (g t)) else m) tasks 0"

definition task_writer :: "(tid \<Rightarrow> 'w task) \<Rightarrow> tid list \<Rightarrow> string \<Rightarrow> tid \<Rightarrow> prefixed_writer" where
  "task_writer g tasks separator t =
     \<lparr>pw_prefix = t_name (g t), pw_padding = int (longest_name g tasks), pw_separator = separator\<rparr>"

definition register_tasks :: "(tid \<Rightarrow> 'w task) \<Rightarrow> tid list \<Rightarrow> cli_logger \<Rightarrow> cli_logger" where
  "register_tasks g tasks l =
     l\<lparr>cl_writers := fold (\<lambda>t ws. ws(t \<mapsto> (task_writer g tasks (cl_separator l) t, empty_buffer)))
         tasks (cl_writers l)\<rparr>"

section \<open>The options\<close>

text \<open>
  The runtime options: \<open>mkdir\<close> and \<open>open_file\<close> are the file system's, which gives the contents
  that the text is appended to; \<open>log.Fatal\<close> ends the program with the error.
\<close>

definition stdout_logger :: "string \<Rightarrow> cli_logger" where
  "stdout_logger stdout = new_logger stdout"

definition file_logger ::
  "(string \<Rightarrow> go_error option) \<Rightarrow> (string \<Rightarrow> go_error + string) \<Rightarrow> string \<Rightarrow> go_error + cli_logger" where
  "file_logger mkdir open_file path =
     (case mkdir ''./trlogs'' of
        Some err \<Rightarrow> Inl err
      | None \<Rightarrow>
          (case open_file path of
             Inl err \<Rightarrow> Inl err
           | Inr text \<Rightarrow> Inr (set_separator ''|'' (new_logger text))))"

definition append_path :: string where
  "append_path = ''./trlogs/taskrunner.log''"

definition date_path :: "string \<Rightarrow> string" where
  "date_path now = ''./trlogs/'' @ ''taskrunner'' @ ''-'' @ now @ ''.log''"

definition file_append_logger ::
  "(string \<Rightarrow> go_error option) \<Rightarrow> (string \<Rightarrow> go_error + string) \<Rightarrow> go_error + cli_logger" where
  "file_append_logger mkdir open_file = file_logger mkdir open_file append_path"

definition file_by_date_logger ::
  "(string \<Rightarrow> go_error option) \<Rightarrow> (string \<Rightarrow> go_error + string) \<Rightarrow> string \<Rightarrow> go_error + cli_logger" where
  "file_by_date_logger mkdir open_file now = file_logger mkdir open_file (date_path now)"

section \<open>The loop over the events\<close>

text \<open>The start hook registers the executor's tasks, whose handlers are ranged over in the order \<open>ord\<close>.\<close>

definition cli_on_start :: "(tid \<Rightarrow> 'w task) \<Rightarrow> tid list \<Rightarrow> cli_logger \<Rightarrow> cli_logger" where
  "cli_on_start g ord l = register_tasks g (executor_tasks g ord) l"

text \<open>An event's messages are written to the writer of its task, one after the other.\<close>

fun write_messages ::
  "(nat \<Rightarrow> string \<Rightarrow> string) \<Rightarrow> (string \<Rightarrow> string option) \<Rightarrow> (tid \<times> string) list \<Rightarrow> cli_logger \<Rightarrow>
   cli_logger outcome" where
  "write_messages paint pretty [] l = Return l"
| "write_messages paint pretty ((t, m) # ms) l =
     bind_outcome (logger_write paint pretty t m l) (write_messages paint pretty ms)"

definition event_writes ::
  "(nat \<Rightarrow> string) \<Rightarrow> (tid \<Rightarrow> 'w task) \<Rightarrow> executor_event \<Rightarrow> (tid \<times> string) list" where
  "event_writes secs g ev =
     (case event_task ev of None \<Rightarrow> [] | Some t \<Rightarrow> map (Pair t) (cli_messages secs g ev))"

fun report_events ::
  "(nat \<Rightarrow> string \<Rightarrow> string) \<Rightarrow> (string \<Rightarrow> string option) \<Rightarrow> (nat \<Rightarrow> string) \<Rightarrow> (tid \<Rightarrow> 'w task) \<Rightarrow>
   executor_event list \<Rightarrow> cli_logger \<Rightarrow> cli_logger outcome" where
  "report_events paint pretty secs g [] l = Return l"
| "report_events paint pretty secs g (ev # evs) l =
     bind_outcome (write_messages paint pretty (event_writes secs g ev) l)
       (report_events paint pretty secs g evs)"

section \<open>The log\<close>

text \<open>
  What the output should hold: the lines that writes complete, each with its task, given the
  unfinished line of every task.
\<close>

fun log_lines :: "(tid \<Rightarrow> string) \<Rightarrow> (tid \<times> string) list \<Rightarrow> (tid \<times> string) list" where
  "log_lines rest [] = []"
| "log_lines rest ((t, m) # ms) =
     (let (ls, r) = complete_lines (rest t) m in map (Pair t) ls @ log_lines (rest(t := r)) ms)"

definition text_of :: "tid \<Rightarrow> (tid \<times> string) list \<Rightarrow> string" where
  "text_of t ms = concat (map snd (filter (\<lambda>x. fst x = t) ms))"

lemma text_of_Cons [simp]:
  "text_of t ((u, m) # ms) = (if u = t then m @ text_of t ms else text_of t ms)"
  by (simp add: text_of_def)

lemma text_of_Nil [simp]: "text_of t [] = ''''"
  by (simp add: text_of_def)

text \<open>The lines of a task in the log are the complete lines of its text.\<close>

definition lines_of :: "tid \<Rightarrow> (tid \<times> string) list \<Rightarrow> string list" where
  "lines_of t log = map snd (filter (\<lambda>x. fst x = t) log)"

lemma lines_of_append [simp]: "lines_of t (xs @ ys) = lines_of t xs @ lines_of t ys"
  by (simp add: lines_of_def)

lemma lines_of_pairs [simp]: "lines_of t (map (Pair u) ls) = (if u = t then ls else [])"
  by (induction ls) (auto simp: lines_of_def)

lemma log_lines_of_task:
  "lines_of t (log_lines rest ms) = fst (complete_lines (rest t) (text_of t ms))"
proof (induction ms arbitrary: rest)
  case Nil
  then show ?case by (simp add: lines_of_def)
next
  case (Cons x ms)
  obtain u m where "x = (u, m)" by (cases x)
  with Cons [of "rest(u := snd (complete_lines (rest u) m))"] show ?case
    by (cases "u = t") (simp_all add: case_prod_beta complete_lines_append fun_upd_def)
qed

text \<open>A text whose lines are printed as they are: no escapes, no JSON, no overlong line.\<close>

definition printable :: "(string \<Rightarrow> string option) \<Rightarrow> string \<Rightarrow> bool" where
  "printable pretty l \<longleftrightarrow> CHR 0x5C \<notin> set l \<and> length l \<le> buffer_size \<and> pretty l = None"

definition plain_text :: "(string \<Rightarrow> string option) \<Rightarrow> string \<Rightarrow> string \<Rightarrow> bool" where
  "plain_text pretty acc s \<longleftrightarrow> (\<forall>l \<in> set (fst (complete_lines acc s)). printable pretty l) \<and>
     length (snd (complete_lines acc s)) \<le> buffer_size"

definition printed_line :: "(nat \<Rightarrow> string \<Rightarrow> string) \<Rightarrow> (tid \<Rightarrow> prefixed_writer) \<Rightarrow> tid \<times> string \<Rightarrow> string" where
  "printed_line paint w x = line_prefix paint (w (fst x)) @ '' '' @ snd x"

lemma complete_lines_shape:
  "newline \<notin> set acc \<Longrightarrow> l \<in> set (fst (complete_lines acc s)) \<Longrightarrow> \<exists>k. newline \<notin> set k \<and> l = k @ [newline]"
  by (induction acc s rule: complete_lines.induct) (auto simp: case_prod_beta split: if_splits)

lemma complete_lines_rest_plain:
  "newline \<notin> set acc \<Longrightarrow> newline \<notin> set (snd (complete_lines acc s))"
  by (induction acc s rule: complete_lines.induct) (auto simp: case_prod_beta)

text \<open>One write, on plain text.\<close>

lemma line_write_plain:
  assumes "\<not> bf_failed b" and "newline \<notin> set (bf_buffer b)" and "plain_text pretty (bf_buffer b) m"
  shows "snd (line_write (prefixed_write paint pretty w) m b) =
    b\<lparr>bf_buffer := snd (complete_lines (bf_buffer b) m),
      bf_out := bf_out b @ concat (map (\<lambda>l. line_prefix paint w @ '' '' @ l) (fst (complete_lines (bf_buffer b) m)))\<rparr>"
proof -
  let ?ls = "fst (complete_lines (bf_buffer b) m)"
  have line: "prefixed_write paint pretty w l = (length l, line_prefix paint w @ '' '' @ l)"
    if l: "l \<in> set ?ls" for l
  proof -
    obtain k where "newline \<notin> set k" "l = k @ [newline]"
      using complete_lines_shape [OF assms(2) l] by blast
    moreover have "printable pretty l" using assms(3) l by (simp add: plain_text_def)
    ultimately show ?thesis by (simp add: prefixed_write_def printable_def prefixed_text_line)
  qed
  then have "takes_all (prefixed_write paint pretty w) ?ls"
    using assms(3) by (simp add: takes_all_def plain_text_def printable_def)
  moreover have "map (\<lambda>l. snd (prefixed_write paint pretty w l)) ?ls =
      map (\<lambda>l. line_prefix paint w @ '' '' @ l) ?ls"
    using line by simp
  ultimately show ?thesis
    using line_write_lines [OF assms(1), of "prefixed_write paint pretty w" m] assms(3)
    by (simp add: plain_text_def cong: map_cong)
qed

text \<open>The writers of the logger are those of the tasks, with their unfinished lines.\<close>

definition holds_rest :: "tid set \<Rightarrow> (tid \<Rightarrow> prefixed_writer) \<Rightarrow> (tid \<Rightarrow> string) \<Rightarrow> cli_logger \<Rightarrow> bool" where
  "holds_rest T w rest l \<longleftrightarrow> (\<forall>t \<in> T. newline \<notin> set (rest t) \<and>
     (\<exists>b. cl_writers l t = Some (w t, b) \<and> \<not> bf_failed b \<and> bf_buffer b = rest t))"

lemma plain_text_append:
  "plain_text pretty acc (m @ s) \<longleftrightarrow>
     plain_text pretty acc m \<and> plain_text pretty (snd (complete_lines acc m)) s"
proof -
  let ?r = "snd (complete_lines acc m)"
  have "length ?r \<le> buffer_size" if "plain_text pretty ?r s"
    using that complete_lines_acc [of ?r s] le_trans unfolding plain_text_def printable_def
    by auto
  then show ?thesis by (auto simp: plain_text_def complete_lines_append)
qed

lemma write_messages_log:
  assumes "holds_rest T w rest l" and "fst ` set ms \<subseteq> T"
    and "\<forall>t \<in> T. plain_text pretty (rest t) (text_of t ms)"
  shows "\<exists>l'. write_messages paint pretty ms l = Return l' \<and>
    cl_w l' = cl_w l @ concat (map (printed_line paint w) (log_lines rest ms))"
  using assms
proof (induction ms arbitrary: rest l)
  case Nil
  then show ?case by simp
next
  case (Cons x ms)
  obtain t m where x: "x = (t, m)" by (cases x)
  let ?ls = "fst (complete_lines (rest t) m)" and ?r = "snd (complete_lines (rest t) m)"
  have t: "t \<in> T" using Cons.prems(2) x by simp
  then obtain b where b: "cl_writers l t = Some (w t, b)" "\<not> bf_failed b" "bf_buffer b = rest t"
    and rest: "newline \<notin> set (rest t)"
    using Cons.prems(1) by (auto simp: holds_rest_def)
  have plain: "plain_text pretty (rest t) m" "plain_text pretty ?r (text_of t ms)"
    using Cons.prems(3) t x by (auto simp: plain_text_append)
  let ?b = "snd (line_write (prefixed_write paint pretty (w t)) m (b\<lparr>bf_out := cl_w l\<rparr>))"
  let ?l = "l\<lparr>cl_w := bf_out ?b, cl_writers := (cl_writers l)(t \<mapsto> (w t, ?b))\<rparr>"
  have out: "?b = b\<lparr>bf_buffer := ?r,
      bf_out := cl_w l @ concat (map (printed_line paint w) (map (Pair t) ?ls))\<rparr>"
    using line_write_plain [of "b\<lparr>bf_out := cl_w l\<rparr>" pretty m paint "w t"] b rest plain(1)
    by (simp add: printed_line_def o_def)
  have "holds_rest T w (rest(t := ?r)) ?l"
    using Cons.prems(1) b(2) out complete_lines_rest_plain [OF rest] by (simp add: holds_rest_def)
  moreover have "fst ` set ms \<subseteq> T" using Cons.prems(2) by simp
  moreover have "\<forall>u \<in> T. plain_text pretty ((rest(t := ?r)) u) (text_of u ms)"
    using Cons.prems(3) x plain(2) by auto
  ultimately obtain l' where l': "write_messages paint pretty ms ?l = Return l'"
    "cl_w l' = cl_w ?l @ concat (map (printed_line paint w) (log_lines (rest(t := ?r)) ms))"
    using Cons.IH by blast
  have "logger_write paint pretty t m l = Return ?l"
    using b(1) by (simp add: logger_write_def Let_def)
  with x l'(1) have "write_messages paint pretty (x # ms) l = Return l'" by simp
  moreover have "cl_w l' = cl_w l @ concat (map (printed_line paint w) (log_lines rest (x # ms)))"
    using x l'(2) out by (simp add: case_prod_beta)
  ultimately show ?case by blast
qed

section \<open>What the reporter prints\<close>

lemma write_messages_append:
  "write_messages paint pretty (ms @ ms') l =
     bind_outcome (write_messages paint pretty ms l) (write_messages paint pretty ms')"
proof (induction ms arbitrary: l)
  case Nil
  then show ?case by simp
next
  case (Cons x ms)
  then show ?case by (cases x; cases "logger_write paint pretty (fst x) (snd x) l") simp_all
qed

abbreviation all_writes :: "(nat \<Rightarrow> string) \<Rightarrow> (tid \<Rightarrow> 'w task) \<Rightarrow> executor_event list \<Rightarrow> (tid \<times> string) list" where
  "all_writes secs g evs \<equiv> concat (map (event_writes secs g) evs)"

lemma report_events_writes:
  "report_events paint pretty secs g evs = write_messages paint pretty (all_writes secs g evs)"
proof (induction evs)
  case Nil
  show ?case by (simp add: fun_eq_iff)
next
  case (Cons ev evs)
  then show ?case by (intro ext) (simp add: write_messages_append)
qed

lemma all_writes_tasks: "fst ` set (all_writes secs g evs) \<subseteq> {t. \<exists>ev \<in> set evs. event_task ev = Some t}"
  by (auto simp: event_writes_def split: option.splits)

lemma registered_rest:
  "holds_rest (set tasks) (task_writer g tasks (cl_separator l)) (\<lambda>_. '''') (register_tasks g tasks l)"
proof -
  have "fold (\<lambda>t ws. ws(t \<mapsto> (f t, empty_buffer))) ts ws u =
      (if u \<in> set ts then Some (f u, empty_buffer) else ws u)" for f ts ws u
    by (induction ts arbitrary: ws) auto
  from this [of "task_writer g tasks (cl_separator l)" tasks "cl_writers l"]
  have "cl_writers (register_tasks g tasks l) u =
      Some (task_writer g tasks (cl_separator l) u, empty_buffer)" if "u \<in> set tasks" for u
    using that by (simp add: register_tasks_def)
  then show ?thesis by (simp add: holds_rest_def empty_buffer_def)
qed

text \<open>
  C39. The log of a run, for events of registered tasks whose lines have no backslash, are not
  JSON and are at most 4096 bytes long: however a task cuts its output into writes, no event
  makes the reporter fail, it appends a sequence of whole lines to its output, each behind the
  prefix of the task it is from, and the lines of a task are the complete lines of the texts
  of its events, in their order, each once; nothing is mixed or lost but a last line without
  its newline. Other texts are not covered: backslashes are rewritten, JSON is indented anew,
  and a JSON line can end the output of its task (\<open>json_line_ends_log\<close>).
\<close>

theorem reported_log:
  assumes "\<forall>ev \<in> set evs. event_task ev \<in> {None} \<union> Some ` set tasks"
    and "\<forall>t \<in> set tasks. plain_text pretty '''' (text_of t (all_writes secs g evs))"
  shows "\<exists>l' log. report_events paint pretty secs g evs (register_tasks g tasks l) = Return l' \<and>
    cl_w l' = cl_w l @
      concat (map (printed_line paint (task_writer g tasks (cl_separator l))) log) \<and>
    (\<forall>t. lines_of t log = fst (complete_lines '''' (text_of t (all_writes secs g evs))))"
proof -
  have "fst ` set (all_writes secs g evs) \<subseteq> set tasks"
    using all_writes_tasks [of secs g evs] assms(1) by (force simp del: set_concat)
  from write_messages_log [OF registered_rest this assms(2)] obtain l' where
    "report_events paint pretty secs g evs (register_tasks g tasks l) = Return l'"
    "cl_w l' = cl_w (register_tasks g tasks l) @ concat (map
      (printed_line paint (task_writer g tasks (cl_separator l)))
      (log_lines (\<lambda>_. []) (all_writes secs g evs)))"
    unfolding report_events_writes by blast
  moreover have "cl_w (register_tasks g tasks l) = cl_w l" by (simp add: register_tasks_def)
  ultimately show ?thesis
    using log_lines_of_task [of _ "\<lambda>_. []" "all_writes secs g evs"] by auto
qed

definition cli_demo_events :: "executor_event list" where
  "cli_demo_events = [TaskStartedEvent 0, TaskLogEvent 0 ''he'' Stdout_stream, TaskStartedEvent 1,
     TaskLogEvent 0 (''llo'' @ [newline]) Stdout_stream, TaskLogEvent 1 ''w'' Stdout_stream]"

definition cli_demo_tasks :: "tid \<Rightarrow> unit task" where
  "cli_demo_tasks t = zero_task\<lparr>t_name := if t = 0 then ''go'' else ''js''\<rparr>"

theorem reported_log_witness:
  "\<exists>l' log. report_events (\<lambda>c s. s) (\<lambda>_. None) nat_string cli_demo_tasks cli_demo_events
      (register_tasks cli_demo_tasks [0, 1] (new_logger '''')) = Return l' \<and>
    cl_w l' = concat (map (printed_line (\<lambda>c s. s) (task_writer cli_demo_tasks [0, 1] '''')) log) \<and>
    lines_of 0 log = [''Started'' @ [newline], ''hello'' @ [newline]] \<and>
    lines_of 1 log = [''Started'' @ [newline]]"
proof -
  have "\<forall>ev \<in> set cli_demo_events. event_task ev \<in> {None} \<union> Some ` set [0, 1]"
    by (auto simp: cli_demo_events_def)
  moreover have "\<forall>t \<in> set [0, 1].
      plain_text (\<lambda>_. None) '''' (text_of t (all_writes nat_string cli_demo_tasks cli_demo_events))"
    by (simp add: cli_demo_events_def event_writes_def plain_text_def printable_def buffer_size_def)
  ultimately obtain l' log where
    "report_events (\<lambda>c s. s) (\<lambda>_. None) nat_string cli_demo_tasks cli_demo_events
      (register_tasks cli_demo_tasks [0, 1] (new_logger [])) = Return l'"
    "cl_w l' = cl_w (new_logger []) @ concat (map (printed_line (\<lambda>c s. s)
      (task_writer cli_demo_tasks [0, 1] (cl_separator (new_logger [])))) log)"
    and lines: "\<forall>t. lines_of t log =
      fst (complete_lines [] (text_of t (all_writes nat_string cli_demo_tasks cli_demo_events)))"
    using reported_log [of cli_demo_events "[0, 1]" "\<lambda>_. None" nat_string cli_demo_tasks "\<lambda>c s. s" "new_logger []"]
    by blast
  moreover have "lines_of 0 log = [''Started'' @ [newline], ''hello'' @ [newline]]"
    "lines_of 1 log = [''Started'' @ [newline]]"
    unfolding lines [rule_format] by (simp_all add: cli_demo_events_def event_writes_def)
  moreover have "cl_w (new_logger []) = []" "cl_separator (new_logger []) = []"
    by (simp_all add: new_logger_def)
  ultimately show ?thesis by auto
qed

end
