(* ===== verification/Logging.thy ===== *)
theory Logging
  imports CliLog
begin

text \<open>
  How the output of a task reaches the subscribers (\<open>logger.go\<close>, \<open>executor.go\<close>): the subscription
  of a channel, the two loggers that the executor gives a task, and \<open>Logf\<close> with its fallback.
\<close>

section \<open>Subscriptions\<close>

text \<open>\<open>Executor.Subscribe\<close>: a new channel, of capacity 1024, after those there are.\<close>

definition executor_subscribe :: "executor_event list list \<Rightarrow> nat \<times> executor_event list list" where
  "executor_subscribe chs = (length chs, chs @ [[]])"

text \<open>\<open>publishEvent\<close> waits for the first channel that is full; it has sent to those before it.\<close>

fun publish_until ::
  "executor_event \<Rightarrow> executor_event list list \<Rightarrow> executor_event list list \<times> bool" where
  "publish_until ev [] = ([], True)"
| "publish_until ev (ch # chs) =
     (if length ch < 1024
      then (let (rest, all) = publish_until ev chs in ((ch @ [ev]) # rest, all))
      else (ch # chs, False))"

lemma publish_until_room:
  "\<forall>ch \<in> set chs. length ch < 1024 \<Longrightarrow> publish_until ev chs = (publish_event ev chs, True)"
  by (induction chs) (simp_all add: publish_event_def)

lemma publish_until_blocks: "snd (publish_until ev chs) \<longleftrightarrow> (\<forall>ch \<in> set chs. length ch < 1024)"
  by (induction chs) (auto simp: case_prod_beta)

section \<open>Loggers\<close>

record event_logger =
  el_task :: tid
  el_stream :: log_stream

text \<open>\<open>provideEventLogger\<close>: the standard output is a copy with its own stream.\<close>

record task_logger =
  tl_stdout :: event_logger
  tl_stderr :: event_logger

definition provide_event_logger :: "tid \<Rightarrow> task_logger" where
  "provide_event_logger t =
     (let stderr = \<lparr>el_task = t, el_stream = Stderr_stream\<rparr>;
          stdout = stderr\<lparr>el_stream := Stdout_stream\<rparr> in
      \<lparr>tl_stdout = stdout, tl_stderr = stderr\<rparr>)"

text \<open>The streams of the process and the channels of the subscribers.\<close>

record outputs =
  os_stdout :: string
  os_stderr :: string
  os_channels :: "executor_event list list"

definition no_logger_warning :: string where
  "no_logger_warning = [CHR 0xF0, CHR 0x9F, CHR 0x9F, CHR 0xA1] @
     '' Warning: There was no logger found in context, so falling back to `fmt.Printf`'' @ [newline]"

text \<open>\<open>Logf\<close> on the formatted text \<open>s\<close>, with the logger of its context.\<close>

definition logf :: "task_logger option \<Rightarrow> string \<Rightarrow> outputs \<Rightarrow> outputs" where
  "logf lg s out =
     (case lg of
        None \<Rightarrow> out\<lparr>os_stderr := os_stderr out @ no_logger_warning, os_stdout := os_stdout out @ s\<rparr>
      | Some l \<Rightarrow> out\<lparr>os_channels := snd (event_logger_write (el_task (tl_stdout l))
          (el_stream (tl_stdout l)) (logf_text s) (os_channels out))\<rparr>)"

section \<open>What is logged arrives\<close>

lemma complete_lines_ends: "s \<noteq> [] \<Longrightarrow> last s = newline \<Longrightarrow> snd (complete_lines acc s) = []"
  by (induction acc s rule: complete_lines.induct) (auto simp: case_prod_beta split: if_splits)

text \<open>
  Inside a task, a call of \<open>Logf\<close> sends one event to every subscriber, on the standard output of
  the task, and the message of the event is made of whole lines, so that the reporter leaves
  nothing of it in its buffer.
\<close>

lemma logf_arrives:
  "os_channels (logf (Some (provide_event_logger t)) s out) =
     map (\<lambda>ch. ch @ [TaskLogEvent t (logf_text s) Stdout_stream]) (os_channels out)"
  "snd (complete_lines [] (logf_text s)) = []"
  using logf_text_ends [of s] complete_lines_ends
  by (simp_all add: logf_def provide_event_logger_def event_logger_write_def publish_event_def)

end
