(* ===== verification/Buildkite.thy ===== *)
theory Buildkite
  imports Events
begin

text \<open>
  Package \<open>buildkitereporter\<close>: the last lines of the log of each task, and the annotation of the
  failed tasks that is uploaded or written at the end. The environment variable of the label,
  the shell and the operations on files are parameters.
\<close>

section \<open>The reporter\<close>

record reporter =
  rp_path :: string
  rp_upload_directly :: bool
  rp_upload_warning :: bool
  rp_max_lines :: int
  rp_stderrs :: "tid \<Rightarrow> string list"
  rp_streams :: "log_stream list"

definition new_reporter :: reporter where
  "new_reporter = \<lparr>rp_path = ''taskrunner.annotation.md'', rp_upload_directly = False,
     rp_upload_warning = False, rp_max_lines = 50, rp_stderrs = (\<lambda>_. []),
     rp_streams = [Stderr_stream]\<rparr>"

definition with_path :: "string \<Rightarrow> reporter \<Rightarrow> reporter" where
  "with_path p r = r\<lparr>rp_path := p\<rparr>"

definition with_max_lines :: "int \<Rightarrow> reporter \<Rightarrow> reporter" where
  "with_max_lines n r = r\<lparr>rp_max_lines := n\<rparr>"

definition with_streams :: "log_stream list \<Rightarrow> reporter \<Rightarrow> reporter" where
  "with_streams ss r = r\<lparr>rp_streams := ss\<rparr>"

definition with_upload :: "reporter \<Rightarrow> reporter" where
  "with_upload r = r\<lparr>rp_upload_directly := True\<rparr>"

definition with_warning_upload :: "reporter \<Rightarrow> reporter" where
  "with_warning_upload r = r\<lparr>rp_upload_directly := True, rp_upload_warning := True\<rparr>"

section \<open>The log\<close>

definition message_to_lines :: "string \<Rightarrow> string list" where
  "message_to_lines message = split_on newline (trim_space message)"

text \<open>\<open>lastNElements\<close>: a negative \<open>n\<close> puts the start of the slice behind its end.\<close>

definition last_n_elements :: "'a list \<Rightarrow> int \<Rightarrow> 'a list outcome" where
  "last_n_elements xs n =
     (let start = int (length xs) - n; start' = (if start < 0 then 0 else start) in
      if int (length xs) < start' then Panics ''slice bounds out of range''
      else Return (drop (nat start') xs))"

definition append_logs :: "tid \<Rightarrow> string \<Rightarrow> reporter \<Rightarrow> reporter outcome" where
  "append_logs t message r =
     bind_outcome (last_n_elements (rp_stderrs r t @ message_to_lines message) (rp_max_lines r))
       (\<lambda>ls. Return (r\<lparr>rp_stderrs := (rp_stderrs r)(t := ls)\<rparr>))"

text \<open>The subscription: a log event is appended once for each stream that equals its own.\<close>

fun append_streams :: "log_stream list \<Rightarrow> log_stream \<Rightarrow> tid \<Rightarrow> string \<Rightarrow> reporter \<Rightarrow> reporter outcome" where
  "append_streams [] stream t m r = Return r"
| "append_streams (s # ss) stream t m r =
     bind_outcome (if s = stream then append_logs t m r else Return r) (append_streams ss stream t m)"

fun on_event :: "executor_event \<Rightarrow> reporter \<Rightarrow> reporter outcome" where
  "on_event (TaskLogEvent t m stream) r = append_streams (rp_streams r) stream t m r"
| "on_event _ r = Return r"

fun on_events :: "executor_event list \<Rightarrow> reporter \<Rightarrow> reporter outcome" where
  "on_events [] r = Return r"
| "on_events (ev # evs) r = bind_outcome (on_event ev r) (on_events evs)"

text \<open>\<open>Option\<close>: the options are applied in order, and the reporter reads all events of its channel.\<close>

definition reporter_option :: "(reporter \<Rightarrow> reporter) list \<Rightarrow> executor_event list \<Rightarrow> reporter outcome" where
  "reporter_option opts evs = on_events evs (fold (\<lambda>opt r. opt r) opts new_reporter)"

section \<open>The annotation\<close>

definition annotation_task :: "(tid \<Rightarrow> 'w task) \<Rightarrow> reporter \<Rightarrow> tid \<Rightarrow> string" where
  "annotation_task g r t =
     ''<details><summary><code>'' @ t_name (g t) @ ''</code></summary>'' @ [newline] @ ''<pre>'' @
     concat (map (\<lambda>out. ''<code>'' @ out @ ''</code>'' @ [newline]) (rp_stderrs r t)) @
     ''</pre></details>'' @ [newline] @
     (if t_owner (g t) \<noteq> '''' then ''task owner: '' @ t_owner (g t) @ [newline] else '''')"

definition annotation ::
  "(tid \<Rightarrow> 'w task) \<Rightarrow> (tid \<Rightarrow> task_state) \<Rightarrow> string \<Rightarrow> tid list \<Rightarrow> reporter \<Rightarrow> string \<times> nat" where
  "annotation g state label tasks r =
     (let failed = filter (\<lambda>t. handler_state (state t) = ''error'') tasks in
      (''<h5>'' @ label @ '' taskrunner: '' @ nat_string (length failed) @ '' tasks failed</h5>'' @ [newline] @
         concat (map (annotation_task g r) failed),
       length failed))"

text \<open>
  \<open>Finish\<close>: nothing, an upload by a shell command with the annotation on its standard input,
  or a write of the file at \<open>path\<close>. The file is opened without truncating it.
\<close>

datatype report_action = No_report | Upload string string | Write_file string string

definition finish ::
  "(tid \<Rightarrow> 'w task) \<Rightarrow> (tid \<Rightarrow> task_state) \<Rightarrow> string \<Rightarrow> tid list \<Rightarrow> reporter \<Rightarrow> report_action" where
  "finish g state label tasks r =
     (let (text, failures) = annotation g state label tasks r in
      if failures = 0 then No_report
      else if rp_upload_directly r then
        Upload (''buildkite-agent annotate --style='' @ (if rp_upload_warning r then ''warning'' else ''error'') @
                '' --context=taskrunner'' @ (if rp_upload_warning r then ''-warning'' else '''') @ '' --append'')
               text
      else Write_file (rp_path r) text)"

definition file_after_write :: "string option \<Rightarrow> string \<Rightarrow> string" where
  "file_after_write old text =
     (case old of None \<Rightarrow> text | Some content \<Rightarrow> text @ drop (length text) content)"

lemma stale_tail: "file_after_write (Some (text @ rest)) text' =
    text' @ drop (length text') (text @ rest)"
  by (simp add: file_after_write_def)

section \<open>The log is bounded and recent\<close>

lemma last_n_elements_Return:
  "0 \<le> n \<Longrightarrow> last_n_elements xs n = Return (last_n (nat n) xs)"
  by (auto simp: last_n_elements_def last_n_def Let_def nat_diff_distrib)

lemma last_n_elements_negative:
  "n < 0 \<Longrightarrow> last_n_elements xs n = Panics ''slice bounds out of range''"
  by (simp add: last_n_elements_def Let_def)

text \<open>All lines of a task on the streams of the reporter.\<close>

definition event_lines :: "log_stream list \<Rightarrow> tid \<Rightarrow> executor_event \<Rightarrow> string list" where
  "event_lines streams t ev =
     (case ev of TaskLogEvent t' m stream \<Rightarrow>
        if t' = t then concat (map (\<lambda>s. if s = stream then message_to_lines m else []) streams) else []
      | _ \<Rightarrow> [])"

lemma append_streams_Return:
  assumes "0 \<le> rp_max_lines r" and "\<forall>t. length (rp_stderrs r t) \<le> nat (rp_max_lines r)"
  shows "append_streams ss stream t m r = Return (r\<lparr>rp_stderrs := (rp_stderrs r)(t :=
    last_n (nat (rp_max_lines r)) (rp_stderrs r t @
      concat (map (\<lambda>s. if s = stream then message_to_lines m else []) ss)))\<rparr>)"
  using assms
proof (induction ss arbitrary: r)
  case Nil
  then show ?case by (simp add: fun_upd_idem)
next
  case (Cons s ss)
  let ?r = "r\<lparr>rp_stderrs := (rp_stderrs r)(t :=
      last_n (nat (rp_max_lines r)) (rp_stderrs r t @ message_to_lines m))\<rparr>"
  show ?case
  proof (cases "s = stream")
    case True
    have "append_logs t m r = Return ?r"
      using Cons.prems(1) by (simp add: append_logs_def last_n_elements_Return)
    with True Cons.IH [of ?r] Cons.prems show ?thesis by (simp cong: if_cong)
  next
    case False
    with Cons show ?thesis by simp
  qed
qed

lemma on_event_Return:
  assumes "0 \<le> rp_max_lines r" and "\<forall>t. length (rp_stderrs r t) \<le> nat (rp_max_lines r)"
  shows "on_event ev r = Return (r\<lparr>rp_stderrs := \<lambda>t.
    last_n (nat (rp_max_lines r)) (rp_stderrs r t @ event_lines (rp_streams r) t ev)\<rparr>)"
  using assms append_streams_Return [OF assms]
  by (cases ev) (auto simp: event_lines_def fun_eq_iff intro!: arg_cong [where f = "\<lambda>x. r\<lparr>rp_stderrs := x\<rparr>"])

text \<open>
  C33. The log that the Buildkite reporter keeps of a task is bounded and recent: with a limit
  that is not negative no sequence of events makes it panic, and afterwards it holds exactly
  the last lines, at most as many as the limit, of all that the task logged on the reporter's
  streams, as if everything had been kept and cut once.
\<close>

theorem reporter_keeps_last_lines:
  assumes "0 \<le> rp_max_lines r" and "\<forall>t. rp_stderrs r t = []"
  shows "\<exists>r'. on_events evs r = Return r' \<and>
    (\<forall>t. rp_stderrs r' t = last_n (nat (rp_max_lines r)) (concat (map (event_lines (rp_streams r) t) evs)) \<and>
      length (rp_stderrs r' t) \<le> nat (rp_max_lines r))"
proof -
  have "on_events evs r = Return (r\<lparr>rp_stderrs := \<lambda>t.
      last_n (nat (rp_max_lines r)) (rp_stderrs r t @ concat (map (event_lines (rp_streams r) t) evs))\<rparr>)"
    if "\<forall>t. length (rp_stderrs r t) \<le> nat (rp_max_lines r)"
    using assms(1) that
  proof (induction evs arbitrary: r)
    case Nil
    then show ?case by simp
  next
    case (Cons ev evs)
    let ?r = "r\<lparr>rp_stderrs := \<lambda>t.
      last_n (nat (rp_max_lines r)) (rp_stderrs r t @ event_lines (rp_streams r) t ev)\<rparr>"
    have "on_events evs ?r = Return (?r\<lparr>rp_stderrs := \<lambda>t.
        last_n (nat (rp_max_lines ?r)) (rp_stderrs ?r t @ concat (map (event_lines (rp_streams ?r) t) evs))\<rparr>)"
      using Cons.prems by (intro Cons.IH) simp_all
    then show ?case using on_event_Return [OF Cons.prems] by simp
  qed
  with assms(2) show ?thesis by simp
qed

definition demo_events :: "executor_event list" where
  "demo_events = [TaskLogEvent 0 (''a'' @ [newline] @ ''b'' @ [newline]) Stderr_stream,
     TaskLogEvent 0 ''out'' Stdout_stream, TaskLogEvent 0 ''c'' Stderr_stream]"

lemma demo_trimmed: "trim_space (''a'' @ [newline] @ ''b'' @ [newline]) = ''a'' @ [newline] @ ''b''"
proof -
  let ?s = "''a'' @ [newline] @ ''b''"
  have "strip_leading (map rev white_spaces) (newline # rev ?s) = strip_leading (map rev white_spaces) (rev ?s)"
    by (subst strip_leading.simps) (simp add: white_spaces_def)
  moreover have "strip_leading white_spaces (?s @ [newline]) = ?s @ [newline]"
    using strip_ascii_left [of "CHR ''a''" "[newline] @ ''b'' @ [newline]"] by (simp add: is_space_def)
  moreover have "strip_leading (map rev white_spaces) (rev ?s) = rev ?s"
    using strip_ascii_right [of "CHR ''b''" "''a'' @ [newline]"] by (simp add: is_space_def)
  ultimately show ?thesis by (simp add: trim_space_def)
qed

theorem reporter_keeps_last_lines_witness:
  "\<exists>r'. on_events demo_events (with_max_lines 2 new_reporter) = Return r' \<and>
     rp_stderrs r' 0 = [''b'', ''c'']"
proof -
  have "concat (map (event_lines [Stderr_stream] 0) demo_events) = [''a'', ''b'', ''c'']"
    using trim_space_ascii(2) [of "CHR ''c''" "CHR ''c''"] demo_trimmed
    by (simp add: demo_events_def event_lines_def message_to_lines_def is_space_def)
  with reporter_keeps_last_lines [of "with_max_lines 2 new_reporter" demo_events] show ?thesis
    by (auto simp: with_max_lines_def new_reporter_def last_n_def)
qed

end
