(* ===== verification/GoBuilder.thy ===== *)
theory GoBuilder
  imports Registry
begin

text \<open>
  \<open>goextensions/builder.go\<close>: the batching of go builds, as a machine whose steps are the accesses
  of its goroutines to shared state; the invalidation by the dependencies of a package; and the
  wrapping of a task. The shell is a parameter. Time is not modelled: a timer that is set may
  fire at any later moment.
\<close>

section \<open>The batches\<close>

text \<open>
  A call of \<open>Build\<close>: about to send its request, to lock \<open>b.mu\<close>, to read \<open>b.doneCh\<close>, waiting
  for a channel or for the nil channel, about to read \<open>b.err\<close>, returned.
\<close>

datatype build_pc =
  B_send | B_lock | B_read | B_wait nat | B_wait_nil | B_result | B_returned "go_error option"

record build_call =
  bc_pkg :: string
  bc_logger :: "nat option"                   \<comment> \<open>\<open>LoggerFromContext\<close>, which may be nil\<close>
  bc_pc :: build_pc

record builder =
  gb_log_to_stdout :: bool                    \<comment> \<open>an option, set before the builder is used\<close>
  gb_requests :: "(string \<times> nat option) list" \<comment> \<open>the channel, of capacity 128\<close>
  gb_packages :: "string set"
  gb_loggers :: "nat option set"
  gb_timer :: bool
  gb_building :: bool                        \<comment> \<open>in \<open>build\<close>, with \<open>b.mu\<close> held\<close>
  gb_done_ch :: "nat option"
  gb_next_ch :: nat
  gb_closed :: "nat set"
  gb_err :: "go_error option"
  gb_calls :: "nat \<rightharpoonup> build_call"
  gb_panicked :: bool
  gb_built :: "(string set \<times> go_error option) list"  \<comment> \<open>the packages and result of each build\<close>

definition new_go_builder :: "bool \<Rightarrow> builder" where
  "new_go_builder log_to_stdout = \<lparr>gb_log_to_stdout = log_to_stdout, gb_requests = [],
     gb_packages = {}, gb_loggers = {}, gb_timer = False, gb_building = False, gb_done_ch = None,
     gb_next_ch = 0, gb_closed = {}, gb_err = None, gb_calls = Map.empty, gb_panicked = False,
     gb_built = []\<rparr>"

definition set_call :: "nat \<Rightarrow> build_call \<Rightarrow> build_pc \<Rightarrow> builder \<Rightarrow> builder" where
  "set_call i c pc b = b\<lparr>gb_calls := (gb_calls b)(i \<mapsto> c\<lparr>bc_pc := pc\<rparr>)\<rparr>"

definition at_call :: "nat \<Rightarrow> (build_call \<Rightarrow> builder option) \<Rightarrow> builder \<Rightarrow> builder option" where
  "at_call i f b = (case gb_calls b i of None \<Rightarrow> None | Some c \<Rightarrow> f c)"

definition op_build :: "nat \<Rightarrow> string \<Rightarrow> nat option \<Rightarrow> builder \<Rightarrow> builder option" where
  "op_build i pkg lg b =
     (if gb_calls b i \<noteq> None then None
      else Some (b\<lparr>gb_calls := (gb_calls b)(i \<mapsto> \<lparr>bc_pkg = pkg, bc_logger = lg, bc_pc = B_send\<rparr>)\<rparr>))"

definition op_send_request :: "nat \<Rightarrow> builder \<Rightarrow> builder option" where
  "op_send_request i b = at_call i (\<lambda>c.
     if bc_pc c = B_send \<and> length (gb_requests b) < 128
     then Some (set_call i c B_lock (b\<lparr>gb_requests := gb_requests b @ [(bc_pkg c, bc_logger c)]\<rparr>))
     else None) b"

text \<open>The critical section of \<open>Build\<close>, which needs the lock that \<open>build\<close> holds.\<close>

definition op_register :: "nat \<Rightarrow> builder \<Rightarrow> builder option" where
  "op_register i b = at_call i (\<lambda>c.
     if bc_pc c = B_lock \<and> \<not> gb_building b
     then Some (set_call i c B_read
       (if gb_done_ch b = None
        then b\<lparr>gb_done_ch := Some (gb_next_ch b), gb_next_ch := Suc (gb_next_ch b)\<rparr> else b))
     else None) b"

definition op_read_done :: "nat \<Rightarrow> builder \<Rightarrow> builder option" where
  "op_read_done i b = at_call i (\<lambda>c.
     if bc_pc c = B_read
     then Some (set_call i c (case gb_done_ch b of None \<Rightarrow> B_wait_nil | Some k \<Rightarrow> B_wait k) b)
     else None) b"

definition op_woken :: "nat \<Rightarrow> builder \<Rightarrow> builder option" where
  "op_woken i b = at_call i (\<lambda>c.
     (case bc_pc c of
        B_wait k \<Rightarrow> if k \<in> gb_closed b then Some (set_call i c B_result b) else None
      | _ \<Rightarrow> None)) b"

definition op_result :: "nat \<Rightarrow> builder \<Rightarrow> builder option" where
  "op_result i b = at_call i (\<lambda>c.
     if bc_pc c = B_result then Some (set_call i c (B_returned (gb_err b)) b) else None) b"

text \<open>The goroutine of \<open>NewGoBuilder\<close>: a request, the timer, and the end of a build.\<close>

definition op_request :: "builder \<Rightarrow> builder option" where
  "op_request b =
     (if gb_building b \<or> gb_panicked b then None
      else (case gb_requests b of
              [] \<Rightarrow> None
            | (pkg, lg) # rest \<Rightarrow>
                Some (b\<lparr>gb_requests := rest, gb_packages := insert pkg (gb_packages b),
                        gb_loggers := insert lg (gb_loggers b), gb_timer := True\<rparr>)))"

definition op_timer :: "builder \<Rightarrow> builder option" where
  "op_timer b =
     (if gb_building b \<or> gb_panicked b \<or> \<not> gb_timer b then None
      else Some (b\<lparr>gb_timer := False, gb_building := True\<rparr>))"

text \<open>
  \<open>build\<close> under the lock: without \<open>LogToStdout\<close> it reads the writers of all loggers of the batch,
  and panics if one of the calls had no logger in its context; then the shell runs, with any
  result; and \<open>close\<close> panics on the nil channel. A panic ends the program.
\<close>

definition unlogged :: "builder \<Rightarrow> bool" where
  "unlogged b \<longleftrightarrow> \<not> gb_log_to_stdout b \<and> None \<in> gb_loggers b"

definition op_built :: "go_error option \<Rightarrow> builder \<Rightarrow> builder option" where
  "op_built err b =
     (if \<not> gb_building b \<or> gb_panicked b then None
      else if unlogged b then Some (b\<lparr>gb_panicked := True\<rparr>)
      else
        (let b1 = b\<lparr>gb_err := err, gb_built := gb_built b @ [(gb_packages b, err)]\<rparr> in
         (case gb_done_ch b of
            None \<Rightarrow> Some (b1\<lparr>gb_panicked := True\<rparr>)
          | Some k \<Rightarrow>
              Some (b1\<lparr>gb_closed := insert k (gb_closed b), gb_done_ch := None,
                       gb_packages := {}, gb_loggers := {}, gb_building := False\<rparr>))))"

datatype build_action =
    A_build nat string "nat option"
  | A_send_request nat
  | A_register nat
  | A_read_done nat
  | A_woken nat
  | A_result nat
  | A_request
  | A_timer
  | A_built "go_error option"

fun do_build_action :: "build_action \<Rightarrow> builder \<Rightarrow> builder option" where
  "do_build_action (A_build i pkg lg) = op_build i pkg lg"
| "do_build_action (A_send_request i) = op_send_request i"
| "do_build_action (A_register i) = op_register i"
| "do_build_action (A_read_done i) = op_read_done i"
| "do_build_action (A_woken i) = op_woken i"
| "do_build_action (A_result i) = op_result i"
| "do_build_action A_request = op_request"
| "do_build_action A_timer = op_timer"
| "do_build_action (A_built err) = op_built err"

inductive build_step :: "builder \<Rightarrow> builder \<Rightarrow> bool" where
  "do_build_action a b = Some b' \<Longrightarrow> build_step b b'"

definition builder_starts :: "builder \<Rightarrow> bool" where
  "builder_starts b \<longleftrightarrow> (\<exists>log_to_stdout. b = new_go_builder log_to_stdout)"

abbreviation build_reachable :: "builder \<Rightarrow> bool" where
  "build_reachable \<equiv> reachable_by builder_starts build_step"

fun build_actions :: "build_action list \<Rightarrow> builder \<Rightarrow> builder option" where
  "build_actions [] b = Some b"
| "build_actions (a # as) b = Option.bind (do_build_action a b) (build_actions as)"

lemma build_actions_reachable:
  "build_actions as b = Some b' \<Longrightarrow> build_reachable b \<Longrightarrow> build_reachable b'"
proof (induction as arbitrary: b)
  case Nil
  then show ?case by simp
next
  case (Cons a as)
  then obtain b1 where "do_build_action a b = Some b1" "build_actions as b1 = Some b'"
    by (auto simp: bind_eq_Some_conv)
  with Cons show ?case by (blast intro: reachable_by.step build_step.intros)
qed

section \<open>No request is lost\<close>

definition built_packages :: "builder \<Rightarrow> string set" where
  "built_packages b = (\<Union>(ps, err) \<in> set (gb_built b). ps)"

definition call_inv :: "builder \<Rightarrow> build_call \<Rightarrow> bool" where
  "call_inv b c \<longleftrightarrow>
     (bc_pc c \<noteq> B_send \<longrightarrow>
        bc_pkg c \<in> fst ` set (gb_requests b) \<union> gb_packages b \<union> built_packages b) \<and>
     (\<forall>k. bc_pc c = B_wait k \<longrightarrow> k \<in> gb_closed b \<or> gb_done_ch b = Some k)"

definition builder_inv :: "builder \<Rightarrow> bool" where
  "builder_inv b \<longleftrightarrow> (\<forall>i c. gb_calls b i = Some c \<longrightarrow> call_inv b c) \<and>
     (gb_packages b \<noteq> {} \<longrightarrow> gb_timer b \<or> gb_building b) \<and>
     (\<forall>k. gb_done_ch b = Some k \<longrightarrow> k < gb_next_ch b \<and> k \<notin> gb_closed b) \<and>
     (\<forall>k \<in> gb_closed b. k < gb_next_ch b) \<and> length (gb_requests b) \<le> 128"

text \<open>What a step may do to the state that the calls depend on.\<close>

definition call_frame :: "builder \<Rightarrow> builder \<Rightarrow> bool" where
  "call_frame b b' \<longleftrightarrow>
     fst ` set (gb_requests b) \<union> gb_packages b \<union> built_packages b \<subseteq>
       fst ` set (gb_requests b') \<union> gb_packages b' \<union> built_packages b' \<and>
     (\<forall>k. k \<in> gb_closed b \<or> gb_done_ch b = Some k \<longrightarrow> k \<in> gb_closed b' \<or> gb_done_ch b' = Some k)"

lemma call_inv_frame: "call_inv b c \<Longrightarrow> call_frame b b' \<Longrightarrow> call_inv b' c"
  unfolding call_inv_def call_frame_def by blast

lemma calls_upd:
  assumes "\<forall>j d. gb_calls b j = Some d \<longrightarrow> call_inv b d" and "call_frame b b'"
    and "gb_calls b' = (gb_calls b)(i \<mapsto> c)" and "call_inv b' c"
  shows "\<forall>j d. gb_calls b' j = Some d \<longrightarrow> call_inv b' d"
  using assms by (auto intro: call_inv_frame)

lemma calls_same:
  assumes "\<forall>j d. gb_calls b j = Some d \<longrightarrow> call_inv b d" and "call_frame b b'"
    and "gb_calls b' = gb_calls b"
  shows "\<forall>j d. gb_calls b' j = Some d \<longrightarrow> call_inv b' d"
  using assms by (auto intro: call_inv_frame)

lemmas builder_ops = op_build_def op_send_request_def op_register_def op_read_done_def op_woken_def
  op_result_def op_request_def op_timer_def op_built_def at_call_def

text \<open>What each step needs and does.\<close>

lemma op_build_cases:
  assumes "op_build i pkg lg b = Some b'"
  obtains "gb_calls b i = None"
    "b' = b\<lparr>gb_calls := (gb_calls b)(i \<mapsto> \<lparr>bc_pkg = pkg, bc_logger = lg, bc_pc = B_send\<rparr>)\<rparr>"
  using assms by (auto simp: op_build_def split: if_splits)

lemma op_send_request_cases:
  assumes "op_send_request i b = Some b'"
  obtains c where "gb_calls b i = Some c" "bc_pc c = B_send" "length (gb_requests b) < 128"
    "b' = set_call i c B_lock (b\<lparr>gb_requests := gb_requests b @ [(bc_pkg c, bc_logger c)]\<rparr>)"
  using assms by (auto simp: op_send_request_def at_call_def split: option.splits if_splits)

lemma op_register_cases:
  assumes "op_register i b = Some b'"
  obtains c where "gb_calls b i = Some c" "bc_pc c = B_lock" "\<not> gb_building b"
    "b' = set_call i c B_read
       (if gb_done_ch b = None
        then b\<lparr>gb_done_ch := Some (gb_next_ch b), gb_next_ch := Suc (gb_next_ch b)\<rparr> else b)"
  using assms by (auto simp: op_register_def at_call_def split: option.splits if_splits)

lemma op_read_done_cases:
  assumes "op_read_done i b = Some b'"
  obtains c where "gb_calls b i = Some c" "bc_pc c = B_read"
    "b' = set_call i c (case gb_done_ch b of None \<Rightarrow> B_wait_nil | Some k \<Rightarrow> B_wait k) b"
  using assms by (auto simp: op_read_done_def at_call_def split: option.splits if_splits)

lemma op_woken_cases:
  assumes "op_woken i b = Some b'"
  obtains c k where "gb_calls b i = Some c" "bc_pc c = B_wait k" "k \<in> gb_closed b"
    "b' = set_call i c B_result b"
  using assms by (auto simp: op_woken_def at_call_def split: option.splits if_splits build_pc.splits)

lemma op_result_cases:
  assumes "op_result i b = Some b'"
  obtains c where "gb_calls b i = Some c" "bc_pc c = B_result"
    "b' = set_call i c (B_returned (gb_err b)) b"
  using assms by (auto simp: op_result_def at_call_def split: option.splits if_splits)

lemma op_request_cases:
  assumes "op_request b = Some b'"
  obtains pkg lg rest where "gb_requests b = (pkg, lg) # rest" "\<not> gb_building b"
    "b' = b\<lparr>gb_requests := rest, gb_packages := insert pkg (gb_packages b),
           gb_loggers := insert lg (gb_loggers b), gb_timer := True\<rparr>"
  using assms by (auto simp: op_request_def split: if_splits list.splits)

lemma op_timer_cases:
  assumes "op_timer b = Some b'"
  obtains "gb_timer b" "\<not> gb_building b" "b' = b\<lparr>gb_timer := False, gb_building := True\<rparr>"
  using assms by (auto simp: op_timer_def split: if_splits)

lemmas build_cases = op_build_cases op_send_request_cases op_register_cases op_read_done_cases
  op_woken_cases op_result_cases op_request_cases op_timer_cases

lemma built_packages_simps [simp]:
  "built_packages (b\<lparr>gb_calls := x\<rparr>) = built_packages b"
  "built_packages (b\<lparr>gb_requests := q\<rparr>) = built_packages b"
  "built_packages (b\<lparr>gb_done_ch := d\<rparr>) = built_packages b"
  "built_packages (b\<lparr>gb_next_ch := n\<rparr>) = built_packages b"
  by (simp_all add: built_packages_def)

lemma builder_calls: "builder_inv b \<Longrightarrow> \<forall>j d. gb_calls b j = Some d \<longrightarrow> call_inv b d"
  by (simp add: builder_inv_def)

text \<open>A step of a call, on its own part of the invariant; then one of the batching goroutine.\<close>

lemma builder_inv_call:
  assumes inv: "builder_inv b" and "call_frame b b'" and "gb_calls b' = (gb_calls b)(i \<mapsto> c)"
    and "call_inv b' c" and "gb_packages b' = gb_packages b" "gb_timer b' = gb_timer b"
    "gb_building b' = gb_building b" "gb_closed b' = gb_closed b"
    and "gb_done_ch b' = gb_done_ch b \<and> gb_next_ch b' = gb_next_ch b \<or>
      gb_done_ch b' = Some (gb_next_ch b) \<and> gb_next_ch b' = Suc (gb_next_ch b)"
    and "length (gb_requests b') \<le> 128"
  shows "builder_inv b'"
  using calls_upd [OF builder_calls [OF inv] assms(2-4)] assms
  by (auto simp: builder_inv_def less_Suc_eq)

lemma builder_inv_action_call:
  assumes inv: "builder_inv b" and act: "do_build_action a b = Some b'"
    and a: "a \<noteq> A_request" "a \<noteq> A_timer" "\<And>err. a \<noteq> A_built err"
  shows "builder_inv b'"
proof -
  have own: "call_inv b c" if "gb_calls b i = Some c" for i c
    using builder_calls [OF inv] that by blast
  have req: "length (gb_requests b) \<le> 128" using inv by (simp add: builder_inv_def)
  note defs = set_call_def call_frame_def call_inv_def
  show ?thesis
  proof (cases a)
    case (A_build i pkg lg)
    then show ?thesis using act req
      by (auto elim!: op_build_cases intro!: builder_inv_call [OF inv] simp: defs)
  next
    case (A_send_request i)
    with act obtain c where "gb_calls b i = Some c" "bc_pc c = B_send" "length (gb_requests b) < 128"
      "b' = set_call i c B_lock (b\<lparr>gb_requests := gb_requests b @ [(bc_pkg c, bc_logger c)]\<rparr>)"
      by (auto elim: op_send_request_cases)
    then show ?thesis
      by (intro builder_inv_call [OF inv, of b' i "c\<lparr>bc_pc := B_lock\<rparr>"]) (auto simp: defs)
  next
    case (A_register i)
    with act obtain c where c: "gb_calls b i = Some c" "bc_pc c = B_lock"
      "b' = set_call i c B_read (if gb_done_ch b = None
        then b\<lparr>gb_done_ch := Some (gb_next_ch b), gb_next_ch := Suc (gb_next_ch b)\<rparr> else b)"
      by (auto elim: op_register_cases)
    with own [OF c(1)] req show ?thesis
      by (intro builder_inv_call [OF inv, of b' i "c\<lparr>bc_pc := B_read\<rparr>"]) (auto simp: defs)
  next
    case (A_read_done i)
    let ?pc = "case gb_done_ch b of None \<Rightarrow> B_wait_nil | Some k \<Rightarrow> B_wait k"
    from A_read_done act obtain c where c: "gb_calls b i = Some c" "bc_pc c = B_read"
      "b' = set_call i c ?pc b"
      by (auto elim: op_read_done_cases)
    with own [OF c(1)] req show ?thesis
      by (intro builder_inv_call [OF inv, of b' i "c\<lparr>bc_pc := ?pc\<rparr>"]) (auto simp: defs split: option.splits)
  next
    case (A_woken i)
    with act obtain c k where c: "gb_calls b i = Some c" "bc_pc c = B_wait k" "b' = set_call i c B_result b"
      by (auto elim: op_woken_cases)
    with own [OF c(1)] req show ?thesis
      by (intro builder_inv_call [OF inv, of b' i "c\<lparr>bc_pc := B_result\<rparr>"]) (auto simp: defs)
  next
    case (A_result i)
    with act obtain c where c: "gb_calls b i = Some c" "bc_pc c = B_result"
      "b' = set_call i c (B_returned (gb_err b)) b"
      by (auto elim: op_result_cases)
    with own [OF c(1)] req show ?thesis
      by (intro builder_inv_call [OF inv, of b' i "c\<lparr>bc_pc := B_returned (gb_err b)\<rparr>"]) (auto simp: defs)
  qed (use a in simp_all)
qed

lemma builder_inv_request:
  assumes inv: "builder_inv b" and "op_request b = Some b'"
  shows "builder_inv b'"
  using assms(2)
proof (cases rule: op_request_cases)
  case (1 pkg lg rest)
  have "\<forall>j d. gb_calls b' j = Some d \<longrightarrow> call_inv b' d"
    by (rule calls_same [OF builder_calls [OF inv]]) (auto simp: 1 call_frame_def built_packages_def)
  with inv 1 show ?thesis by (simp add: builder_inv_def)
qed

lemma builder_inv_timer:
  assumes inv: "builder_inv b" and "op_timer b = Some b'"
  shows "builder_inv b'"
  using assms(2)
proof (cases rule: op_timer_cases)
  case 1
  have "\<forall>j d. gb_calls b' j = Some d \<longrightarrow> call_inv b' d"
    by (rule calls_same [OF builder_calls [OF inv]]) (auto simp: 1 call_frame_def built_packages_def)
  with inv 1 show ?thesis by (simp add: builder_inv_def)
qed

lemma builder_inv_built:
  assumes inv: "builder_inv b" and act: "op_built err b = Some b'"
  shows "builder_inv b'"
proof -
  have "call_frame b b'" "gb_calls b' = gb_calls b"
    using act by (auto simp: op_built_def Let_def call_frame_def built_packages_def split: if_splits option.splits)
  from calls_same [OF builder_calls [OF inv] this] inv act show ?thesis
    by (auto simp: builder_inv_def op_built_def Let_def split: if_splits option.splits)
qed

lemma builder_inv_action:
  assumes "builder_inv b" and "do_build_action a b = Some b'"
  shows "builder_inv b'"
proof -
  consider "a = A_request" | "a = A_timer" | err where "a = A_built err"
    | "a \<noteq> A_request" "a \<noteq> A_timer" "\<And>err. a \<noteq> A_built err" by blast
  then show ?thesis
  proof cases
    case 1
    with assms builder_inv_request show ?thesis by simp
  next
    case 2
    with assms builder_inv_timer show ?thesis by simp
  next
    case 3
    with assms builder_inv_built show ?thesis by simp
  next
    case 4
    then show ?thesis by (rule builder_inv_action_call [OF assms])
  qed
qed

interpretation batches: invariant builder_starts build_step "\<lambda>b. True" builder_inv
proof unfold_locales
  show "builder_starts s \<Longrightarrow> builder_inv s" for s
    by (auto simp: builder_starts_def new_go_builder_def builder_inv_def)
  show "builder_inv s \<Longrightarrow> build_step s s' \<Longrightarrow> builder_inv s'" for s s'
    by (auto elim!: build_step.cases intro: builder_inv_action)
qed simp

text \<open>
  C31. The batching of builds loses no request: in every interleaving of calls, the batching
  goroutine and its timer, the package of every call that has sent its request is in the
  channel, or in a batch for which the timer is set or a build is running, or was built; and
  a call that waits on a channel waits on one that is closed or on the builder's present one,
  which the next build that ends closes, if there is a next build. (A call may also have found
  no channel and wait on nil, for ever: \<open>build_waits_on_nil\<close>.)
\<close>

theorem no_build_request_lost:
  assumes "build_reachable b" and "gb_calls b i = Some c" and "bc_pc c \<noteq> B_send"
  shows "(bc_pkg c \<in> fst ` set (gb_requests b) \<or>
      bc_pkg c \<in> gb_packages b \<and> (gb_timer b \<or> gb_building b) \<or>
      (\<exists>(ps, err) \<in> set (gb_built b). bc_pkg c \<in> ps)) \<and>
    (\<forall>k. bc_pc c = B_wait k \<longrightarrow> k \<in> gb_closed b \<or> gb_done_ch b = Some k)"
proof -
  have inv: "builder_inv b" by (rule batches.inv_reachable [OF assms(1)])
  then have c: "call_inv b c" and timer: "gb_packages b \<noteq> {} \<longrightarrow> gb_timer b \<or> gb_building b"
    using assms(2) unfolding builder_inv_def by blast+
  then have "bc_pkg c \<in> fst ` set (gb_requests b) \<or> bc_pkg c \<in> gb_packages b \<or>
      (\<exists>(ps, err) \<in> set (gb_built b). bc_pkg c \<in> ps)"
    using assms(3) unfolding call_inv_def built_packages_def by auto
  with c timer show ?thesis unfolding call_inv_def by blast
qed

definition two_builds :: "build_action list" where
  "two_builds = [A_build 0 ''a'' (Some 0), A_send_request 0, A_register 0, A_read_done 0, A_request,
     A_build 1 ''b'' (Some 1), A_send_request 1, A_register 1, A_read_done 1]"

lemmas build_eval = two_builds_def builder_ops set_call_def new_go_builder_def unlogged_def

lemma new_builder_reachable: "build_reachable (new_go_builder out)"
  by (rule reachable_by.initial) (auto simp: builder_starts_def)

lemma two_builds_eval:
  "\<exists>b c. build_actions two_builds (new_go_builder False) = Some b \<and> gb_calls b 1 = Some c \<and>
     bc_pkg c = ''b'' \<and> bc_pc c = B_wait 0"
  by (simp add: build_eval)

theorem no_build_request_lost_witness:
  "\<exists>b. build_reachable b \<and> (''b'' \<in> fst ` set (gb_requests b) \<or>
      ''b'' \<in> gb_packages b \<and> (gb_timer b \<or> gb_building b) \<or>
      (\<exists>(ps, err) \<in> set (gb_built b). ''b'' \<in> ps))"
proof -
  from two_builds_eval obtain b c where b: "build_actions two_builds (new_go_builder False) = Some b"
    "gb_calls b 1 = Some c" "bc_pkg c = ''b''" "bc_pc c = B_wait 0" by blast
  have "build_reachable b"
    by (rule build_actions_reachable [OF b(1) new_builder_reachable])
  from no_build_request_lost [OF this b(2)] this b(3,4) show ?thesis by auto
qed

text \<open>
  The remaining races. A call whose request arrives as the timer fires shares the channel of
  the batch and returns when it is built, without its own package; and a call that is late to
  read the channel, or to register, can wait for ever.
\<close>

lemma build_returns_early:
  "\<exists>b c. build_actions (two_builds @ [A_timer, A_built None, A_woken 1, A_result 1]) (new_go_builder False) = Some b \<and>
     gb_calls b 1 = Some c \<and> bc_pc c = B_returned None \<and> ''b'' \<notin> built_packages b"
  by (simp add: build_eval built_packages_def)

lemma build_waits_on_nil:
  "\<exists>b c. build_actions [A_build 0 ''a'' (Some 0), A_send_request 0, A_register 0, A_request, A_timer,
       A_built None, A_read_done 0] (new_go_builder False) = Some b \<and>
     gb_calls b 0 = Some c \<and> bc_pc c = B_wait_nil"
  by (simp add: build_eval)

lemma build_closes_nil:
  "\<exists>b. build_actions [A_build 0 ''a'' (Some 0), A_send_request 0, A_request, A_timer, A_built None]
     (new_go_builder False) = Some b \<and> gb_panicked b"
  by (simp add: build_eval)

text \<open>A call without a logger in its context makes the build panic, whoever else is in the batch.\<close>

lemma unlogged_build_panics:
  "\<exists>b. build_actions [A_build 0 ''a'' None, A_send_request 0, A_register 0, A_read_done 0, A_request, A_timer,
       A_built None] (new_go_builder False) = Some b \<and> gb_panicked b"
  by (simp add: build_eval)

end
