(* ===== verification/GoBuilderLive.thy ===== *)
theory GoBuilderLive
  imports GoBuilder
begin

text \<open>
  What the batching of go builds guarantees where its races do not strike: if the timer is only
  received when no request is in the channel and no call is between its request and its wait,
  and every call has a logger, then every call of \<open>Build\<close> returns, after a build of its package. (The timer is set to half a
  second after the last request; the calls need the time of a few instructions.)
\<close>

section \<open>Prompt calls\<close>

definition prompt :: "builder \<Rightarrow> bool" where
  "prompt b \<longleftrightarrow> gb_requests b = [] \<and>
     (\<forall>i c. gb_calls b i = Some c \<longrightarrow> bc_pc c \<noteq> B_lock \<and> bc_pc c \<noteq> B_read)"

text \<open>Every call has a logger in its context, unless the builder logs to the console.\<close>

definition has_logger :: "build_action \<Rightarrow> builder \<Rightarrow> bool" where
  "has_logger a b \<longleftrightarrow> gb_log_to_stdout b \<or> (\<forall>i pkg. a \<noteq> A_build i pkg None)"

definition prompt_step :: "builder \<Rightarrow> builder \<Rightarrow> bool" where
  "prompt_step b b' \<longleftrightarrow>
     (\<exists>a. do_build_action a b = Some b' \<and> (a = A_timer \<longrightarrow> prompt b) \<and> has_logger a b)"

text \<open>The steps that work off the calls there are.\<close>

definition work_step :: "builder \<Rightarrow> builder \<Rightarrow> bool" where
  "work_step b b' \<longleftrightarrow> (\<exists>a. do_build_action a b = Some b' \<and> (a = A_timer \<longrightarrow> prompt b) \<and>
     (\<forall>i pkg lg. a \<noteq> A_build i pkg lg))"

abbreviation prompt_reachable :: "builder \<Rightarrow> bool" where
  "prompt_reachable \<equiv> reachable_by builder_starts prompt_step"

lemma prompt_reachable_reachable: "prompt_reachable b \<Longrightarrow> build_reachable b"
  by (induction rule: reachable_by.induct)
    (auto simp: prompt_step_def intro: reachable_by.initial reachable_by.step build_step.intros)

lemma work_step_prompt: "work_step b b' \<Longrightarrow> prompt_step b b'"
  by (auto simp: work_step_def prompt_step_def has_logger_def)

text \<open>So the batch has a writer for each of its loggers.\<close>

definition logged_inv :: "builder \<Rightarrow> bool" where
  "logged_inv b \<longleftrightarrow> gb_log_to_stdout b \<or> None \<notin> gb_loggers b \<and> None \<notin> snd ` set (gb_requests b) \<and>
     (\<forall>i c. gb_calls b i = Some c \<longrightarrow> bc_logger c \<noteq> None)"

lemma logged_inv_call:
  assumes "logged_inv b" and "gb_calls b' = (gb_calls b)(i \<mapsto> c)"
    and "gb_log_to_stdout b' = gb_log_to_stdout b" and "gb_loggers b' \<subseteq> gb_loggers b"
    and "snd ` set (gb_requests b') \<subseteq> insert (bc_logger c) (snd ` set (gb_requests b))"
    and "gb_log_to_stdout b \<or> bc_logger c \<noteq> None"
  shows "logged_inv b'"
  using assms unfolding logged_inv_def by (auto split: if_splits)

lemma logged_call: "logged_inv b \<Longrightarrow> gb_calls b i = Some c \<Longrightarrow> gb_log_to_stdout b \<or> bc_logger c \<noteq> None"
  by (auto simp: logged_inv_def)

lemma logged_inv_action:
  assumes inv: "logged_inv b" and act: "do_build_action a b = Some b'" and lg: "has_logger a b"
  shows "logged_inv b'"
proof (cases a)
  case (A_build i pkg l)
  with act lg show ?thesis
    by (auto elim!: op_build_cases intro!: logged_inv_call [OF inv] simp: has_logger_def)
next
  case (A_send_request i)
  then obtain c where "gb_calls b i = Some c"
    "b' = set_call i c B_lock (b\<lparr>gb_requests := gb_requests b @ [(bc_pkg c, bc_logger c)]\<rparr>)"
    using act by (auto elim: op_send_request_cases)
  with logged_call [OF inv] show ?thesis
    by (intro logged_inv_call [OF inv, of b' i "c\<lparr>bc_pc := B_lock\<rparr>"]) (auto simp: set_call_def)
next
  case (A_register i)
  then obtain c where "gb_calls b i = Some c" "gb_calls b' = (gb_calls b)(i \<mapsto> c\<lparr>bc_pc := B_read\<rparr>)"
    "gb_requests b' = gb_requests b" "gb_loggers b' = gb_loggers b" "gb_log_to_stdout b' = gb_log_to_stdout b"
    using act by (auto simp: set_call_def elim!: op_register_cases)
  with logged_call [OF inv] show ?thesis
    by (intro logged_inv_call [OF inv, of b' i "c\<lparr>bc_pc := B_read\<rparr>"]) auto
next
  case (A_read_done i)
  with act logged_call [OF inv] show ?thesis
    by (auto elim!: op_read_done_cases intro!: logged_inv_call [OF inv] simp: set_call_def)
next
  case (A_woken i)
  with act logged_call [OF inv] show ?thesis
    by (auto elim!: op_woken_cases intro!: logged_inv_call [OF inv] simp: set_call_def)
next
  case (A_result i)
  with act logged_call [OF inv] show ?thesis
    by (auto elim!: op_result_cases intro!: logged_inv_call [OF inv] simp: set_call_def)
next
  case A_request
  with act inv show ?thesis by (auto elim!: op_request_cases simp: logged_inv_def)
next
  case A_timer
  with act inv show ?thesis by (auto elim!: op_timer_cases simp: logged_inv_def)
next
  case (A_built err)
  with act inv show ?thesis
    by (auto simp: op_built_def Let_def logged_inv_def split: if_splits option.splits)
qed

interpretation logged: invariant builder_starts prompt_step "\<lambda>b. True" logged_inv
proof unfold_locales
  show "builder_starts s \<Longrightarrow> logged_inv s" for s
    by (auto simp: builder_starts_def new_go_builder_def logged_inv_def)
  show "logged_inv s \<Longrightarrow> prompt_step s s' \<Longrightarrow> logged_inv s'" for s s'
    unfolding prompt_step_def using logged_inv_action by blast
qed simp

lemma logged_not_unlogged: "logged_inv b \<Longrightarrow> \<not> unlogged b"
  by (auto simp: logged_inv_def unlogged_def)

section \<open>The invariant of prompt runs\<close>

definition has_lock :: "builder \<Rightarrow> bool" where
  "has_lock b \<longleftrightarrow> (\<exists>i c. gb_calls b i = Some c \<and> bc_pc c = B_lock)"

fun past_wait :: "nat set \<Rightarrow> build_pc \<Rightarrow> bool" where
  "past_wait K (B_wait k) = (k \<in> K)"
| "past_wait K B_result = True"
| "past_wait K (B_returned e) = True"
| "past_wait K pc = False"

lemma past_wait_insert: "past_wait (insert k K) pc \<longleftrightarrow> past_wait K pc \<or> pc = B_wait k"
  by (cases pc) auto

definition prompt_call :: "builder \<Rightarrow> build_call \<Rightarrow> bool" where
  "prompt_call b c \<longleftrightarrow>
     (bc_pc c = B_lock \<longrightarrow> gb_requests b \<noteq> [] \<or> gb_timer b \<and> \<not> gb_building b) \<and>
     (bc_pc c = B_read \<longrightarrow> gb_done_ch b \<noteq> None \<and> \<not> gb_building b) \<and> bc_pc c \<noteq> B_wait_nil \<and>
     (\<forall>k. bc_pc c = B_wait k \<longrightarrow> k \<notin> gb_closed b \<longrightarrow> gb_building b \<longrightarrow>
        bc_pkg c \<in> gb_packages b \<union> built_packages b) \<and>
     (past_wait (gb_closed b) (bc_pc c) \<longrightarrow> bc_pkg c \<in> built_packages b)"

definition prompt_inv :: "builder \<Rightarrow> bool" where
  "prompt_inv b \<longleftrightarrow> (\<forall>i c. gb_calls b i = Some c \<longrightarrow> prompt_call b c) \<and> \<not> gb_panicked b \<and>
     (gb_building b \<longrightarrow> gb_done_ch b \<noteq> None \<and> \<not> gb_timer b) \<and>
     (gb_requests b \<noteq> [] \<longrightarrow> gb_building b \<or> gb_done_ch b = None \<longrightarrow> has_lock b) \<and>
     (gb_timer b \<longrightarrow> gb_done_ch b = None \<longrightarrow> has_lock b) \<and>
     (gb_done_ch b \<noteq> None \<longrightarrow> gb_requests b \<noteq> [] \<or> gb_timer b \<or> gb_building b)"

lemma prompt_invD:
  assumes "prompt_inv b"
  shows "\<And>i c. gb_calls b i = Some c \<Longrightarrow> prompt_call b c" "\<not> gb_panicked b"
    "gb_building b \<Longrightarrow> gb_done_ch b \<noteq> None \<and> \<not> gb_timer b"
    "gb_requests b \<noteq> [] \<Longrightarrow> gb_building b \<or> gb_done_ch b = None \<Longrightarrow> has_lock b"
    "gb_timer b \<Longrightarrow> gb_done_ch b = None \<Longrightarrow> has_lock b"
    "gb_done_ch b \<noteq> None \<Longrightarrow> gb_requests b \<noteq> [] \<or> gb_timer b \<or> gb_building b"
  using assms unfolding prompt_inv_def by blast+

lemma has_lock_other:
  assumes "has_lock b" and "\<And>c. gb_calls b i = Some c \<Longrightarrow> bc_pc c \<noteq> B_lock"
    and "gb_calls b' = (gb_calls b)(i \<mapsto> d)"
  shows "has_lock b'"
proof -
  obtain j c where "gb_calls b j = Some c" "bc_pc c = B_lock"
    using assms(1) by (auto simp: has_lock_def)
  with assms(2,3) have "gb_calls b' j = Some c" by (cases "j = i") auto
  with \<open>bc_pc c = B_lock\<close> show ?thesis by (auto simp: has_lock_def)
qed

text \<open>A call that moves on keeps the invariant if its own part holds afterwards.\<close>

lemma prompt_inv_move:
  assumes "prompt_inv b" and "gb_calls b i = Some c" and "bc_pc c \<noteq> B_lock"
    and "b' = set_call i c pc b" and "prompt_call b (c\<lparr>bc_pc := pc\<rparr>)"
  shows "prompt_inv b'"
proof -
  have "prompt_call b' = prompt_call b" by (simp add: assms(4) set_call_def prompt_call_def fun_eq_iff)
  moreover have "has_lock b'" if "has_lock b"
    using assms(2-4) by (intro has_lock_other [OF that, of i]) (simp_all add: set_call_def)
  ultimately show ?thesis
    using assms(1,5) unfolding prompt_inv_def by (auto simp: assms(4) set_call_def)
qed

lemma prompt_call_new: "prompt_call b \<lparr>bc_pkg = pkg, bc_logger = lg, bc_pc = B_send\<rparr>"
  by (simp add: prompt_call_def)

lemma prompt_inv_build:
  assumes inv: "prompt_inv b" and "op_build i pkg lg b = Some b'"
  shows "prompt_inv b'"
  using assms(2)
proof (cases rule: op_build_cases)
  case 1
  have "prompt_call b' = prompt_call b" by (simp add: 1 prompt_call_def fun_eq_iff)
  moreover have "has_lock b'" if "has_lock b"
    using 1 by (intro has_lock_other [OF that, of i]) simp_all
  ultimately show ?thesis
    using inv prompt_call_new [of b] unfolding prompt_inv_def by (auto simp: 1(2))
qed

lemma prompt_inv_send:
  assumes inv: "prompt_inv b" and "op_send_request i b = Some b'"
  shows "prompt_inv b'"
  using assms(2)
proof (cases rule: op_send_request_cases)
  case (1 c)
  have "has_lock b'" by (auto simp: has_lock_def 1(4) set_call_def)
  moreover have "prompt_call b' d" if "prompt_call b d \<or> d = c\<lparr>bc_pc := B_lock\<rparr>" for d
    using that by (auto simp: 1(4) set_call_def prompt_call_def)
  ultimately show ?thesis
    using inv unfolding prompt_inv_def by (auto simp: 1(4) set_call_def)
qed

lemma prompt_inv_register:
  assumes inv: "prompt_inv b" and "op_register i b = Some b'"
  shows "prompt_inv b'"
  using assms(2)
proof (cases rule: op_register_cases)
  case (1 c)
  have own: "gb_requests b \<noteq> [] \<or> gb_timer b"
    using prompt_invD(1) [OF inv 1(1)] 1(2) by (simp add: prompt_call_def)
  have done': "gb_done_ch b' \<noteq> None" by (simp add: 1(4) set_call_def)
  have "prompt_call b' d" if "prompt_call b d \<or> d = c\<lparr>bc_pc := B_read\<rparr>" for d
    using that 1(3) by (auto simp: 1(4) set_call_def prompt_call_def)
  with own done' inv 1(3) show ?thesis
    unfolding prompt_inv_def by (auto simp: 1(4) set_call_def)
qed

lemma prompt_inv_read:
  assumes inv: "prompt_inv b" and b: "builder_inv b" and "op_read_done i b = Some b'"
  shows "prompt_inv b'"
  using assms(3)
proof (cases rule: op_read_done_cases)
  case (1 c)
  then obtain k where k: "gb_done_ch b = Some k" "\<not> gb_building b"
    using prompt_invD(1) [OF inv 1(1)] by (auto simp: prompt_call_def)
  moreover have "k \<notin> gb_closed b" using b k by (simp add: builder_inv_def)
  ultimately show ?thesis
    using 1 by (intro prompt_inv_move [OF inv 1(1) _ 1(3)]) (auto simp: prompt_call_def)
qed

lemma prompt_inv_woken:
  assumes inv: "prompt_inv b" and "op_woken i b = Some b'"
  shows "prompt_inv b'"
  using assms(2)
proof (cases rule: op_woken_cases)
  case (1 c k)
  then have "bc_pkg c \<in> built_packages b"
    using prompt_invD(1) [OF inv 1(1)] by (simp add: prompt_call_def)
  with 1 show ?thesis
    by (intro prompt_inv_move [OF inv 1(1) _ 1(4)]) (auto simp: prompt_call_def)
qed

lemma prompt_inv_result:
  assumes inv: "prompt_inv b" and "op_result i b = Some b'"
  shows "prompt_inv b'"
  using assms(2)
proof (cases rule: op_result_cases)
  case (1 c)
  then have "bc_pkg c \<in> built_packages b"
    using prompt_invD(1) [OF inv 1(1)] by (simp add: prompt_call_def)
  with 1 show ?thesis
    by (intro prompt_inv_move [OF inv 1(1) _ 1(3)]) (auto simp: prompt_call_def)
qed

lemma prompt_inv_request:
  assumes inv: "prompt_inv b" and "op_request b = Some b'"
  shows "prompt_inv b'"
  using assms(2)
proof (cases rule: op_request_cases)
  case (1 pkg lg rest)
  have "prompt_call b' c" if "prompt_call b c" for c
    using that 1(2) by (auto simp: 1(3) prompt_call_def built_packages_def)
  moreover have "has_lock b' = has_lock b" by (simp add: 1(3) has_lock_def)
  ultimately show ?thesis using inv 1(1,2) unfolding prompt_inv_def by (auto simp: 1(3))
qed

lemma prompt_inv_timer:
  assumes inv: "prompt_inv b" "builder_inv b" and "op_timer b = Some b'" and prompt: "prompt b"
  shows "prompt_inv b'"
  using assms(3)
proof (cases rule: op_timer_cases)
  case 1
  have quiet: "gb_requests b = []" "\<not> has_lock b"
    "\<And>i c. gb_calls b i = Some c \<Longrightarrow> bc_pc c \<noteq> B_lock \<and> bc_pc c \<noteq> B_read"
    using prompt by (auto simp: prompt_def has_lock_def)
  have "prompt_call b' c" if "gb_calls b i = Some c" for i c
  proof -
    have "bc_pkg c \<in> gb_packages b \<union> built_packages b" if "bc_pc c = B_wait k" for k
      using inv(2) \<open>gb_calls b i = Some c\<close> quiet(1) that by (fastforce simp: builder_inv_def call_inv_def)
    with prompt_invD(1) [OF inv(1) that] quiet(3) [OF that] show ?thesis
      by (auto simp: 1(3) prompt_call_def built_packages_def)
  qed
  then show ?thesis
    using inv(1) quiet(1,2) 1(1) unfolding prompt_inv_def by (auto simp: 1(3))
qed

lemma prompt_inv_built:
  assumes inv: "prompt_inv b" "builder_inv b" and logged: "\<not> unlogged b" and act: "op_built err b = Some b'"
  shows "prompt_inv b'"
proof -
  have "gb_building b" using act by (simp add: op_built_def split: if_splits)
  with prompt_invD(3) [OF inv(1)] obtain k where k: "gb_done_ch b = Some k" "\<not> gb_timer b" "gb_building b"
    by auto
  with act have b': "b' = b\<lparr>gb_err := err, gb_built := gb_built b @ [(gb_packages b, err)],
      gb_closed := insert k (gb_closed b), gb_done_ch := None, gb_packages := {}, gb_loggers := {},
      gb_building := False\<rparr>"
    using logged by (auto simp: op_built_def Let_def split: if_splits)
  have built: "built_packages b' = built_packages b \<union> gb_packages b"
    by (auto simp: b' built_packages_def)
  have "prompt_call b' c" if "gb_calls b i = Some c" for i c
  proof -
    have "k' \<in> gb_closed b \<or> k' = k" if "bc_pc c = B_wait k'" for k'
      using inv(2) \<open>gb_calls b i = Some c\<close> that k(1) by (fastforce simp: builder_inv_def call_inv_def)
    with prompt_invD(1) [OF inv(1) that] k show ?thesis
      unfolding prompt_call_def built by (auto simp: b' past_wait_insert)
  qed
  moreover have "has_lock b' = has_lock b" by (simp add: b' has_lock_def)
  ultimately show ?thesis using inv(1) k(2,3) unfolding prompt_inv_def by (auto simp: b')
qed

lemma prompt_inv_action:
  assumes inv: "prompt_inv b" "builder_inv b" and logged: "\<not> unlogged b"
    and act: "do_build_action a b = Some b'" and prompt: "a = A_timer \<Longrightarrow> prompt b"
  shows "prompt_inv b'"
proof (cases a)
  case A_timer
  with act prompt prompt_inv_timer [OF inv] show ?thesis by simp
qed (use act in \<open>auto intro: prompt_inv_build [OF inv(1)] prompt_inv_send [OF inv(1)]
    prompt_inv_register [OF inv(1)] prompt_inv_read [OF inv] prompt_inv_woken [OF inv(1)]
    prompt_inv_result [OF inv(1)] prompt_inv_request [OF inv(1)] prompt_inv_built [OF inv logged]\<close>)

interpretation prompt_batches: invariant builder_starts prompt_step "\<lambda>b. builder_inv b \<and> logged_inv b" prompt_inv
proof unfold_locales
  show "prompt_reachable s \<Longrightarrow> builder_inv s \<and> logged_inv s" for s
    using batches.inv_reachable [OF prompt_reachable_reachable] logged.inv_reachable by blast
  show "builder_starts s \<Longrightarrow> prompt_inv s" for s
    by (auto simp: builder_starts_def new_go_builder_def prompt_inv_def)
  show "prompt_inv s'" if "builder_inv s \<and> logged_inv s" "prompt_inv s" "prompt_step s s'" for s s'
    using that(3) prompt_inv_action [OF that(2)] that(1) logged_not_unlogged unfolding prompt_step_def by blast
qed

section \<open>The work that is left\<close>

text \<open>A bound on the steps that the calls there are can still cause.\<close>

fun pc_work :: "build_pc \<Rightarrow> nat" where
  "pc_work B_send = 12"
| "pc_work B_lock = 4"
| "pc_work B_read = 3"
| "pc_work (B_wait k) = 2"
| "pc_work B_result = 1"
| "pc_work pc = 0"

definition calls_work :: "(nat \<rightharpoonup> build_call) \<Rightarrow> nat" where
  "calls_work m = (\<Sum>i \<in> dom m. pc_work (bc_pc (the (m i))))"

definition build_work :: "builder \<Rightarrow> nat" where
  "build_work b = calls_work (gb_calls b) + 6 * length (gb_requests b) +
     (if gb_timer b then 2 else 0) + (if gb_building b then 1 else 0)"

lemma calls_work_upd:
  assumes "finite (dom m)" and "m i = Some c"
  shows "calls_work (m(i \<mapsto> d)) + pc_work (bc_pc c) = calls_work m + pc_work (bc_pc d)"
proof -
  have i: "i \<in> dom m" using assms(2) by auto
  then have "insert i (dom m) = dom m" by auto
  moreover have "(\<Sum>j \<in> dom m - {i}. pc_work (bc_pc (the ((m(i \<mapsto> d)) j)))) =
      (\<Sum>j \<in> dom m - {i}. pc_work (bc_pc (the (m j))))"
    by (rule sum.cong) auto
  ultimately show ?thesis
    using sum.remove [OF assms(1) i, of "\<lambda>j. pc_work (bc_pc (the (m j)))"]
      sum.remove [OF assms(1) i, of "\<lambda>j. pc_work (bc_pc (the ((m(i \<mapsto> d)) j)))"] assms(2)
    by (simp add: calls_work_def)
qed

lemma calls_finite: "prompt_reachable b \<Longrightarrow> finite (dom (gb_calls b))"
proof (induction rule: reachable_by.induct)
  case (initial s)
  then show ?case by (auto simp: builder_starts_def new_go_builder_def)
next
  case (step s s')
  then obtain a where "do_build_action a s = Some s'" by (auto simp: prompt_step_def)
  then have "\<exists>i. dom (gb_calls s') \<subseteq> insert i (dom (gb_calls s))"
    by (cases a) (auto simp: builder_ops set_call_def Let_def
        split: if_splits option.splits list.splits build_pc.splits prod.splits)
  with step(3) show ?case by (meson finite_insert finite_subset)
qed

lemma call_move:
  assumes "finite (dom (gb_calls b))" and "gb_calls b i = Some c"
  shows "calls_work (gb_calls (set_call i c pc b)) + pc_work (bc_pc c) = calls_work (gb_calls b) + pc_work pc"
    and "dom (gb_calls (set_call i c pc b)) = dom (gb_calls b)"
  using calls_work_upd [OF assms, of "c\<lparr>bc_pc := pc\<rparr>"] assms(2) by (auto simp: set_call_def)

text \<open>Every step of the calls there are uses up some of it, and keeps the calls.\<close>

lemma work_step_less:
  assumes "prompt_inv b" and logged: "\<not> unlogged b" and fin: "finite (dom (gb_calls b))" and "work_step b b'"
  shows "build_work b' < build_work b \<and> dom (gb_calls b') = dom (gb_calls b)"
proof -
  obtain a where act: "do_build_action a b = Some b'" and old: "\<And>i pkg lg. a \<noteq> A_build i pkg lg"
    using assms(4) by (auto simp: work_step_def)
  have ok: "\<not> gb_panicked b" "gb_building b \<Longrightarrow> gb_done_ch b \<noteq> None"
    using prompt_invD(2,3) [OF assms(1)] by auto
  show ?thesis
  proof (cases a)
    case (A_send_request i)
    then obtain c where c: "gb_calls b i = Some c" "bc_pc c = B_send"
      "b' = set_call i c B_lock (b\<lparr>gb_requests := gb_requests b @ [(bc_pkg c, bc_logger c)]\<rparr>)"
      using act by (auto elim: op_send_request_cases)
    with call_move [OF fin c(1), of B_lock] show ?thesis by (simp add: build_work_def set_call_def)
  next
    case (A_register i)
    then obtain c where c: "gb_calls b i = Some c" "bc_pc c = B_lock"
      "gb_calls b' = gb_calls (set_call i c B_read b)" "gb_requests b' = gb_requests b"
      "gb_timer b' = gb_timer b" "gb_building b' = gb_building b"
      using act by (auto simp: op_register_def at_call_def set_call_def split: option.splits if_splits)
    with call_move [OF fin c(1), of B_read] show ?thesis by (simp add: build_work_def)
  next
    case (A_read_done i)
    let ?pc = "case gb_done_ch b of None \<Rightarrow> B_wait_nil | Some k \<Rightarrow> B_wait k"
    from A_read_done obtain c where c: "gb_calls b i = Some c" "bc_pc c = B_read"
      "b' = set_call i c ?pc b"
      using act by (auto elim: op_read_done_cases)
    moreover have "pc_work ?pc \<le> 2" by (simp split: option.split)
    ultimately show ?thesis
      using call_move [OF fin c(1), of ?pc] by (simp add: build_work_def set_call_def)
  next
    case (A_woken i)
    then obtain c k where c: "gb_calls b i = Some c" "bc_pc c = B_wait k" "b' = set_call i c B_result b"
      using act by (auto elim: op_woken_cases)
    with call_move [OF fin c(1), of B_result] show ?thesis by (simp add: build_work_def set_call_def)
  next
    case (A_result i)
    then obtain c where c: "gb_calls b i = Some c" "bc_pc c = B_result"
      "b' = set_call i c (B_returned (gb_err b)) b"
      using act by (auto elim: op_result_cases)
    with call_move [OF fin c(1), of "B_returned (gb_err b)"] show ?thesis
      by (simp add: build_work_def set_call_def)
  next
    case A_request
    with act show ?thesis by (auto simp: op_request_def build_work_def split: if_splits list.splits)
  next
    case A_timer
    with act show ?thesis by (auto simp: op_timer_def build_work_def split: if_splits)
  next
    case (A_built err)
    with act ok logged show ?thesis
      by (auto simp: op_built_def build_work_def Let_def split: if_splits option.splits)
  qed (use old in blast)
qed

lemma work_steps:
  assumes "prompt_reachable b" and "(work_step ^^ n) b b'"
  shows "prompt_reachable b' \<and> n + build_work b' \<le> build_work b \<and> dom (gb_calls b') = dom (gb_calls b)"
  using assms(2)
proof (induction n arbitrary: b')
  case 0
  with assms(1) show ?case by simp
next
  case (Suc n)
  then obtain u where u: "(work_step ^^ n) b u" "work_step u b'" by auto
  note IH = Suc.IH [OF u(1)]
  then have u_ok: "prompt_reachable u" by blast
  have "prompt_reachable b'" using u_ok work_step_prompt [OF u(2)] by (rule reachable_by.step)
  with work_step_less [OF prompt_batches.inv_reachable [OF u_ok]
      logged_not_unlogged [OF logged.inv_reachable [OF u_ok]] calls_finite [OF u_ok] u(2)] IH
  show ?case by auto
qed

section \<open>Where it ends\<close>

lemma rest_returned:
  assumes "prompt_inv b" and "builder_inv b" and rest: "\<And>b'. \<not> work_step b b'" and i: "gb_calls b i = Some c"
  shows "\<exists>e. bc_pc c = B_returned e"
proof -
  have no: "do_build_action a b = None" if "\<And>j pkg lg. a \<noteq> A_build j pkg lg" "a = A_timer \<Longrightarrow> prompt b" for a
    using rest that unfolding work_step_def by (metis not_None_eq)
  have build: "\<not> gb_building b"
    using no [of "A_built None"] prompt_invD(2,3) [OF assms(1)] by (auto simp: op_built_def Let_def split: if_splits)
  then have req: "gb_requests b = []"
    using no [of A_request] prompt_invD(2) [OF assms(1)] by (auto simp: op_request_def split: if_splits list.splits)
  have at: "at_call j f b = f d" if "gb_calls b j = Some d" for j f d
    using that by (simp add: at_call_def)
  have pcs: "bc_pc d \<noteq> B_send \<and> bc_pc d \<noteq> B_lock \<and> bc_pc d \<noteq> B_read \<and> bc_pc d \<noteq> B_result \<and>
      (\<forall>k. bc_pc d = B_wait k \<longrightarrow> k \<notin> gb_closed b)" if j: "gb_calls b j = Some d" for j d
    using no [of "A_send_request j"] no [of "A_register j"] no [of "A_read_done j"] no [of "A_result j"]
      no [of "A_woken j"] build req
    by (auto simp: op_send_request_def op_register_def op_read_done_def op_result_def op_woken_def at [OF j]
        split: if_splits)
  then have "prompt b" using req by (auto simp: prompt_def)
  then have "\<not> gb_timer b"
    using no [of A_timer] build prompt_invD(2) [OF assms(1)] by (auto simp: op_timer_def split: if_splits)
  with build req prompt_invD(6) [OF assms(1)] have "gb_done_ch b = None" by blast
  then have "bc_pc c \<noteq> B_wait k" for k
    using pcs [OF i] assms(2) i by (auto simp: builder_inv_def call_inv_def)
  moreover have "bc_pc c \<noteq> B_wait_nil" using prompt_invD(1) [OF assms(1) i] by (simp add: prompt_call_def)
  ultimately show ?thesis using pcs [OF i] by (cases "bc_pc c") auto
qed

text \<open>
  C38. Where the races do not strike, that is, where the timer is only received while the
  channel of requests is empty and no call is between its request and its wait, and where
  every call has a logger in its context or the builder logs to the console, the builder never
  panics, a call of \<open>Build\<close> that has returned did so after a build of its package, and no call is
  stuck: without new calls the machine takes at most \<open>build_work\<close> steps, and where it can take
  no more, every call has returned.
\<close>

theorem prompt_builds_return:
  assumes "prompt_reachable b"
  shows "\<not> gb_panicked b \<and>
    (\<forall>i c e. gb_calls b i = Some c \<longrightarrow> bc_pc c = B_returned e \<longrightarrow>
       (\<exists>(ps, err) \<in> set (gb_built b). bc_pkg c \<in> ps)) \<and>
    (\<forall>n b'. (work_step ^^ n) b b' \<longrightarrow> n \<le> build_work b \<and>
       ((\<nexists>b''. work_step b' b'') \<longrightarrow> dom (gb_calls b') = dom (gb_calls b) \<and>
          (\<forall>i c. gb_calls b' i = Some c \<longrightarrow> (\<exists>e. bc_pc c = B_returned e))))"
proof (intro conjI allI impI)
  note inv = prompt_batches.inv_reachable [OF assms]
  show "\<not> gb_panicked b" by (rule prompt_invD(2) [OF inv])
  show "\<exists>(ps, err) \<in> set (gb_built b). bc_pkg c \<in> ps"
    if "gb_calls b i = Some c" "bc_pc c = B_returned e" for i c e
    using prompt_invD(1) [OF inv that(1)] that(2) by (auto simp: prompt_call_def built_packages_def)
next
  fix n b'
  assume "(work_step ^^ n) b b'"
  from work_steps [OF assms this] have b': "prompt_reachable b'" "n + build_work b' \<le> build_work b"
    and dom: "dom (gb_calls b') = dom (gb_calls b)" by blast+
  show "n \<le> build_work b" using b'(2) by simp
  show "dom (gb_calls b') = dom (gb_calls b)" by (rule dom)
  show "\<exists>e. bc_pc c = B_returned e"
    if "\<nexists>b''. work_step b' b''" "gb_calls b' i = Some c" for i c
    using rest_returned [OF prompt_batches.inv_reachable [OF b'(1)] _ _ that(2)] that(1)
      batches.inv_reachable [OF prompt_reachable_reachable [OF b'(1)]] by blast
qed

definition one_build :: "build_action list" where
  "one_build = [A_build 0 ''a'' (Some 0), A_send_request 0, A_register 0, A_read_done 0, A_request]"

lemma prompt_actions:
  "build_actions as b = Some b' \<Longrightarrow> A_timer \<notin> set as \<Longrightarrow> \<forall>i pkg. A_build i pkg None \<notin> set as \<Longrightarrow>
     prompt_reachable b \<Longrightarrow> prompt_reachable b'"
proof (induction as arbitrary: b)
  case Nil
  then show ?case by simp
next
  case (Cons a as)
  then obtain b1 where "do_build_action a b = Some b1" "build_actions as b1 = Some b'"
    by (auto simp: bind_eq_Some_conv)
  moreover from this Cons.prems(2,3) have "prompt_step b b1" by (auto simp: prompt_step_def has_logger_def)
  ultimately show ?case using Cons by (auto intro: reachable_by.step)
qed

lemma one_build_eval:
  "\<exists>b b'. build_actions one_build (new_go_builder False) = Some b \<and> prompt b \<and>
     build_actions [A_timer, A_built None, A_woken 0, A_result 0] b = Some b'"
  by (simp add: one_build_def builder_ops set_call_def new_go_builder_def unlogged_def prompt_def)

theorem prompt_builds_return_witness:
  "\<exists>b b' c e. prompt_reachable b \<and> (work_step ^^ 4) b b' \<and> 4 \<le> build_work b \<and>
     gb_calls b' 0 = Some c \<and> bc_pc c = B_returned e"
proof -
  from one_build_eval obtain b b4 where b: "build_actions one_build (new_go_builder False) = Some b" "prompt b"
    and last: "build_actions [A_timer, A_built None, A_woken 0, A_result 0] b = Some b4" by blast
  from last obtain b1 b2 b3 where steps: "op_timer b = Some b1" "op_built None b1 = Some b2"
    "op_woken 0 b2 = Some b3" "op_result 0 b3 = Some b4"
    by (auto simp: bind_eq_Some_conv)
  have reach: "prompt_reachable b"
    by (rule prompt_actions [OF b(1)], simp_all add: one_build_def, rule reachable_by.initial)
      (auto simp: builder_starts_def)
  have "work_step b b1" unfolding work_step_def
    using steps(1) b(2) by (intro exI [where x = A_timer]) simp
  moreover have "work_step b1 b2" unfolding work_step_def
    using steps(2) by (intro exI [where x = "A_built None"]) simp
  moreover have "work_step b2 b3" unfolding work_step_def
    using steps(3) by (intro exI [where x = "A_woken 0"]) simp
  moreover have "work_step b3 b4" unfolding work_step_def
    using steps(4) by (intro exI [where x = "A_result 0"]) simp
  ultimately have path: "(work_step ^^ 4) b b4" by (auto simp: eval_nat_numeral)
  moreover from prompt_builds_return [OF reach] path have "4 \<le> build_work b" by blast
  moreover have "\<exists>c e. gb_calls b4 0 = Some c \<and> bc_pc c = B_returned e"
    using steps(4) by (auto simp: op_result_def at_call_def set_call_def split: option.splits if_splits)
  ultimately show ?thesis using reach by blast
qed

text \<open>
  Without promptness: a request that is taken up after the timer fired belongs to the next batch,
  whose channel is closed already; that build panics.
\<close>

lemma late_request_panics:
  "\<exists>b. build_actions (two_builds @ [A_timer, A_built None, A_request, A_timer, A_built None])
     (new_go_builder False) = Some b \<and> gb_panicked b"
  by (simp add: build_eval)

end
