(* ===== verification/GoWrap.thy ===== *)
theory GoWrap
  imports GoBuilder TaskExecution Wrapper
begin

text \<open>
  \<open>goextensions/builder.go\<close>, the rest: the command of a build, the standard library lookup, the
  saved dependencies of a package, and the task that \<open>WrapWithGoBuild\<close> makes. The effects
  of a build and of \<open>go list\<close> on the world are parameters of the wrapped task.
\<close>

section \<open>The command\<close>

text \<open>
  The runner of a build. \<open>ord\<close> is the order of the range over the packages; \<open>multi\<close> makes a
  writer of the writers of all requests, to which both outputs go unless the builder logs to
  the console, which has prefixed writers; a request without a logger is a nil pointer. \<open>emit\<close> writes to a writer.
\<close>

definition build_command :: "string list \<Rightarrow> string" where
  "build_command ord = ''go install -v '' @ join_with '' '' ord"

definition build_writers ::
  "(writer list \<Rightarrow> writer) \<Rightarrow> writer \<times> writer \<Rightarrow> bool \<Rightarrow> logger option list \<Rightarrow> (writer \<times> writer) outcome" where
  "build_writers multi console log_to_stdout ls =
     (if log_to_stdout then Return console
      else if None \<in> set ls then Panics ''nil pointer dereference''
      else Return (multi (map (lg_stdout \<circ> the) ls), multi (map (lg_stdout \<circ> the) ls)))"

definition build_option :: "writer \<Rightarrow> writer \<Rightarrow> string \<Rightarrow> run_option" where
  "build_option out err root r =
     (let r1 = r\<lparr>rn_stdout := Some out, rn_stderr := Some err\<rparr> in
      if root \<noteq> '''' then r1\<lparr>rn_dir := root\<rparr> else r1)"

definition run_build ::
  "(writer \<Rightarrow> string \<Rightarrow> 'w \<Rightarrow> 'w) \<Rightarrow> 'w shell_fn \<Rightarrow> go_ctx \<Rightarrow> (writer list \<Rightarrow> writer) \<Rightarrow>
   writer \<times> writer \<Rightarrow> bool \<Rightarrow> string \<Rightarrow> run_option list \<Rightarrow> string list \<Rightarrow> logger option list \<Rightarrow> 'w \<Rightarrow>
   (go_error option \<times> 'w) outcome" where
  "run_build emit sh ctx multi console log_to_stdout root opts ord ls w =
      bind_outcome (build_writers multi console log_to_stdout ls) (\<lambda>(out, err).
      let w1 = emit out (''building packages: '' @ join_with '' '' ord) w in
      bind_outcome (sh ctx (build_command ord) (build_option out err root # opts) w1) (\<lambda>(e, w2).
        Return (e, emit out (''done building packages'' @ [newline]) w2)))"

section \<open>Dependencies\<close>

text \<open>\<open>isStdLib\<close>: a look at the file system, remembered; \<open>stat\<close> says whether a package is there.\<close>

definition is_std_lib :: "(string \<Rightarrow> bool) \<Rightarrow> string \<Rightarrow> (string \<rightharpoonup> bool) \<Rightarrow> bool \<times> (string \<rightharpoonup> bool)" where
  "is_std_lib stat pkg memo =
     (case memo pkg of
        Some b \<Rightarrow> (b, memo)
      | None \<Rightarrow> (stat pkg, memo(pkg \<mapsto> stat pkg)))"

definition memo_of :: "(string \<Rightarrow> bool) \<Rightarrow> (string \<rightharpoonup> bool) \<Rightarrow> bool" where
  "memo_of stat memo \<longleftrightarrow> (\<forall>p b. memo p = Some b \<longrightarrow> b = stat p)"

lemma is_std_lib_memo:
  "memo_of stat memo \<Longrightarrow> fst (is_std_lib stat pkg memo) = stat pkg \<and>
     memo_of stat (snd (is_std_lib stat pkg memo))"
  by (auto simp: is_std_lib_def memo_of_def split: option.splits)

text \<open>\<open>strings.Contains\<close>.\<close>

fun has_infix :: "string \<Rightarrow> string \<Rightarrow> bool" where
  "has_infix [] sub \<longleftrightarrow> sub = []"
| "has_infix (c # s) sub \<longleftrightarrow> prefix sub (c # s) \<or> has_infix s sub"

lemma has_infix_iff: "has_infix s sub \<longleftrightarrow> (\<exists>p q. s = p @ sub @ q)"
proof (induction s)
  case Nil
  then show ?case by auto
next
  case (Cons c s)
  have "(\<exists>p q. c # s = p @ sub @ q) \<longleftrightarrow> (\<exists>q. c # s = sub @ q) \<or> (\<exists>p q. s = p @ sub @ q)"
    by (metis append_Cons append_Nil list.exhaust list.inject)
  with Cons show ?case by (simp add: prefix_def)
qed

definition parse_dependencies :: "string \<Rightarrow> string list" where
  "parse_dependencies out = split_on (CHR '' '') (trim_suffix (trim_prefix out ''['') '']'')"

text \<open>
  \<open>saveDependencies\<close>: the new dependencies of the binder, and an error; \<open>go_list\<close> runs a
  command and gives its error or its output.
\<close>

definition save_dependencies ::
  "(string \<Rightarrow> go_error + string) \<Rightarrow> string \<Rightarrow> string list option \<Rightarrow> go_error option \<times> string list option" where
  "save_dependencies go_list pkg deps =
     (case go_list (''go list -f '{{ .Deps }}' '' @ pkg) of
        Inl e \<Rightarrow> (Some e, deps)
      | Inr out \<Rightarrow> (None, Some (parse_dependencies out)))"

fun dependency_matches :: "(string \<Rightarrow> bool) \<Rightarrow> string \<Rightarrow> string list \<Rightarrow> bool" where
  "dependency_matches stat file [] = False"
| "dependency_matches stat file (dep # deps) =
     (if stat dep then dependency_matches stat file deps
      else if has_infix file dep then True else dependency_matches stat file deps)" 

definition binder_should_invalidate ::
  "(string \<Rightarrow> bool) \<Rightarrow> string \<Rightarrow> string list option \<Rightarrow> invalidation_event \<Rightarrow> bool" where
  "binder_should_invalidate stat pkg deps ev =
     (case ev of
        FileChange file \<Rightarrow>
          (case deps of
             None \<Rightarrow> True
           | Some ds \<Rightarrow>
               if \<not> has_suffix file ''.go'' then True
               else dependency_matches stat file (ds @ [pkg]))
      | _ \<Rightarrow> True)"

lemma dependency_matches_iff:
  "dependency_matches stat file deps \<longleftrightarrow> (\<exists>d \<in> set deps. \<not> stat d \<and> has_infix file d)"
  by (induction deps) auto

text \<open>
  go list ends its output with a newline, which hides the closing bracket: the last dependency
  keeps both, and no change of a file of that package invalidates.
\<close>

lemma last_dependency_kept:
  assumes "\<forall>d \<in> set ds. CHR '' '' \<notin> set d" and "CHR '' '' \<notin> set d"
  shows "parse_dependencies (''['' @ join_with '' '' (ds @ [d]) @ '']'' @ [newline]) = ds @ [d @ '']'' @ [newline]]"
proof -
  let ?t = "join_with '' '' (ds @ [d @ '']'' @ [newline]])"
  have "join_with '' '' (ds @ [d]) @ '']'' @ [newline] = join_with '' '' (ds @ [d @ '']'' @ [newline]])"
    by (induction ds) (simp_all add: join_with_Cons)
  moreover have "split_on (CHR '' '') (join_with '' '' (ds @ [d @ '']'' @ [newline]])) = ds @ [d @ '']'' @ [newline]]"
    using assms by (intro split_join) auto
  ultimately have full: "join_with '' '' (ds @ [d]) @ '']'' @ [newline] = ?t"
    and parts: "split_on (CHR '' '') ?t = ds @ [d @ '']'' @ [newline]]" by simp_all
  have "last ?t = newline" using full by (metis last_append last_snoc list.discI append_is_Nil_conv)
  then have "\<not> has_suffix ?t '']''" by (auto simp: suffix_def)
  with parts show ?thesis
    unfolding parse_dependencies_def full trim_prefix_append by (simp add: trim_suffix_def)
qed

lemma last_dependency_never_matches:
  "newline \<notin> set file \<Longrightarrow> \<not> has_infix file (d @ '']'' @ [newline])"
  by (auto simp: has_infix_iff)

section \<open>The wrapped task\<close>

definition inject_options :: "'w shell_fn \<Rightarrow> run_option list \<Rightarrow> 'w shell_fn" where
  "inject_options sh additional ctx command opts = sh ctx command (opts @ additional)"

text \<open>
  \<open>build\<close> is \<open>builder.Build\<close> and \<open>save\<close> \<open>saveDependencies\<close>, for the wrapped package; \<open>andThen\<close>
  sequences two calls and stops at the first error.
\<close>

definition and_then ::
  "('w \<Rightarrow> (go_error option \<times> 'w) outcome) \<Rightarrow> ('w \<Rightarrow> (go_error option \<times> 'w) outcome)
    \<Rightarrow> 'w \<Rightarrow> (go_error option \<times> 'w) outcome" where
  "and_then f h w = bind_outcome (f w) (\<lambda>(e, w'). if e \<noteq> None then Return (e, w') else h w')"

definition wrapped_run :: "'w run_fn \<Rightarrow> 'w run_fn \<Rightarrow> run_option list \<Rightarrow> 'w run_fn option \<Rightarrow> 'w run_fn" where
  "wrapped_run build save opts inner ctx sh =
     (let sh' = inject_options sh opts in
      and_then (build ctx sh') (and_then (save ctx sh')
        (case inner of None \<Rightarrow> (\<lambda>w. Return (None, w)) | Some run \<Rightarrow> run ctx sh')))"

definition wrapped_run_with_flags ::
  "'w run_fn \<Rightarrow> 'w run_fn \<Rightarrow> run_option list \<Rightarrow> 'w run_flags_fn option \<Rightarrow> 'w run_flags_fn" where
  "wrapped_run_with_flags build save opts inner ctx sh flags =
     (let sh' = inject_options sh opts in
      and_then (build ctx sh') (and_then (save ctx sh')
        (case inner of None \<Rightarrow> (\<lambda>w. Return (None, w)) | Some run \<Rightarrow> run ctx sh' flags)))"

definition wrap_with_go_build ::
  "'w run_fn \<Rightarrow> 'w run_fn \<Rightarrow> run_option list \<Rightarrow> (string \<Rightarrow> bool) \<Rightarrow> string \<Rightarrow> string list option
    \<Rightarrow> 'w task \<Rightarrow> 'w task" where
  "wrap_with_go_build build save opts stat pkg deps task =
     (let new_task =
        (if t_run task \<noteq> None
         then task\<lparr>t_run := Some (wrapped_run build save opts (t_run task))\<rparr>
         else task\<lparr>t_run_with_flags :=
                Some (wrapped_run_with_flags build save opts (t_run_with_flags task))\<rparr>) in
      new_task\<lparr>t_should_invalidate := Some (\<lambda>ev.
        let delegated = (case t_should_invalidate task of None \<Rightarrow> True | Some f \<Rightarrow> f ev) in
        binder_should_invalidate stat pkg deps ev \<and> delegated)\<rparr>)"

interpretation go_build: task_wrapper
  "\<lambda>task. Return (wrap_with_go_build build save opts stat pkg deps task)" "\<lambda>_. True"
  for build save opts stat pkg deps
  by unfold_locales (auto simp: wrap_with_go_build_def Let_def)

text \<open>The build fails, or it succeeds and the listing of dependencies fails.\<close>

definition preparation_fails ::
  "'w run_fn \<Rightarrow> 'w run_fn \<Rightarrow> go_ctx \<Rightarrow> 'w shell_fn \<Rightarrow> 'w \<Rightarrow> go_error \<Rightarrow> 'w \<Rightarrow> bool" where
  "preparation_fails build save ctx sh w e w' \<longleftrightarrow> build ctx sh w = Return (Some e, w') \<or>
     (\<exists>w1. build ctx sh w = Return (None, w1) \<and> save ctx sh w1 = Return (Some e, w'))"

lemma preparation_stops:
  "preparation_fails build save ctx sh w e w' \<Longrightarrow>
     and_then (build ctx sh) (and_then (save ctx sh) h) w = Return (Some e, w')"
  by (auto simp: preparation_fails_def and_then_def)

text \<open>
  C32. A wrapped task. The registry accepts it exactly when it accepts the task itself. When the
  build fails, or the build succeeds and the listing of the dependencies fails, the wrapped
  function returns that error and the world as it was left, so that the task's own function is
  not called; for a task with \<open>Run\<close>, and for any other with \<open>RunWithFlags\<close>. A change of a file
  invalidates the wrapped task exactly when the task's own test agrees and one of these holds:
  the dependencies are not known yet; the file is not a Go file; its path contains the package,
  or an entry of the parsed list of dependencies, that is not in the standard library. (The
  last entry of that list keeps a bracket and a newline, see \<open>last_dependency_kept\<close>.)
\<close>

theorem wrapped_task_contract:
  assumes "wrapped = wrap_with_go_build build save opts stat pkg deps task"
  shows "((\<exists>r. registry_add wrapped t reg = Return r) \<longleftrightarrow> (\<exists>r. registry_add task t reg = Return r)) \<and>
    (\<forall>run ctx sh w e w'. t_run wrapped = Some run \<and> t_run task \<noteq> None \<and>
       preparation_fails build save ctx (inject_options sh opts) w e w' \<longrightarrow> run ctx sh w = Return (Some e, w')) \<and>
    (\<forall>run ctx sh flags w e w'. t_run_with_flags wrapped = Some run \<and> t_run task = None \<and>
       preparation_fails build save ctx (inject_options sh opts) w e w' \<longrightarrow>
       run ctx sh flags w = Return (Some e, w')) \<and>
    (rejects (\<lambda>_. wrapped) t (FileChange path) \<longleftrightarrow>
       rejects (\<lambda>_. task) t (FileChange path) \<or>
       (\<exists>ds. deps = Some ds \<and> has_suffix path ''.go'' \<and>
          (\<forall>d \<in> set (ds @ [pkg]). stat d \<or> (\<nexists>p q. path = p @ d @ q))))"
proof -
  have add: "(\<exists>r. registry_add wrapped t reg = Return r) \<longleftrightarrow> (\<exists>r. registry_add task t reg = Return r)"
    using go_build.registered [OF _ TrueI, of build save opts stat pkg deps task wrapped]
    by (simp add: assms)
  have run: "run ctx sh w = Return (Some e, w')"
    if "t_run wrapped = Some run" "t_run task \<noteq> None"
      "preparation_fails build save ctx (inject_options sh opts) w e w'" for run ctx sh w e w'
  proof -
    have "run = wrapped_run build save opts (t_run task)"
      using that(1,2) by (simp add: assms wrap_with_go_build_def Let_def)
    with preparation_stops [OF that(3)] show ?thesis by (simp add: wrapped_run_def Let_def)
  qed
  have flags: "run ctx sh fl w = Return (Some e, w')"
    if "t_run_with_flags wrapped = Some run" "t_run task = None"
      "preparation_fails build save ctx (inject_options sh opts) w e w'" for run ctx sh fl w e w'
  proof -
    have "run = wrapped_run_with_flags build save opts (t_run_with_flags task)"
      using that(1,2) by (simp add: assms wrap_with_go_build_def Let_def)
    with preparation_stops [OF that(3)] show ?thesis by (simp add: wrapped_run_with_flags_def Let_def)
  qed
  have "rejects (\<lambda>_. wrapped) t (FileChange path) \<longleftrightarrow>
       rejects (\<lambda>_. task) t (FileChange path) \<or>
       (\<exists>ds. deps = Some ds \<and> has_suffix path ''.go'' \<and>
          (\<forall>d \<in> set (ds @ [pkg]). stat d \<or> (\<nexists>p q. path = p @ d @ q)))"
    by (auto simp: assms rejects_def wrap_with_go_build_def Let_def binder_should_invalidate_def
        dependency_matches_iff has_infix_iff split: option.splits)
  with add run flags show ?thesis by blast
qed

theorem wrapped_task_contract_witness:
  "rejects (\<lambda>_. wrap_with_go_build (\<lambda>ctx sh w. Return (None, w)) (\<lambda>ctx sh w. Return (None, w)) []
      (\<lambda>p. p = ''fmt'') ''app'' (Some [''fmt'', ''lib'']) (zero_task :: unit task)) 0
      (FileChange ''other/x.go'')"
  using wrapped_task_contract [OF refl, of "\<lambda>ctx sh w. Return (None, w)" "\<lambda>ctx sh w. Return (None, w)"
      "[]" "\<lambda>p. p = ''fmt''" "''app''" "Some [''fmt'', ''lib'']" "zero_task :: unit task" 0
      new_registry "''other/x.go''"]
  by (simp add: suffix_to_prefix flip: has_infix_iff)

end
