(* ===== verification/Tui.thy ===== *)
theory Tui
  imports Events
begin

text \<open>
  Package \<open>tui\<close>: the tabs, one for each task, with the selected one, the keys, and the scrolling
  of a log. Widgets are drawn by package tui-go; the height of a log's content and the size of
  its area are given by it. \<open>image.Point\<close> has int coordinates.
\<close>

section \<open>Scrolling\<close>

definition tui_clamp :: "int \<Rightarrow> int \<Rightarrow> int \<Rightarrow> int" where
  "tui_clamp n lo hi = (if n < lo then hi else if n > hi then lo else n)"

record scroll_area =
  sa_x :: int
  sa_y :: int
  sa_autoscroll :: bool
  sa_height :: int        \<comment> \<open>\<open>Size().Y\<close>\<close>
  sa_content :: int       \<comment> \<open>\<open>Widget.SizeHint().Y\<close>\<close>

definition scroll_bottom :: "scroll_area \<Rightarrow> bool" where
  "scroll_bottom s \<longleftrightarrow> sa_y s > sa_content s - sa_height s"

definition scroll_top :: "scroll_area \<Rightarrow> bool" where
  "scroll_top s \<longleftrightarrow> sa_y s < 0"

definition scroll_filled :: "scroll_area \<Rightarrow> bool" where
  "scroll_filled s \<longleftrightarrow> sa_height s - sa_content s < 0"

definition scroll_to_bottom :: "scroll_area \<Rightarrow> scroll_area" where
  "scroll_to_bottom s = s\<lparr>sa_y := sa_content s - sa_height s\<rparr>"

definition scroll_to_top :: "scroll_area \<Rightarrow> scroll_area" where
  "scroll_to_top s = s\<lparr>sa_y := 0\<rparr>"

definition scroll :: "int \<Rightarrow> int \<Rightarrow> scroll_area \<Rightarrow> scroll_area" where
  "scroll dx dy s =
     (if \<not> scroll_filled s then s
      else
        (let s1 = s\<lparr>sa_x := sa_x s + dx, sa_y := sa_y s + dy, sa_autoscroll := False\<rparr>;
             s2 = (if scroll_top s1 then scroll_to_top s1 else s1) in
         if scroll_bottom s2 then scroll_to_bottom (s2\<lparr>sa_autoscroll := True\<rparr>) else s2))"

definition scroll_resize :: "int \<Rightarrow> scroll_area \<Rightarrow> scroll_area" where
  "scroll_resize height s =
     (let s1 = s\<lparr>sa_height := height\<rparr> in
      if sa_autoscroll s1 \<and> scroll_filled s1 then scroll_to_bottom s1 else s1)"

definition new_scroll_area :: scroll_area where
  "new_scroll_area = \<lparr>sa_x = 0, sa_y = 0, sa_autoscroll = True, sa_height = 0, sa_content = 0\<rparr>"

definition scroll_in_view :: "scroll_area \<Rightarrow> bool" where
  "scroll_in_view s \<longleftrightarrow> 0 \<le> sa_y s \<and> sa_y s \<le> sa_content s - sa_height s"

text \<open>The rows of the content that \<open>Draw\<close> lets through its mask.\<close>

definition drawn_rows :: "scroll_area \<Rightarrow> int set" where
  "drawn_rows s = {sa_y s ..< sa_y s + sa_height s}"

lemma scroll_bounds: "scroll_filled s \<Longrightarrow> scroll_in_view (scroll dx dy s)"
  by (auto simp: scroll_def scroll_filled_def scroll_in_view_def scroll_top_def scroll_bottom_def
      scroll_to_top_def scroll_to_bottom_def Let_def)

lemma scroll_draws_content:
  assumes "scroll_filled s"
  shows "drawn_rows (scroll dx dy s) \<subseteq> {0..<sa_content s}"
proof -
  have "sa_content (scroll dx dy s) = sa_content s"
    by (simp add: scroll_def scroll_to_top_def scroll_to_bottom_def Let_def)
  with scroll_bounds [OF assms, of dx dy] show ?thesis by (auto simp: drawn_rows_def scroll_in_view_def)
qed

lemma autoscroll_follows:
  "sa_autoscroll s \<Longrightarrow> scroll_filled (s\<lparr>sa_height := h, sa_content := n\<rparr>) \<Longrightarrow>
     sa_y (scroll_resize h (s\<lparr>sa_content := n\<rparr>)) = n - h"
  by (simp add: scroll_resize_def scroll_filled_def scroll_to_bottom_def Let_def)

section \<open>Tabs\<close>

record ui_tab =
  tb_task :: tid
  tb_label :: string
  tb_lines :: "string list"
  tb_scroll :: scroll_area
  tb_style :: string

record tab_widget =
  tw_index :: "tid \<rightharpoonup> nat"
  tw_tabs :: "ui_tab list"
  tw_selected :: int
  tw_view :: "tid option"       \<comment> \<open>the task whose log is shown\<close>
  tw_restarts :: nat            \<comment> \<open>goroutines of the key \<open>r\<close> that have not run yet\<close>
  tw_invalidated :: "tid list"  \<comment> \<open>calls of \<open>Executor.Invalidate\<close> with \<open>UserRestart\<close>\<close>

definition style_tabs :: "tab_widget \<Rightarrow> tab_widget" where
  "style_tabs w = w\<lparr>tw_tabs :=
     map (\<lambda>i. (tw_tabs w ! i)\<lparr>tb_style := (if int i = tw_selected w then ''tab-selected'' else ''tab'')\<rparr>)
       [0..<length (tw_tabs w)]\<rparr>"

definition new_tab_widget :: tab_widget where
  "new_tab_widget = \<lparr>tw_index = Map.empty, tw_tabs = [], tw_selected = 0, tw_view = None,
     tw_restarts = 0, tw_invalidated = []\<rparr>"

definition new_log_view :: scroll_area where
  "new_log_view = scroll_to_bottom new_scroll_area"

definition populate :: "(tid \<Rightarrow> 'w task) \<Rightarrow> tid \<Rightarrow> tab_widget \<Rightarrow> tab_widget" where
  "populate g t w =
     (let tabs = tw_tabs w @ [\<lparr>tb_task = t, tb_label = t_name (g t), tb_lines = [],
        tb_scroll = new_log_view, tb_style = []\<rparr>] in
      style_tabs (w\<lparr>tw_tabs := tabs, tw_index := (tw_index w)(t \<mapsto> length tabs - 1)\<rparr>))"

definition current_tab :: "tab_widget \<Rightarrow> nat outcome" where
  "current_tab w =
     (if 0 \<le> tw_selected w \<and> tw_selected w < int (length (tw_tabs w))
      then Return (nat (tw_selected w)) else Panics ''index out of range'')"

definition set_view :: "tid \<Rightarrow> tab_widget \<Rightarrow> tab_widget" where
  "set_view t w = w\<lparr>tw_view := Some t\<rparr>"

definition select_tab :: "int \<Rightarrow> tab_widget \<Rightarrow> tab_widget outcome" where
  "select_tab n w =
     (let w1 = style_tabs (w\<lparr>tw_selected := tui_clamp n 0 (int (length (tw_tabs w)) - 1)\<rparr>) in
      bind_outcome (current_tab w1) (\<lambda>i. Return (set_view (tb_task (tw_tabs w1 ! i)) w1)))"

definition build_tab_list :: "(tid \<Rightarrow> 'w task) \<Rightarrow> tid list \<Rightarrow> tab_widget \<Rightarrow> tab_widget outcome" where
  "build_tab_list g tasks w = select_tab 0 (fold (populate g) tasks w)"

definition scroll_current :: "int \<Rightarrow> tab_widget \<Rightarrow> tab_widget outcome" where
  "scroll_current dy w =
     bind_outcome (current_tab w) (\<lambda>i. Return (w\<lparr>tw_tabs := (tw_tabs w)[i :=
       (tw_tabs w ! i)\<lparr>tb_scroll := scroll 0 dy (tb_scroll (tw_tabs w ! i))\<rparr>]\<rparr>))"

definition next_tab :: "tab_widget \<Rightarrow> tab_widget outcome" where
  "next_tab w = select_tab (tw_selected w + 1) w"

definition previous_tab :: "tab_widget \<Rightarrow> tab_widget outcome" where
  "previous_tab w = select_tab (tw_selected w - 1) w"

definition scroll_up :: "tab_widget \<Rightarrow> tab_widget outcome" where
  "scroll_up w = scroll_current 5 w"

definition scroll_down :: "tab_widget \<Rightarrow> tab_widget outcome" where
  "scroll_down w = scroll_current (- 5) w"

text \<open>
  \<open>OnKeyEvent\<close> looks at the rune and then at the key. The key \<open>r\<close> starts a goroutine, which
  asks for the current tab when it runs.
\<close>

datatype tui_key = Key_other | Key_tab | Key_backtab | Key_ctrl_u | Key_down | Key_ctrl_d | Key_up

definition on_rune :: "char \<Rightarrow> tab_widget \<Rightarrow> tab_widget outcome" where
  "on_rune r w =
     (if r = CHR ''j'' then next_tab w
      else if r = CHR ''k'' then previous_tab w
      else if r = CHR ''r'' then
        Return (w\<lparr>tw_restarts := Suc (tw_restarts w)\<rparr>)
      else Return w)"

definition run_restart :: "tab_widget \<Rightarrow> tab_widget outcome" where
  "run_restart w =
     bind_outcome (current_tab w) (\<lambda>i. Return (w\<lparr>tw_restarts := tw_restarts w - 1,
       tw_invalidated := tw_invalidated w @ [tb_task (tw_tabs w ! i)]\<rparr>))"

definition on_key :: "tui_key \<Rightarrow> tab_widget \<Rightarrow> tab_widget outcome" where
  "on_key k w =
     (case k of
        Key_tab \<Rightarrow> next_tab w
      | Key_backtab \<Rightarrow> previous_tab w
      | Key_ctrl_u \<Rightarrow> scroll_down w
      | Key_down \<Rightarrow> scroll_down w
      | Key_ctrl_d \<Rightarrow> scroll_up w
      | Key_up \<Rightarrow> scroll_up w
      | Key_other \<Rightarrow> Return w)"

definition on_key_event :: "char \<times> tui_key \<Rightarrow> tab_widget \<Rightarrow> tab_widget outcome" where
  "on_key_event ev w = bind_outcome (on_rune (fst ev) w) (on_key (snd ev))"

fun on_key_events :: "(char \<times> tui_key) list \<Rightarrow> tab_widget \<Rightarrow> tab_widget outcome" where
  "on_key_events [] w = Return w"
| "on_key_events (ev # evs) w = bind_outcome (on_key_event ev w) (on_key_events evs)"

text \<open>\<open>UI.Subscribe\<close>: an event's messages are appended to the log of its task's tab.\<close>

definition append_line :: "string \<Rightarrow> ui_tab \<Rightarrow> ui_tab" where
  "append_line msg tab = tab\<lparr>tb_lines := tb_lines tab @ [trim_suffix msg [newline]]\<rparr>"

definition tab_of :: "tid \<Rightarrow> tab_widget \<Rightarrow> nat option" where
  "tab_of t w = tw_index w t"

definition ui_event :: "(nat \<Rightarrow> string) \<Rightarrow> (tid \<Rightarrow> 'w task) \<Rightarrow> executor_event \<Rightarrow> tab_widget \<Rightarrow> tab_widget" where
  "ui_event secs g ev w =
     (case event_task ev of
        None \<Rightarrow> w
      | Some t \<Rightarrow>
          (case tab_of t w of
             None \<Rightarrow> w
           | Some i \<Rightarrow> w\<lparr>tw_tabs := (tw_tabs w)[i :=
               fold append_line (tui_messages secs g ev) (tw_tabs w ! i)]\<rparr>))"

section \<open>The selection cycles\<close>

lemma style_tabs_simps [simp]:
  "length (tw_tabs (style_tabs w)) = length (tw_tabs w)" "tw_selected (style_tabs w) = tw_selected w"
  "tw_index (style_tabs w) = tw_index w" "tw_invalidated (style_tabs w) = tw_invalidated w"
  "map tb_task (tw_tabs (style_tabs w)) = map tb_task (tw_tabs w)"
  by (simp_all add: style_tabs_def) (rule nth_equalityI, simp_all)

definition key_moves :: "char \<times> tui_key \<Rightarrow> int" where
  "key_moves ev =
     (if fst ev = CHR ''j'' then 1 else if fst ev = CHR ''k'' then - 1 else 0) +
     (if snd ev = Key_tab then 1 else if snd ev = Key_backtab then - 1 else 0)"

text \<open>A tab is selected, and the log that is shown is its own.\<close>

definition on_tab :: "tab_widget \<Rightarrow> bool" where
  "on_tab w \<longleftrightarrow> 0 \<le> tw_selected w \<and> tw_selected w < int (length (tw_tabs w)) \<and>
     tw_view w = Some (tb_task (tw_tabs w ! nat (tw_selected w)))"

lemma clamp_next: "0 \<le> s \<Longrightarrow> s < n \<Longrightarrow> tui_clamp (s + 1) 0 (n - 1) = (s + 1) mod n"
  by (cases "s + 1 = n") (simp_all add: tui_clamp_def)

lemma clamp_previous: "0 \<le> s \<Longrightarrow> s < n \<Longrightarrow> tui_clamp (s - 1) 0 (n - 1) = (s - 1) mod n"
proof (cases "s = 0")
  case True
  assume "0 \<le> s" "s < n"
  with True have "(s - 1) mod n = n - 1" by (simp add: zmod_minus1)
  with True show ?thesis by (simp add: tui_clamp_def)
qed (simp add: tui_clamp_def)

lemma on_tab_bounds: "on_tab w \<Longrightarrow> 0 \<le> tw_selected w" "on_tab w \<Longrightarrow> tw_selected w < int (length (tw_tabs w))"
  by (simp_all add: on_tab_def)

lemma select_tab_moves:
  assumes "on_tab w" and "tui_clamp n 0 (int (length (tw_tabs w)) - 1) = m mod int (length (tw_tabs w))"
  shows "\<exists>w'. select_tab n w = Return w' \<and> on_tab w' \<and> length (tw_tabs w') = length (tw_tabs w) \<and>
    tw_selected w' = m mod int (length (tw_tabs w))"
proof -
  have "0 < int (length (tw_tabs w))" using assms(1) unfolding on_tab_def by linarith
  then have "0 \<le> m mod int (length (tw_tabs w))" "m mod int (length (tw_tabs w)) < int (length (tw_tabs w))"
    by (rule pos_mod_sign, rule pos_mod_bound)
  with assms show ?thesis by (simp add: select_tab_def current_tab_def set_view_def on_tab_def Let_def)
qed

definition moves_to :: "tab_widget outcome \<Rightarrow> tab_widget \<Rightarrow> int \<Rightarrow> bool" where
  "moves_to r w d \<longleftrightarrow> (\<exists>w'. r = Return w' \<and> on_tab w' \<and> length (tw_tabs w') = length (tw_tabs w) \<and>
     tw_selected w' = (tw_selected w + d) mod int (length (tw_tabs w)))"

lemma moves_toI:
  assumes "on_tab w" and "r = Return w'" and "tw_selected w' = tw_selected w"
    and "map tb_task (tw_tabs w') = map tb_task (tw_tabs w)" and "tw_view w' = tw_view w"
  shows "moves_to r w 0"
proof -
  have len: "length (tw_tabs w') = length (tw_tabs w)" using assms(4) by (rule map_eq_imp_length_eq)
  have "nat (tw_selected w) < length (tw_tabs w)" using assms(1) unfolding on_tab_def by linarith
  with assms(4) len have "tb_task (tw_tabs w' ! nat (tw_selected w)) = tb_task (tw_tabs w ! nat (tw_selected w))"
    by (metis nth_map)
  with assms len show ?thesis by (simp add: moves_to_def on_tab_def)
qed

lemma select_tab_moves_to:
  assumes "on_tab w"
  shows "moves_to (select_tab (tw_selected w + 1) w) w 1" "moves_to (select_tab (tw_selected w - 1) w) w (- 1)"
  using select_tab_moves [OF assms clamp_next [OF on_tab_bounds [OF assms]]]
    select_tab_moves [OF assms clamp_previous [OF on_tab_bounds [OF assms]]]
  by (simp_all add: moves_to_def)

lemma on_rune_moves:
  assumes "on_tab w"
  shows "moves_to (on_rune r w) w (if r = CHR ''j'' then 1 else if r = CHR ''k'' then - 1 else 0)"
proof -
  have "moves_to (select_tab (tw_selected w + 1) w) w 1" "moves_to (select_tab (tw_selected w - 1) w) w (- 1)"
    by (rule select_tab_moves_to [OF assms])+
  moreover have "moves_to (Return (w\<lparr>tw_restarts := Suc (tw_restarts w)\<rparr>)) w 0" "moves_to (Return w) w 0"
    by (rule moves_toI [OF assms refl]; simp)+
  ultimately show ?thesis by (simp add: on_rune_def next_tab_def previous_tab_def)
qed

lemma on_key_moves:
  assumes "on_tab w"
  shows "moves_to (on_key k w) w (if k = Key_tab then 1 else if k = Key_backtab then - 1 else 0)"
proof -
  have scroll: "moves_to (scroll_current dy w) w 0" for dy
  proof (rule moves_toI [OF assms])
    let ?i = "nat (tw_selected w)"
    let ?tabs = "(tw_tabs w)[?i := (tw_tabs w ! ?i)\<lparr>tb_scroll := scroll 0 dy (tb_scroll (tw_tabs w ! ?i))\<rparr>]"
    show "scroll_current dy w = Return (w\<lparr>tw_tabs := ?tabs\<rparr>)"
      using on_tab_bounds [OF assms] by (simp add: scroll_current_def current_tab_def)
    show "map tb_task (tw_tabs (w\<lparr>tw_tabs := ?tabs\<rparr>)) = map tb_task (tw_tabs w)"
      using on_tab_bounds [OF assms] by (intro nth_equalityI) (simp_all add: nth_list_update)
  qed simp_all
  moreover have "moves_to (select_tab (tw_selected w + 1) w) w 1"
    "moves_to (select_tab (tw_selected w - 1) w) w (- 1)"
    by (rule select_tab_moves_to [OF assms])+
  moreover have "moves_to (Return w) w 0" by (rule moves_toI [OF assms]) simp_all
  ultimately show ?thesis by (cases k) (simp_all add: on_key_def next_tab_def previous_tab_def
      scroll_up_def scroll_down_def)
qed

lemma moves_to_bind:
  assumes "moves_to r w d" and "\<And>w'. on_tab w' \<Longrightarrow> moves_to (f w') w' e"
  shows "moves_to (bind_outcome r f) w (d + e)"
proof -
  from assms(1) obtain w' where w': "r = Return w'" "on_tab w'" "length (tw_tabs w') = length (tw_tabs w)"
    "tw_selected w' = (tw_selected w + d) mod int (length (tw_tabs w))"
    unfolding moves_to_def by blast
  from assms(2) [OF w'(2)] w' show ?thesis
    by (auto simp: moves_to_def mod_simps add.assoc)
qed

text \<open>
  C36. The selection of tabs cycles: with at least one tab no sequence of keys makes the
  interface panic, the selected tab always exists and its log is the one shown, and its index is the number of moves
  forward less the number of moves back, modulo the number of tabs.
\<close>

theorem tab_selection_cycles:
  assumes "tasks \<noteq> []"
  shows "\<exists>w w'. build_tab_list g tasks new_tab_widget = Return w \<and> on_key_events evs w = Return w' \<and>
    length (tw_tabs w') = length tasks \<and> on_tab w' \<and>
    tw_selected w' = sum_list (map key_moves evs) mod int (length tasks)"
proof -
  have len: "length (tw_tabs (fold (populate g) ts w)) = length (tw_tabs w) + length ts" for ts w
    by (induction ts arbitrary: w) (simp_all add: populate_def Let_def)
  define w1 where "w1 = style_tabs ((fold (populate g) tasks new_tab_widget)\<lparr>tw_selected := 0\<rparr>)"
  define w0 where "w0 = set_view (tb_task (tw_tabs w1 ! 0)) w1"
  have w0: "build_tab_list g tasks new_tab_widget = Return w0" "on_tab w0" "tw_selected w0 = 0"
    "length (tw_tabs w0) = length tasks"
    using assms len [of tasks new_tab_widget]
    by (auto simp: build_tab_list_def select_tab_def tui_clamp_def current_tab_def w0_def w1_def on_tab_def set_view_def
        new_tab_widget_def Let_def)
  have "moves_to (on_key_events evs w) w (sum_list (map key_moves evs))" if "on_tab w" for w
    using that
  proof (induction evs arbitrary: w)
    case Nil
    then show ?case by (simp add: moves_toI)
  next
    case (Cons ev evs)
    have "moves_to (on_key_event ev w) w (key_moves ev)"
      unfolding on_key_event_def key_moves_def
      by (rule moves_to_bind [OF on_rune_moves [OF Cons.prems] on_key_moves])
    then show ?case by (auto intro: moves_to_bind Cons.IH)
  qed
  from this [OF w0(2)] w0 show ?thesis unfolding moves_to_def by auto
qed

theorem tab_selection_cycles_witness:
  "\<exists>w w'. build_tab_list (\<lambda>t. zero_task) [7, 8, 9] new_tab_widget = Return w \<and>
     on_key_events [(CHR ''k'', Key_other), (CHR '' '', Key_backtab), (CHR ''r'', Key_up)] w = Return w' \<and>
     tw_selected w' = 1"
  using tab_selection_cycles [of "[7, 8, 9]" "\<lambda>t. zero_task"
      "[(CHR ''k'', Key_other), (CHR '' '', Key_backtab), (CHR ''r'', Key_up)]"]
  by (auto simp: key_moves_def)

lemma no_tasks_panic: "build_tab_list g [] new_tab_widget = Panics ''index out of range''"
  by (simp add: build_tab_list_def select_tab_def tui_clamp_def current_tab_def new_tab_widget_def
      style_tabs_def Let_def)

end
