(* ===== verification/TuiSession.thy ===== *)
theory TuiSession
  imports Tui
begin

text \<open>
  How a session of the terminal interface ends: the handler of interrupt signals
  (\<open>process.go\<close>), whose function cancels the context of the run (\<open>runner.go\<close>), and the life of the
  interface (\<open>tui/tui.go\<close>): its goroutines, the key that quits, which signals the process, and
  the loop over the executor's events. The machine's steps are the accesses to shared state.
  Of the event loop of tui-go (\<open>ui_tcell.go\<close>) it has what the interface waits for: the loop runs the
  handlers of keys and the functions given to \<open>Update\<close>, which wait for it, and it returns when it
  receives from the channel, of capacity 1, to which \<open>Quit\<close> sends.
\<close>

section \<open>Interrupt signals\<close>

datatype os_signal = SIGINT | SIGTERM | SIGHUP

text \<open>The channel of capacity 1, whether the goroutine waits for it, and the calls of its function.\<close>

record interrupt =
  in_chan :: "os_signal list"
  in_waiting :: bool
  in_calls :: nat

definition on_interrupt_signal :: interrupt where
  "on_interrupt_signal = \<lparr>in_chan = [], in_waiting = True, in_calls = 0\<rparr>"

text \<open>\<open>signal.Notify\<close> does not block: a signal that finds the channel full is dropped.\<close>

definition deliver_signal :: "os_signal \<Rightarrow> interrupt \<Rightarrow> interrupt" where
  "deliver_signal sig i = (if length (in_chan i) < 1 then i\<lparr>in_chan := in_chan i @ [sig]\<rparr> else i)"

definition receive_signal :: "interrupt \<Rightarrow> interrupt option" where
  "receive_signal i =
     (if in_waiting i \<and> in_chan i \<noteq> []
      then Some (i\<lparr>in_chan := tl (in_chan i), in_waiting := False, in_calls := Suc (in_calls i)\<rparr>)
      else None)"

section \<open>The interface\<close>

text \<open>
  The event loop runs, is blocked in the handler of a key, or has returned. A \<open>Quit\<close> from the key
  that finds the channel full blocks the loop itself, which is the only one to read it.
\<close>

datatype event_loop = Ui_running | Ui_blocked | Ui_returned

text \<open>
  \<open>se_run\<close>: the start hook has run; \<open>se_watch\<close>: the goroutine that waits for the end of the context;
  \<open>se_quits\<close>: the calls of tui-go's \<open>Quit\<close>, \<open>se_quit_ch\<close> what its channel holds, \<open>se_quit_waits\<close>: the
  goroutine of the context is blocked in its send; \<open>se_reading\<close>: the loop of \<open>Subscribe\<close> has not
  returned, and \<open>se_update\<close>: the event whose \<open>Update\<close> it waits for.
\<close>

record session =
  se_intr :: interrupt
  se_ctx_done :: bool
  se_done :: bool
  se_quits :: nat
  se_quit_ch :: nat
  se_quit_waits :: bool
  se_loop :: event_loop
  se_run :: bool
  se_watch :: bool
  se_widget :: tab_widget
  se_events :: "executor_event list"      \<comment> \<open>the subscription's channel, of capacity 1024\<close>
  se_closed :: bool
  se_reading :: bool
  se_update :: "executor_event option"

definition new_ui :: session where
  "new_ui = \<lparr>se_intr = on_interrupt_signal, se_ctx_done = False, se_done = False, se_quits = 0,
     se_quit_ch = 0, se_quit_waits = False, se_loop = Ui_running, se_run = False, se_watch = False,
     se_widget = new_tab_widget, se_events = [], se_closed = False, se_reading = True, se_update = None\<rparr>"

text \<open>\<open>UI.Run\<close>, called by the start hook.\<close>

definition ui_run :: "(tid \<Rightarrow> 'w task) \<Rightarrow> tid list \<Rightarrow> session \<Rightarrow> session outcome" where
  "ui_run g ord s =
     bind_outcome (build_tab_list g (executor_tasks g ord) (se_widget s))
       (\<lambda>w. Return (s\<lparr>se_widget := w, se_run := True, se_watch := True\<rparr>))"

text \<open>
  \<open>UI.Quit\<close>: the flag, the send to tui-go's channel, and, once that has room, the signal. The
  second result says whether it returned; otherwise its goroutine is blocked in the send.
\<close>

definition ui_quit :: "session \<Rightarrow> session \<times> bool" where
  "ui_quit s =
     (let s' = s\<lparr>se_done := True, se_quits := Suc (se_quits s)\<rparr> in
      if se_quit_ch s < 1
      then (s'\<lparr>se_quit_ch := Suc (se_quit_ch s), se_intr := deliver_signal SIGINT (se_intr s)\<rparr>, True)
      else (s', False))"

text \<open>The keys \<open>q\<close> and Ctrl+c, handled by the event loop.\<close>

definition op_quit_key :: "session \<Rightarrow> session option" where
  "op_quit_key s =
     (if se_run s \<and> se_loop s = Ui_running
      then (case ui_quit s of (s', returned) \<Rightarrow> Some (if returned then s' else s'\<lparr>se_loop := Ui_blocked\<rparr>))
      else None)"

definition op_ctx_watch :: "session \<Rightarrow> session option" where
  "op_ctx_watch s =
     (if se_watch s \<and> se_ctx_done s
      then (case ui_quit (s\<lparr>se_watch := False\<rparr>) of (s', returned) \<Rightarrow> Some (s'\<lparr>se_quit_waits := \<not> returned\<rparr>))
      else None)"

text \<open>
  The event loop receives from the channel and returns. A \<open>Quit\<close> that waited for the room sends and
  signals then.
\<close>

definition op_loop_quit :: "session \<Rightarrow> session option" where
  "op_loop_quit s =
     (if se_run s \<and> se_loop s = Ui_running \<and> 0 < se_quit_ch s
      then Some (if se_quit_waits s
        then s\<lparr>se_loop := Ui_returned, se_quit_waits := False, se_intr := deliver_signal SIGINT (se_intr s)\<rparr>
        else s\<lparr>se_loop := Ui_returned, se_quit_ch := se_quit_ch s - 1\<rparr>)
      else None)"

text \<open>The function of the signal handler cancels the context of the run.\<close>

definition op_interrupted :: "session \<Rightarrow> session option" where
  "op_interrupted s =
     (case receive_signal (se_intr s) of
        None \<Rightarrow> None
      | Some i \<Rightarrow> Some (s\<lparr>se_intr := i, se_ctx_done := True\<rparr>))"

text \<open>
  \<open>publishEvent\<close> to the channel of the interface: it waits for room; on the closed channel it panics,
  which ends the program, and the machine has no step for it (\<open>Delivery\<close> has the panic).
\<close>

definition publish_panics :: "session \<Rightarrow> bool" where
  "publish_panics s \<longleftrightarrow> se_closed s"

definition op_session_publish :: "executor_event \<Rightarrow> session \<Rightarrow> session option" where
  "op_session_publish ev s =
     (if publish_panics s then None
      else if length (se_events s) < 1024 then Some (s\<lparr>se_events := se_events s @ [ev]\<rparr>)
      else None)"

text \<open>
  A round of the loop of \<open>Subscribe\<close>. For an event that a tab shows it calls \<open>Update\<close> and waits until
  the event loop has run the function.
\<close>

definition shown_event :: "(nat \<Rightarrow> string) \<Rightarrow> (tid \<Rightarrow> 'w task) \<Rightarrow> executor_event \<Rightarrow> tab_widget \<Rightarrow> bool" where
  "shown_event secs g ev w \<longleftrightarrow> tui_messages secs g ev \<noteq> [] \<and>
     (case event_task ev of None \<Rightarrow> False | Some t \<Rightarrow> tab_of t w \<noteq> None)"

definition op_consume :: "(nat \<Rightarrow> string) \<Rightarrow> (tid \<Rightarrow> 'w task) \<Rightarrow> session \<Rightarrow> session option" where
  "op_consume secs g s =
     (if \<not> se_reading s \<or> se_update s \<noteq> None then None
      else
        (case se_events s of
           [] \<Rightarrow> if se_closed s then Some (s\<lparr>se_reading := False\<rparr>) else None
         | ev # rest \<Rightarrow>
             if se_done s then Some (s\<lparr>se_events := rest, se_reading := False\<rparr>)
             else if shown_event secs g ev (se_widget s)
             then Some (s\<lparr>se_events := rest, se_update := Some ev\<rparr>)
             else Some (s\<lparr>se_events := rest\<rparr>)))"

definition op_loop_update :: "(nat \<Rightarrow> string) \<Rightarrow> (tid \<Rightarrow> 'w task) \<Rightarrow> session \<Rightarrow> session option" where
  "op_loop_update secs g s =
     (case se_update s of
        None \<Rightarrow> None
      | Some ev \<Rightarrow>
          if se_run s \<and> se_loop s = Ui_running
          then Some (s\<lparr>se_update := None, se_widget := ui_event secs g ev (se_widget s)\<rparr>) else None)"

text \<open>
  The steps from outside: the start hook, a signal, the keys \<open>q\<close> and Ctrl+c, an event of the executor, the end of
  the group of goroutines, which ends the context too, and the closing of the channel at the end;
  then the steps of the signal handler, of the goroutine of the context and of the loop of
  \<open>Subscribe\<close>; and those of the event loop.
\<close>

datatype session_action =
    S_start "tid list" | S_signal os_signal | S_quit_key | S_publish executor_event | S_group_done | S_close
  | S_interrupted | S_ctx_watch | S_consume | S_loop_quit | S_loop_update

fun do_session :: "(nat \<Rightarrow> string) \<Rightarrow> (tid \<Rightarrow> 'w task) \<Rightarrow> session_action \<Rightarrow> session \<Rightarrow> session option" where
  "do_session secs g (S_start ord) s =
     (if se_run s then None else (case ui_run g ord s of Return s' \<Rightarrow> Some s' | Panics msg \<Rightarrow> None))"
| "do_session secs g (S_signal sig) s = Some (s\<lparr>se_intr := deliver_signal sig (se_intr s)\<rparr>)"
| "do_session secs g S_quit_key s = op_quit_key s"
| "do_session secs g (S_publish ev) s = op_session_publish ev s"
| "do_session secs g S_group_done s = Some (s\<lparr>se_ctx_done := True\<rparr>)"
| "do_session secs g S_close s = Some (s\<lparr>se_closed := True\<rparr>)"
| "do_session secs g S_interrupted s = op_interrupted s"
| "do_session secs g S_ctx_watch s = op_ctx_watch s"
| "do_session secs g S_consume s = op_consume secs g s"
| "do_session secs g S_loop_quit s = op_loop_quit s"
| "do_session secs g S_loop_update s = op_loop_update secs g s"

fun session_actions ::
  "(nat \<Rightarrow> string) \<Rightarrow> (tid \<Rightarrow> 'w task) \<Rightarrow> session_action list \<Rightarrow> session \<Rightarrow> session option" where
  "session_actions secs g [] s = Some s"
| "session_actions secs g (a # as) s =
     Option.bind (do_session secs g a s) (session_actions secs g as)"

section \<open>How it ends\<close>

text \<open>The steps that ask for the end.\<close>

definition asks_end :: "session_action \<Rightarrow> bool" where
  "asks_end a \<longleftrightarrow> a = S_quit_key \<or> a = S_group_done \<or> (\<exists>sig. a = S_signal sig)"

text \<open>
  The steps of the session's own goroutines. The event loop of tui-go is not one of them: the end
  does not depend on it.
\<close>

definition own_action :: "session_action \<Rightarrow> bool" where
  "own_action a \<longleftrightarrow> a \<in> {S_interrupted, S_ctx_watch, S_consume}"

definition own_step :: "(nat \<Rightarrow> string) \<Rightarrow> (tid \<Rightarrow> 'w task) \<Rightarrow> session \<Rightarrow> session \<Rightarrow> bool" where
  "own_step secs g s s' \<longleftrightarrow> (\<exists>a. own_action a \<and> do_session secs g a s = Some s')"

text \<open>\<open>asked\<close>: the end was asked for.\<close>

definition session_inv :: "bool \<Rightarrow> session \<Rightarrow> bool" where
  "session_inv asked s \<longleftrightarrow>
     in_calls (se_intr s) = (if in_waiting (se_intr s) then 0 else 1) \<and>
     (\<not> in_waiting (se_intr s) \<longrightarrow> se_ctx_done s) \<and>
     (asked \<longrightarrow> se_ctx_done s \<or> in_chan (se_intr s) \<noteq> []) \<and>
     (se_run s \<longrightarrow> \<not> se_watch s \<longrightarrow> se_done s \<and> 0 < se_quits s) \<and>
     (\<not> asked \<longrightarrow> \<not> se_ctx_done s \<and> in_chan (se_intr s) = [] \<and> \<not> se_done s \<and> se_quits s = 0 \<and>
        se_quit_ch s = 0)"

lemma deliver_signal_simps [simp]:
  "in_calls (deliver_signal sig i) = in_calls i" "in_waiting (deliver_signal sig i) = in_waiting i"
  "in_chan (deliver_signal sig i) \<noteq> []"
  by (auto simp: deliver_signal_def)

lemma ui_run_Return: "ui_run g ord s = Return s' \<Longrightarrow>
    \<exists>w. s' = s\<lparr>se_widget := w, se_run := True, se_watch := True\<rparr>"
  by (auto simp: ui_run_def bind_outcome_Return_iff)

lemma ui_quit_cases:
  assumes "ui_quit s = (s', returned)"
  obtains "returned" "se_quit_ch s = 0" "s' = s\<lparr>se_done := True, se_quits := Suc (se_quits s),
      se_quit_ch := 1, se_intr := deliver_signal SIGINT (se_intr s)\<rparr>"
  | "\<not> returned" "0 < se_quit_ch s" "s' = s\<lparr>se_done := True, se_quits := Suc (se_quits s)\<rparr>"
  using assms by (auto simp: ui_quit_def Let_def split: if_splits)

lemma session_inv_quit: "session_inv asked s \<Longrightarrow> ui_quit s = (s', returned) \<Longrightarrow> session_inv True s'"
  by (erule ui_quit_cases) (auto simp: session_inv_def)

lemma session_inv_fields:
  assumes "session_inv asked s" and "se_intr s' = se_intr s" "se_ctx_done s' = se_ctx_done s"
    "se_run s' = se_run s" "se_watch s' = se_watch s" "se_done s' = se_done s" "se_quits s' = se_quits s"
    "se_quit_ch s' = se_quit_ch s"
  shows "session_inv asked s'"
  using assms by (simp add: session_inv_def)

lemma session_inv_action:
  assumes inv: "session_inv asked s" and act: "do_session secs g a s = Some s'"
  shows "session_inv (asked \<or> asks_end a) s'"
proof (cases a)
  case (S_start ord)
  with act obtain w where "s' = s\<lparr>se_widget := w, se_run := True, se_watch := True\<rparr>"
    using ui_run_Return by (fastforce split: if_splits outcome.splits)
  with inv S_start show ?thesis by (simp add: session_inv_def asks_end_def)
next
  case (S_signal sig)
  with inv act show ?thesis by (auto simp: session_inv_def asks_end_def)
next
  case S_quit_key
  with act obtain u r where u: "ui_quit s = (u, r)" "s' = (if r then u else u\<lparr>se_loop := Ui_blocked\<rparr>)"
    by (auto simp: op_quit_key_def split: if_splits prod.splits)
  have "session_inv True s'"
    using session_inv_fields [OF session_inv_quit [OF inv u(1)], of s'] u(2) by simp
  with S_quit_key show ?thesis by (simp add: asks_end_def)
next
  case (S_publish ev)
  with inv act show ?thesis by (auto simp: session_inv_def asks_end_def op_session_publish_def split: if_splits)
next
  case S_group_done
  with inv act show ?thesis by (auto simp: session_inv_def asks_end_def)
next
  case S_close
  with inv act show ?thesis by (auto simp: session_inv_def asks_end_def)
next
  case S_interrupted
  with inv act show ?thesis
    by (auto simp: session_inv_def asks_end_def op_interrupted_def receive_signal_def split: if_splits)
next
  case S_ctx_watch
  with act obtain u r where u: "se_ctx_done s" "ui_quit (s\<lparr>se_watch := False\<rparr>) = (u, r)"
    "s' = u\<lparr>se_quit_waits := \<not> r\<rparr>"
    by (auto simp: op_ctx_watch_def split: if_splits prod.splits)
  have asked using inv u(1) by (auto simp: session_inv_def)
  with inv u(1,3) show ?thesis
    by (cases rule: ui_quit_cases [OF u(2)]) (auto simp: session_inv_def)
next
  case S_loop_quit
  with inv act show ?thesis
    by (cases asked) (auto simp: session_inv_def asks_end_def op_loop_quit_def split: if_splits)
next
  case S_loop_update
  with act have "op_loop_update secs g s = Some s'" by simp
  then show ?thesis
    using S_loop_update session_inv_fields [OF inv, of s']
    by (auto simp: asks_end_def op_loop_update_def split: option.splits if_splits)
next
  case S_consume
  with act have "se_intr s' = se_intr s" "se_ctx_done s' = se_ctx_done s" "se_run s' = se_run s"
    "se_watch s' = se_watch s" "se_done s' = se_done s" "se_quits s' = se_quits s"
    "se_quit_ch s' = se_quit_ch s"
    by (auto simp: op_consume_def split: if_splits list.splits)
  with inv S_consume show ?thesis by (simp add: session_inv_def asks_end_def)
qed

lemma session_inv_actions:
  "session_actions secs g as s = Some s' \<Longrightarrow> session_inv asked s \<Longrightarrow>
     session_inv (asked \<or> (\<exists>a \<in> set as. asks_end a)) s'"
proof (induction as arbitrary: s asked)
  case Nil
  then show ?case by simp
next
  case (Cons a as)
  then obtain s1 where s1: "do_session secs g a s = Some s1" "session_actions secs g as s1 = Some s'"
    by (auto simp: bind_eq_Some_conv)
  from Cons.IH [OF s1(2) session_inv_action [OF Cons.prems(2) s1(1)]] show ?case
    by (simp add: disj_assoc)
qed

text \<open>The session's own goroutines take few steps.\<close>

definition session_work :: "session \<Rightarrow> nat" where
  "session_work s = length (se_events s) + (if in_waiting (se_intr s) then 1 else 0) +
     (if se_watch s then 1 else 0) + (if se_reading s then 1 else 0)"

lemma own_step_less:
  assumes "own_step secs g s s'"
  shows "session_work s' < session_work s"
  using assms
  by (auto simp: own_step_def own_action_def session_work_def op_interrupted_def receive_signal_def
      op_ctx_watch_def op_consume_def ui_quit_def Let_def split: if_splits list.splits)

lemma own_steps:
  assumes "(own_step secs g ^^ n) s s'" and "session_inv True s" and "se_run s"
  shows "n + session_work s' \<le> session_work s \<and> session_inv True s' \<and> se_run s'"
  using assms(1)
proof (induction n arbitrary: s')
  case 0
  with assms(2,3) show ?case by simp
next
  case (Suc n)
  then obtain u where u: "(own_step secs g ^^ n) s u" "own_step secs g u s'" by auto
  from u(2) obtain a where a: "own_action a" "do_session secs g a u = Some s'"
    unfolding own_step_def by blast
  from a have "se_run s' = se_run u"
    by (auto simp: own_action_def op_interrupted_def op_ctx_watch_def op_consume_def ui_quit_def Let_def
        split: if_splits list.splits option.splits)
  with Suc.IH [OF u(1)] own_step_less [OF u(2)] session_inv_action [OF _ a(2), of True] show ?case
    by auto
qed

text \<open>Where they can take no step, the session has ended, whatever came in between.\<close>

lemma rest_ended:
  assumes inv: "session_inv True s" and run: "se_run s" and rest: "\<nexists>s'. own_step secs g s s'"
  shows "se_ctx_done s \<and> se_done s \<and> 0 < se_quits s"
proof -
  have none: "do_session secs g a s = None" if "own_action a" for a
    using rest that unfolding own_step_def by (metis not_None_eq)
  have "se_ctx_done s"
    using none [of S_interrupted] inv
    by (auto simp: own_action_def op_interrupted_def receive_signal_def session_inv_def split: if_splits)
  moreover from this have "\<not> se_watch s"
    using none [of S_ctx_watch] by (auto simp: own_action_def op_ctx_watch_def split: if_splits prod.splits)
  ultimately show ?thesis using inv run by (simp add: session_inv_def)
qed

lemma session_start_inv: "session_inv False new_ui"
  by (simp add: session_inv_def new_ui_def on_interrupt_signal_def)

lemma session_rest_ended:
  assumes "session_actions secs g as new_ui = Some s" and "se_run s" and "\<exists>a \<in> set as. asks_end a"
    and "\<nexists>s'. own_step secs g s s'"
  shows "se_ctx_done s \<and> se_done s \<and> 0 < se_quits s"
  using session_inv_actions [OF assms(1) session_start_inv] assms(2-4) by (intro rest_ended) auto

text \<open>
  C40. A session ends when it is asked to: after an interrupt signal, the key that quits or the end
  of the run's goroutines, the signal handler, the goroutine that waits for the end of the context
  and the loop over the events take at most as many steps as there are events left to read,
  and three more; then the context of the run is cancelled and \<open>Quit\<close> of the interface has been
  called. This does not depend on the event loop of tui-go, whose steps are not counted, and
  which may have blocked. The function of the signal handler is called once at most, however
  many signals arrive.
\<close>

theorem session_ends:
  assumes "session_actions secs g as new_ui = Some s" and "se_run s"
    and "\<exists>a \<in> set as. a = S_quit_key \<or> a = S_group_done \<or> (\<exists>sig. a = S_signal sig)"
    and "(own_step secs g ^^ n) s s'"
  shows "n \<le> length (se_events s) + 3 \<and> in_calls (se_intr s') \<le> 1 \<and>
    ((\<nexists>s''. own_step secs g s' s'') \<longrightarrow> se_ctx_done s' \<and> se_done s' \<and> 0 < se_quits s')"
proof -
  from session_inv_actions [OF assms(1) session_start_inv] assms(3) have "session_inv True s"
    by (auto simp: asks_end_def)
  from own_steps [OF assms(4) this assms(2)] have work: "n \<le> session_work s"
    and inv: "session_inv True s'" and run: "se_run s'" by auto
  have "se_ctx_done s' \<and> se_done s' \<and> 0 < se_quits s'" if "\<nexists>s''. own_step secs g s' s''"
    using inv run that by (rule rest_ended)
  moreover have "in_calls (se_intr s') \<le> 1" using inv by (simp add: session_inv_def)
  moreover have "n \<le> length (se_events s) + 3" using work by (simp add: session_work_def split: if_splits)
  ultimately show ?thesis by blast
qed

definition idle_tasks :: "tid \<Rightarrow> unit task" where
  "idle_tasks t = zero_task"

definition quit_run :: "session_action list" where
  "quit_run = [S_start [0], S_quit_key, S_signal SIGTERM]"

lemma quit_run_eval:
  "\<exists>s s1 s2. session_actions nat_string idle_tasks quit_run new_ui = Some s \<and> se_run s \<and>
     se_events s = [] \<and> op_interrupted s = Some s1 \<and> op_ctx_watch s1 = Some s2"
  by (simp add: quit_run_def new_ui_def ui_run_def build_tab_list_def executor_tasks_def populate_def
      select_tab_def style_tabs_def tui_clamp_def current_tab_def new_tab_widget_def set_view_def Let_def
      ui_quit_def op_quit_key_def on_interrupt_signal_def op_interrupted_def receive_signal_def
      deliver_signal_def op_ctx_watch_def)

theorem session_ends_witness:
  "\<exists>s s'. session_actions nat_string idle_tasks quit_run new_ui = Some s \<and>
     (own_step nat_string idle_tasks ^^ 2) s s' \<and> in_calls (se_intr s') \<le> 1"
proof -
  from quit_run_eval obtain s s1 s2 where s: "session_actions nat_string idle_tasks quit_run new_ui = Some s"
    "se_run s" and steps: "op_interrupted s = Some s1" "op_ctx_watch s1 = Some s2" by blast
  have "own_step nat_string idle_tasks s s1" unfolding own_step_def
    using steps(1) by (intro exI [where x = S_interrupted]) (simp add: own_action_def)
  moreover have "own_step nat_string idle_tasks s1 s2" unfolding own_step_def
    using steps(2) by (intro exI [where x = S_ctx_watch]) (simp add: own_action_def)
  ultimately have two: "(own_step nat_string idle_tasks ^^ 2) s s2" by (auto simp: numeral_2_eq_2)
  have "\<exists>a \<in> set quit_run. a = S_quit_key \<or> a = S_group_done \<or> (\<exists>sig. a = S_signal sig)"
    by (simp add: quit_run_def)
  from session_ends [OF s this two] s(1) two show ?thesis by blast
qed

section \<open>After the end\<close>

text \<open>
  The loop over the events ends with the first event after the interface has quit, and nobody
  reads the channel any more: when 1024 further events were published, the next one blocks its
  publisher for ever (and with it the executor, see \<open>Delivery\<close>).
\<close>

lemma publish_many:
  "length (se_events s) + n \<le> 1024 \<Longrightarrow> \<not> se_closed s \<Longrightarrow>
     session_actions secs g (replicate n (S_publish ev)) s =
       Some (s\<lparr>se_events := se_events s @ replicate n ev\<rparr>)"
proof (induction n arbitrary: s)
  case 0
  then show ?case by simp
next
  case (Suc n)
  from Suc.IH [of "s\<lparr>se_events := se_events s @ [ev]\<rparr>"] Suc.prems show ?case
    by (simp add: op_session_publish_def publish_panics_def replicate_append_same)
qed

text \<open>The loop over the events reads no more: it has returned, or waits for an event loop that has.\<close>

definition reads_no_more :: "session \<Rightarrow> bool" where
  "reads_no_more s \<longleftrightarrow> \<not> se_reading s \<or> se_update s \<noteq> None \<and> se_loop s \<noteq> Ui_running"

lemma reads_no_more_action:
  assumes "reads_no_more s" and "do_session secs g a s = Some s'"
  shows "reads_no_more s' \<and> length (se_events s) \<le> length (se_events s')"
  using assms
  by (cases a) (auto simp: reads_no_more_def op_session_publish_def op_interrupted_def op_ctx_watch_def
      op_consume_def op_quit_key_def op_loop_quit_def op_loop_update_def ui_quit_def Let_def
      split: if_splits option.splits outcome.splits dest!: ui_run_Return)

lemma full_channel_blocks:
  "reads_no_more s \<Longrightarrow> 1024 \<le> length (se_events s) \<Longrightarrow> session_actions secs g as s = Some s' \<Longrightarrow>
     op_session_publish ev s' = None"
proof (induction as arbitrary: s)
  case Nil
  then show ?case by (simp add: op_session_publish_def)
next
  case (Cons a as)
  then obtain s1 where s1: "do_session secs g a s = Some s1" "session_actions secs g as s1 = Some s'"
    by (auto simp: bind_eq_Some_conv)
  from reads_no_more_action [OF Cons.prems(1) s1(1)] Cons.prems(2) Cons.IH [OF _ _ s1(2)] show ?case
    by simp
qed

text \<open>
  The key that quits, pressed while an update waits: the event loop returns, and the loop over the
  events waits in \<open>Update\<close> for ever. Pressed twice: the event loop itself is blocked.
\<close>

lemmas session_eval =
  new_ui_def ui_run_def build_tab_list_def executor_tasks_def populate_def select_tab_def style_tabs_def
  tui_clamp_def current_tab_def new_tab_widget_def set_view_def Let_def ui_quit_def op_quit_key_def
  on_interrupt_signal_def deliver_signal_def op_session_publish_def publish_panics_def op_consume_def

lemma update_can_hang:
  "\<exists>s. session_actions nat_string idle_tasks [S_start [0], S_publish (TaskLogEvent 0 ''x'' Stdout_stream),
       S_consume, S_quit_key, S_loop_quit] new_ui = Some s \<and> se_reading s \<and> reads_no_more s"
  by (simp add: session_eval op_loop_quit_def reads_no_more_def shown_event_def tab_of_def)

lemma second_quit_blocks:
  "\<exists>s. session_actions nat_string idle_tasks [S_start [0], S_quit_key, S_quit_key] new_ui = Some s \<and>
     se_loop s = Ui_blocked"
  by (simp add: session_eval)

lemma quit_can_block:
  "\<exists>as s. session_actions nat_string idle_tasks as new_ui = Some s \<and> se_done s \<and>
     \<not> se_reading s \<and> length (se_events s) = 1024"
proof -
  let ?g = idle_tasks
  have "\<exists>s. session_actions nat_string ?g [S_start [0], S_quit_key, S_publish ExecutorSetupEvent, S_consume]
      new_ui = Some s \<and> se_done s \<and> \<not> se_reading s \<and> se_events s = [] \<and> \<not> se_closed s"
    by (simp add: session_eval)
  then obtain s where s: "session_actions nat_string ?g [S_start [0], S_quit_key,
      S_publish ExecutorSetupEvent, S_consume] new_ui = Some s" "se_done s" "\<not> se_reading s"
    "se_events s = []" "\<not> se_closed s" by blast
  have app: "session_actions secs g (as @ bs) u = Option.bind (session_actions secs g as u) (session_actions secs g bs)"
    for secs and g :: "tid \<Rightarrow> unit task" and as bs u
    by (induction as arbitrary: u) (simp_all add: bind_assoc split: option.split bind_splits)
  have "session_actions nat_string ?g ([S_start [0], S_quit_key, S_publish ExecutorSetupEvent, S_consume] @
      replicate 1024 (S_publish ExecutorSetupEvent)) new_ui =
      Some (s\<lparr>se_events := replicate 1024 ExecutorSetupEvent\<rparr>)"
    unfolding app s(1) using publish_many [of s 1024 nat_string ?g ExecutorSetupEvent] s(4,5) by simp
  moreover have "se_done (s\<lparr>se_events := replicate 1024 ExecutorSetupEvent\<rparr>)"
    "\<not> se_reading (s\<lparr>se_events := replicate 1024 ExecutorSetupEvent\<rparr>)"
    "length (se_events (s\<lparr>se_events := replicate 1024 ExecutorSetupEvent\<rparr>)) = 1024"
    using s by simp_all
  ultimately show ?thesis by blast
qed

end
