(* ===== verification/Spec2Isabelle.thy ===== *)
theory Spec2Isabelle
  imports ExecutorShutdown Delivery Rebuild System FlagTypes Help Cache Logging Buildkite GoBuilderLive GoWrap
    TuiSession
begin

text \<open>
  A verification library for taskrunner, a Go program that runs a graph of tasks, re-runs
  those whose files change, and reports what they print. The theories are translated from the
  sources under \<open>src/\<close>; names follow the code.

  \<^bold>\<open>The program.\<close> \<open>Run\<close> (\<open>runner.go\<close>) parses its options, reads the configuration
  (\<open>config/config.go\<close>), groups the remaining arguments by the tasks of the registry
  (\<open>registry.go\<close>), and makes an \<open>Executor\<close> (\<open>executor.go\<close>). \<open>Executor.Run\<close> builds the
  graph of the desired tasks (\<open>task_execution.go\<close>), starts a goroutine for each task that is
  ready, and waits for all of them. A finished task starts further passes; a changed file or
  a restart marks tasks as pending, and a plan, made under the executor's lock, cancels and
  resets them. Subscribers receive events: the command line (\<open>clireporter\<close>), Buildkite
  (\<open>buildkitereporter\<close>) and the terminal interface (\<open>tui\<close>). Extensions wrap tasks: a cache
  of unchanged sources (\<open>cache\<close>) and a batching Go builder (\<open>goextensions\<close>).

  \<^bold>\<open>Common ground.\<close> \<open>Prelude\<close> has Go's errors with their wrapping, outcomes (a value or a
  panic), the string functions of the standard library, and two interfaces of transition
  systems: \<open>invariant\<close>, interpreted for every machine below, and \<open>refinement\<close>. \<open>Wrapper\<close> has
  the interface of functions that wrap tasks, which the cache and the Go builder provide, and
  \<open>Watch\<close> that of the two programs that report changed files.
  \<open>Format\<close> has decimal numbers. Pointers to tasks are identities \<open>tid\<close> and \<open>g\<close> maps them
  to their definitions; a task's functions act on a world \<open>'w\<close>. A Go map is a partial
  function, and the order of each range over one is an argument, so that the theorems hold
  for every order.

  \<^bold>\<open>The executor.\<close>
  \<open>Task\<close> (\<open>task.go\<close>, \<open>invalidation.go\<close>) and \<open>Shell\<close> (\<open>shell/shell.go\<close>) give the data;
  \<open>TaskSet\<close> and \<open>TaskSetBuild\<close> model \<open>taskSet.add\<close> with the tree of contexts, and prove that
  the graph holds exactly the transitive dependencies; \<open>TaskExecution\<close> has the operations of
  a node. \<open>Executor\<close> is a machine whose steps are single accesses to shared state: a run goes
  through its program counters from the start of the body over the check of its context, the
  write of its state, the event, the terminal channel and the plan to its return; passes,
  plans, the invalidation loop and calls of \<open>Invalidate\<close> are further threads, and \<open>e.mu\<close> is
  an owner. \<open>ExecutorEffects\<close> says what a step can change, \<open>ExecutorInv\<close> has the main
  invariant, \<open>ExecutorContexts\<close>, \<open>ExecutorOrder\<close> and \<open>ExecutorRuns\<close> refine it.
  \<open>ExecutorSafety\<close> states safety: the order of starts, one run for each task, the state
  machine of a node, who may cancel. \<open>ExecutorWake\<close> shows that nothing startable or pending
  is left at rest; \<open>ExecutorRaces\<close> shows the interleaving in which an invalidation is lost,
  and that without it plans wait only for runs that were told to stop. \<open>ExecutorSpec\<close> states
  the scheduler as its documentation describes it, a state for each task and nothing else,
  and proves that every step of the machine is one of the scheduler's or the one race, in which
  a run records its end on a task that was reset since. \<open>ExecutorStuck\<close> proves
  that the machine, its events aside, blocks in two ways only: in a plan that waits in vain, and
  in the send of a long-lived task after the invalidation loop has returned, which keeps a
  shutdown from ending. \<open>Delivery\<close> adds what \<open>publishEvent\<close> does with an event, the sends to the
  subscribers' channels of 1024 places, which wait for room, and the closing of the channels: a
  full channel is the third way to block, a subscriber that does not read stops everything when a
  plan sends to it, and an event that is published after \<open>Run\<close> has returned panics.
  \<open>ExecutorShutdown\<close> bounds the steps that follow a shutdown. \<open>ExecutorPlain\<close> proves
  that runs in which nothing is invalidated from outside, taskrunner is not told to stop, and no
  task is long-lived end, never get stuck, and have the right verdict; \<open>ExecutorMeasure\<close> has
  what the two measures share. \<open>Rebuild\<close> joins the machine to the watcher: it delivers the calls that an
  event leads to in any order, among any other steps, and proves that the tasks with a changed
  source are started again before the machine rests.

  \<^bold>\<open>Around it.\<close>
  \<open>Registry\<close>: when a task is accepted, and the index of its flags. \<open>Flags\<close>: the parsing of the
  flags of a task. \<open>FlagTypes\<close>: the entries are well typed. \<open>Help\<close>: the help text of a task.
  \<open>Config\<close>: the chain of extended files, on Unix paths. \<open>Runner\<close>: options,
  the grouping of arguments against its specification \<open>last_group\<close>, the choice of what to
  run, the executor's construction, and \<open>Executor.Run\<close> with its hooks. \<open>System\<close> composes
  these with the machine: what a task runs with, and when the program exits cleanly.
  \<open>Watch\<close>: source globs and the lines of fswatch and inotifywait, read back. \<open>WatchRun\<close>: the
  run of a watcher and the calls of \<open>Invalidate\<close> that come of it. \<open>Cache\<close>:
  snapshots, their difference, exactly when a task is skipped, and what is dirty in a repository
  that has not changed. \<open>Events\<close>: the events and their
  texts. \<open>CliReporter\<close>: prefixes and the line buffer, against the specification
  \<open>complete_lines\<close>; \<open>CliLog\<close>: the output that the writers of all tasks share, which holds the
  complete lines of each task in order; \<open>Logging\<close>: subscriptions, event loggers and \<open>Logf\<close>.
  \<open>Buildkite\<close>: the bounded log. \<open>Tui\<close>: tabs and scrolling. \<open>TuiSession\<close>: the handler of
  interrupt signals (\<open>process.go\<close>) and the life of the interface, as a machine that ends when it
  is asked to, with the two ways in which tui-go's event loop can leave its callers waiting.
  \<open>GoBuilder\<close>: the batching of builds as a machine, with its races and panics;
  \<open>GoBuilderLive\<close>: where the races do not strike and every call has a logger, every call returns
  after a build of its package.
  \<open>GoWrap\<close>: the wrapped task.

  \<^bold>\<open>Bounds and fuel.\<close> \<open>add_task\<close>, \<open>mark_invalid\<close> and \<open>read_config\<close> recurse along pointers or
  files that may form cycles and take fuel; \<open>add_task_returns_iff\<close>,
  \<open>invalidate_returns\<close> and \<open>read_config_returns_iff\<close> show that fuel is enough exactly when the
  code returns. Words are used where the width matters: hashes (32 bits), the flags of file
  events (64 bits), and the range of \<open>strconv.ParseInt\<close>. The buffer of \<open>bufio.Writer\<close> has 4096
  bytes and the channel of build requests 128 places.

  \<^bold>\<open>Parameters.\<close> Third-party packages and the world are arguments: the shell interpreter, git
  and the go command, the file system with the walk of directories, the JSON decoder and
  encoder, MD5, glob matching (zglob), the escape codes of colours, the parsing of
  floating-point numbers and durations, the output and the end of child processes, and the
  layout of the terminal (tui-go). Of Go's library, what the code relies on is modelled:
  contexts, channels, \<open>bufio\<close>, \<open>strings\<close>, \<open>filepath\<close>, \<open>strconv\<close>, \<open>errgroup\<close>, \<open>signal.Notify\<close> and
  the escaping of \<open>html/template\<close>.

  \<^bold>\<open>Not modelled.\<close> The process groups of the shell's children, drawing beyond the rows that are
  shown, the handling of keys other than those of the program by the event loop of the terminal,
  the usage text, and time: a timer that is set may fire at any later moment, but for the
  hypothesis that \<open>GoBuilderLive\<close> states. The executor's machine lists its events as they are
  published; their sends, with the room they wait for, are steps of \<open>Delivery\<close>, while the theorems
  on the machine alone (\<open>ExecutorSafety\<close> to \<open>ExecutorPlain\<close>, \<open>Rebuild\<close>, \<open>System\<close>) count the steps of the
  executor and not those sends. A plan collects its tasks in one step, before it sends their
  events. A task's body is taken to publish one log event at a time. The write of the cache file
  is taken to succeed, and the messages of fatal errors are shortened.
\<close>

end
